(* ===== verification/Analytics_Prelude.thy ===== *)
theory Analytics_Prelude
  imports Complex_Main "HOL-Library.Word"
begin

text \<open>
  Shared vocabulary of the development: instants and durations, the outcome of a call to an
  external system, Go's fixed-width integer arithmetic, and generic lemmas on lists that the
  component theories use.

  Instants of Go (\<^verbatim>\<open>time.Time\<close>) are nanoseconds since the Unix epoch (the location and the
  monotonic reading of a \<^verbatim>\<open>time.Time\<close> never reach a comparison of this program). Instants of
  PostgreSQL (\<^verbatim>\<open>timestamptz\<close>) are microseconds since the Unix epoch.
\<close>

type_synonym go_time = int
type_synonym go_duration = int
type_synonym pg_time = int

named_theorems store_defs \<open>definitions of the store operations\<close>
named_theorems tbl \<open>lookup and key lemmas of the SQL table operations\<close>

section \<open>Outcome of a call to an external system\<close>

text \<open>
  A call to the database either succeeds (\<open>Done\<close>), fails without effect (\<open>Failed\<close>), or takes
  effect on the server while the client only sees an error (\<open>Lost\<close>, the acknowledgement is
  lost: a connection that drops during \<^verbatim>\<open>COMMIT\<close>). An operation that issues several calls takes
  a function from the number of the call inside the operation to its outcome.
\<close>

datatype outcome = Done | Failed | Lost

type_synonym faults = "nat \<Rightarrow> outcome"

definition no_faults :: faults where
  "no_faults = (\<lambda>_. Done)"

lemma no_faults_apply [simp]: "no_faults n = Done"
  by (simp add: no_faults_def)

section \<open>Go integers\<close>

text \<open>Two's complement wrap-around of Go's \<^verbatim>\<open>int64\<close>, \<^verbatim>\<open>int\<close> and \<^verbatim>\<open>time.Duration\<close>.\<close>

definition wrap64 :: "int \<Rightarrow> int" where
  "wrap64 x = (x + 2 ^ 63) mod 2 ^ 64 - 2 ^ 63"

definition in_int64 :: "int \<Rightarrow> bool" where
  "in_int64 x \<longleftrightarrow> - (2 ^ 63) \<le> x \<and> x < 2 ^ 63"

text \<open>Go's integer division and remainder truncate towards zero.\<close>

definition go_div :: "int \<Rightarrow> int \<Rightarrow> int" where
  "go_div a b = sgn a * sgn b * (\<bar>a\<bar> div \<bar>b\<bar>)"

definition go_mod :: "int \<Rightarrow> int \<Rightarrow> int" where
  "go_mod a b = a - b * go_div a b"

lemma wrap64_id: "in_int64 x \<Longrightarrow> wrap64 x = x"
  by (simp add: wrap64_def in_int64_def)

lemma wrap64_in_int64: "in_int64 (wrap64 x)"
proof -
  have "0 \<le> (x + 2 ^ 63) mod 2 ^ 64" "(x + 2 ^ 63) mod 2 ^ 64 < 2 ^ 64"
    by (rule pos_mod_sign pos_mod_bound, simp)+
  then show ?thesis by (simp add: wrap64_def in_int64_def)
qed

lemma go_div_nonneg: "0 \<le> a \<Longrightarrow> 0 < b \<Longrightarrow> go_div a b = a div b"
  by (cases "a = 0") (auto simp: go_div_def)

lemma go_mod_nonneg: "0 \<le> a \<Longrightarrow> 0 < b \<Longrightarrow> go_mod a b = a mod b"
  by (simp add: go_mod_def go_div_nonneg minus_mult_div_eq_mod)

lemma go_mod_neg:
  assumes "a < 0" "0 < b"
  shows "go_mod a b = - ((- a) mod b)"
proof -
  have "go_mod a b = - ((- a) - b * ((- a) div b))"
    using assms by (simp add: go_mod_def go_div_def)
  also have "(- a) - b * ((- a) div b) = (- a) mod b"
    by (rule minus_mult_div_eq_mod)
  finally show ?thesis .
qed

section \<open>Lists\<close>

lemma find_map_eq_None: "find P xs = None \<longleftrightarrow> (\<forall>x \<in> set xs. \<not> P x)"
  by (induction xs) auto

lemma sum_list_map_filter_const:
  "(\<Sum>x\<leftarrow>xs. if P x then (1::int) else 0) = int (length (filter P xs))"
  by (induction xs) auto

lemma length_filter_split:
  "length (filter P xs) = length (filter (\<lambda>x. P x \<and> Q x) xs) + length (filter (\<lambda>x. P x \<and> \<not> Q x) xs)"
  by (induction xs) auto

lemma mod_diff_interval:
  fixes t w :: int
  assumes "0 < w"
  shows "t - t mod w \<le> t" "t < t - t mod w + w"
  using assms pos_mod_sign[of w t] pos_mod_bound[of w t] by linarith+

end
