(* ===== verification/Sql_Tables.thy ===== *)
theory Sql_Tables
  imports Analytics_Prelude
begin

text \<open>
  The fragment of SQL the store issues. A table is the list of its rows, a unique constraint is a
  key function on rows. \<open>insert_do_nothing\<close> is
  \<^verbatim>\<open>INSERT ... ON CONFLICT (key) DO NOTHING\<close>, \<open>upsert\<close> is
  \<^verbatim>\<open>INSERT ... ON CONFLICT (key) DO UPDATE SET ...\<close> for one row (the update gets the existing row
  and the proposed row, which SQL calls \<^verbatim>\<open>EXCLUDED\<close>), \<open>insert_all_do_nothing\<close> and \<open>upsert_all\<close>
  are the multi-row forms. A multi-row \<^verbatim>\<open>DO UPDATE\<close> is rejected when two proposed rows have the
  same key (``cannot affect row a second time''). The order of the rows of a table is not
  observable by SQL; the lemmas characterise every operation by its lookups.
\<close>

fun lookup :: "('r \<Rightarrow> 'k) \<Rightarrow> 'r list \<Rightarrow> 'k \<Rightarrow> 'r option" where
  "lookup key [] k = None"
| "lookup key (r # rs) k = (if key r = k then Some r else lookup key rs k)"

definition unique_key :: "('r \<Rightarrow> 'k) \<Rightarrow> 'r list \<Rightarrow> bool" where
  "unique_key key rs \<longleftrightarrow> distinct (map key rs)"

definition insert_do_nothing :: "('r \<Rightarrow> 'k) \<Rightarrow> 'r list \<Rightarrow> 'r \<Rightarrow> 'r list \<times> nat" where
  "insert_do_nothing key rs new =
     (case lookup key rs (key new) of None \<Rightarrow> (rs @ [new], 1) | Some _ \<Rightarrow> (rs, 0))"

fun insert_all_do_nothing :: "('r \<Rightarrow> 'k) \<Rightarrow> 'r list \<Rightarrow> 'r list \<Rightarrow> 'r list \<times> 'r list" where
  "insert_all_do_nothing key rs [] = (rs, [])"
| "insert_all_do_nothing key rs (new # news) =
     (case lookup key rs (key new) of
        None \<Rightarrow> (let (rs', ret) = insert_all_do_nothing key (rs @ [new]) news in (rs', new # ret))
      | Some _ \<Rightarrow> insert_all_do_nothing key rs news)"

fun upsert :: "('r \<Rightarrow> 'k) \<Rightarrow> ('r \<Rightarrow> 'r \<Rightarrow> 'r) \<Rightarrow> 'r list \<Rightarrow> 'r \<Rightarrow> 'r list" where
  "upsert key upd [] new = [new]"
| "upsert key upd (r # rs) new =
     (if key r = key new then upd r new # rs else r # upsert key upd rs new)"

definition upsert_all :: "('r \<Rightarrow> 'k) \<Rightarrow> ('r \<Rightarrow> 'r \<Rightarrow> 'r) \<Rightarrow> 'r list \<Rightarrow> 'r list \<Rightarrow> 'r list option" where
  "upsert_all key upd rs news =
     (if distinct (map key news) then Some (foldl (upsert key upd) rs news) else None)"

definition update_where :: "('r \<Rightarrow> bool) \<Rightarrow> ('r \<Rightarrow> 'r) \<Rightarrow> 'r list \<Rightarrow> 'r list \<times> nat" where
  "update_where P f rs = (map (\<lambda>r. if P r then f r else r) rs, length (filter P rs))"

definition delete_where :: "('r \<Rightarrow> bool) \<Rightarrow> 'r list \<Rightarrow> 'r list \<times> nat" where
  "delete_where P rs = (filter (\<lambda>r. \<not> P r) rs, length (filter P rs))"

text \<open>\<^verbatim>\<open>SELECT k, agg(...) ... GROUP BY k\<close>: the groups, in the order their first row appears.\<close>

definition group_by :: "('r \<Rightarrow> 'k) \<Rightarrow> 'r list \<Rightarrow> ('k \<times> 'r list) list" where
  "group_by key rs = map (\<lambda>k. (k, filter (\<lambda>r. key r = k) rs)) (remdups (map key rs))"

section \<open>Lookups\<close>

lemma lookup_append:
  "lookup key (xs @ ys) k = (case lookup key xs k of None \<Rightarrow> lookup key ys k | Some r \<Rightarrow> Some r)"
  by (induction xs) auto

lemma lookup_SomeD: "lookup key rs k = Some r \<Longrightarrow> r \<in> set rs \<and> key r = k"
  by (induction rs) (auto split: if_splits)

lemma lookup_None_iff: "lookup key rs k = None \<longleftrightarrow> k \<notin> key ` set rs"
  by (induction rs) auto

lemma lookup_unique:
  "unique_key key rs \<Longrightarrow> r \<in> set rs \<Longrightarrow> lookup key rs (key r) = Some r"
  by (induction rs) (auto simp: unique_key_def rev_image_eqI)

lemma unique_key_Nil [simp]: "unique_key key []"
  by (simp add: unique_key_def)

lemma unique_key_append1:
  "unique_key key (rs @ [r]) \<longleftrightarrow> unique_key key rs \<and> lookup key rs (key r) = None"
  by (auto simp: unique_key_def lookup_None_iff)

lemma unique_key_filter: "unique_key key rs \<Longrightarrow> unique_key key (filter P rs)"
  by (simp add: unique_key_def distinct_map_filter)

lemma lookup_filter:
  "unique_key key rs \<Longrightarrow>
   lookup key (filter P rs) k =
     (case lookup key rs k of None \<Rightarrow> None | Some r \<Rightarrow> if P r then Some r else None)"
proof (induction rs)
  case (Cons r rs)
  have "lookup key rs (key r) = None"
    using Cons.prems by (simp add: unique_key_def lookup_None_iff)
  with Cons show ?case by (auto simp: unique_key_def)
qed simp

lemma lookup_map:
  "(\<And>r. key (f r) = key r) \<Longrightarrow> lookup key (map f rs) k = map_option f (lookup key rs k)"
  by (induction rs) auto

lemma unique_key_map: "(\<And>r. key (f r) = key r) \<Longrightarrow> unique_key key (map f rs) = unique_key key rs"
  by (simp add: unique_key_def comp_def)

section \<open>\<^verbatim>\<open>DO NOTHING\<close>\<close>

lemma insert_do_nothing_cases:
  "insert_do_nothing key rs new =
     (if lookup key rs (key new) = None then (rs @ [new], 1) else (rs, 0))"
  by (auto simp: insert_do_nothing_def split: option.splits)

lemma unique_key_insert_do_nothing:
  "unique_key key rs \<Longrightarrow> unique_key key (fst (insert_do_nothing key rs new))"
  by (simp add: insert_do_nothing_cases unique_key_append1)

lemma lookup_insert_do_nothing [tbl]:
  "lookup key (fst (insert_do_nothing key rs new)) k =
     (case lookup key rs k of Some r \<Rightarrow> Some r | None \<Rightarrow> if k = key new then Some new else None)"
  by (auto simp: insert_do_nothing_cases lookup_append split: option.splits)

lemma insert_all_append:
  "insert_all_do_nothing key rs (xs @ ys) =
     (let (rs', ret) = insert_all_do_nothing key rs xs;
          (rs'', ret') = insert_all_do_nothing key rs' ys
      in (rs'', ret @ ret'))"
  by (induction xs arbitrary: rs) (simp_all add: case_prod_beta Let_def split: option.splits)

lemma insert_all_fst:
  "fst (insert_all_do_nothing key rs news) = foldl (\<lambda>rs n. fst (insert_do_nothing key rs n)) rs news"
  by (induction news arbitrary: rs)
    (simp_all add: insert_do_nothing_def case_prod_beta Let_def split: option.splits)

lemma insert_all_returning:
  "fst (insert_all_do_nothing key rs news) = rs @ snd (insert_all_do_nothing key rs news)"
  by (induction news arbitrary: rs) (simp_all add: case_prod_beta Let_def split: option.splits)

lemma insert_all_snd_subset: "set (snd (insert_all_do_nothing key rs news)) \<subseteq> set news"
  by (induction news arbitrary: rs)
    (auto simp: case_prod_beta Let_def split: option.splits dest!: subsetD)

lemma insert_all_length: "length (snd (insert_all_do_nothing key rs news)) \<le> length news"
  by (induction news arbitrary: rs) (auto simp: case_prod_beta Let_def le_SucI split: option.splits)

lemma unique_key_insert_all:
  "unique_key key rs \<Longrightarrow> unique_key key (fst (insert_all_do_nothing key rs news))"
  unfolding insert_all_fst
  by (induction news arbitrary: rs) (simp_all add: unique_key_insert_do_nothing)

lemma insert_all_present:
  "(\<And>n. n \<in> set news \<Longrightarrow> lookup key rs (key n) \<noteq> None) \<Longrightarrow> insert_all_do_nothing key rs news = (rs, [])"
proof (induction news)
  case (Cons n news)
  then obtain r where "lookup key rs (key n) = Some r" by fastforce
  with Cons show ?case by simp
qed simp

lemma insert_all_lookup_new:
  "n \<in> set news \<Longrightarrow> lookup key (fst (insert_all_do_nothing key rs news)) (key n) \<noteq> None"
  unfolding insert_all_fst
proof (induction news arbitrary: rs)
  case (Cons m news)
  have keep: "lookup key rs' k \<noteq> None \<Longrightarrow>
      lookup key (foldl (\<lambda>rs n. fst (insert_do_nothing key rs n)) rs' ns) k \<noteq> None" for rs' ns k
    by (induction ns arbitrary: rs') (auto simp: lookup_insert_do_nothing split: option.splits)
  show ?case
  proof (cases "n = m")
    case True
    have "lookup key (fst (insert_do_nothing key rs m)) (key m) \<noteq> None"
      by (simp add: lookup_insert_do_nothing split: option.splits)
    with True show ?thesis by (simp only: foldl_Cons) (rule keep)
  next
    case False
    with Cons show ?thesis by simp
  qed
qed simp

text \<open>A table that knows fewer of the proposed keys inserts at least as many rows of every kind.\<close>

lemma insert_all_antimono:
  "(\<And>n. n \<in> set news \<Longrightarrow> lookup key rs' (key n) \<noteq> None \<Longrightarrow> lookup key rs (key n) \<noteq> None) \<Longrightarrow>
   length (filter Q (snd (insert_all_do_nothing key rs news))) \<le>
   length (filter Q (snd (insert_all_do_nothing key rs' news)))"
proof (induction news arbitrary: rs rs')
  case (Cons n news)
  show ?case
  proof (cases "lookup key rs' (key n)")
    case None
    let ?rs = "if lookup key rs (key n) = None then rs @ [n] else rs"
    have "length (filter Q (snd (insert_all_do_nothing key ?rs news))) \<le>
          length (filter Q (snd (insert_all_do_nothing key (rs' @ [n]) news)))"
    proof (rule Cons.IH)
      fix m assume m: "m \<in> set news" "lookup key (rs' @ [n]) (key m) \<noteq> None"
      then have "lookup key rs' (key m) \<noteq> None \<or> key m = key n"
        by (auto simp: lookup_append split: option.splits if_splits)
      with m Cons.prems[of m] show "lookup key ?rs (key m) \<noteq> None"
        by (auto simp: lookup_append split: option.splits)
    qed
    with None show ?thesis by (auto simp: case_prod_beta Let_def split: option.splits if_splits)
  next
    case (Some r)
    with Cons.prems obtain r' where "lookup key rs (key n) = Some r'" by fastforce
    with Some Cons show ?thesis by simp
  qed
qed simp

section \<open>\<^verbatim>\<open>DO UPDATE\<close>\<close>

text \<open>
  An upsert is well behaved when its \<^verbatim>\<open>SET\<close> clause does not change the key columns. Every
  \<^verbatim>\<open>ON CONFLICT ... DO UPDATE\<close> of the store is an instance.
\<close>

locale upsert_table =
  fixes key :: "'r \<Rightarrow> 'k" and upd :: "'r \<Rightarrow> 'r \<Rightarrow> 'r"
  assumes key_upd: "key (upd old new) = key old"
begin

lemma lookup_upsert:
  "lookup key (upsert key upd rs new) k =
     (if k = key new
      then Some (case lookup key rs k of None \<Rightarrow> new | Some r \<Rightarrow> upd r new)
      else lookup key rs k)"
  by (induction rs) (auto simp: key_upd)

lemma keys_upsert: "key ` set (upsert key upd rs new) = insert (key new) (key ` set rs)"
  by (induction rs) (auto simp: key_upd)

lemma unique_upsert: "unique_key key rs \<Longrightarrow> unique_key key (upsert key upd rs new)"
proof (induction rs)
  case (Cons r rs)
  have "key r \<notin> key ` set (upsert key upd rs new)" if "key r \<noteq> key new"
    using Cons.prems that by (simp add: keys_upsert unique_key_def)
  with Cons show ?case by (auto simp: unique_key_def key_upd)
qed (simp add: unique_key_def)

lemma filter_upsert_other:
  "(\<And>r. key r = key new \<Longrightarrow> \<not> P r) \<Longrightarrow> filter P (upsert key upd rs new) = filter P rs"
  by (induction rs) (auto simp: key_upd)

lemma upsert_preserves:
  "\<forall>r \<in> set rs. Q r \<Longrightarrow> Q new \<Longrightarrow> (\<And>old. Q old \<Longrightarrow> Q (upd old new)) \<Longrightarrow>
   \<forall>r \<in> set (upsert key upd rs new). Q r"
  by (induction rs) auto

lemma foldl_upsert_preserves:
  assumes "\<And>a b. Q a \<Longrightarrow> Q b \<Longrightarrow> Q (upd a b)" "\<forall>r \<in> set rs. Q r" "\<forall>r \<in> set news. Q r"
  shows "\<forall>r \<in> set (foldl (upsert key upd) rs news). Q r"
  using assms(2,3)
proof (induction news arbitrary: rs)
  case (Cons n news)
  then have "\<forall>r \<in> set (upsert key upd rs n). Q r" by (intro upsert_preserves assms(1)) auto
  with Cons show ?case by simp
qed simp

lemma upsert_absent: "key new \<notin> key ` set rs \<Longrightarrow> upsert key upd rs new = rs @ [new]"
  by (induction rs) auto

lemma upsert_map_keys:
  "distinct ks \<Longrightarrow> (\<And>k. k \<in> set ks \<Longrightarrow> key (g k) = k) \<Longrightarrow> key new \<in> set ks \<Longrightarrow>
   upsert key upd (map g ks) new = map (\<lambda>k. if k = key new then upd (g k) new else g k) ks"
proof (induction ks)
  case (Cons k ks)
  then show ?case by (cases "k = key new") auto
qed simp

lemma unique_foldl_upsert: "unique_key key rs \<Longrightarrow> unique_key key (foldl (upsert key upd) rs news)"
  by (induction news arbitrary: rs) (simp_all add: unique_upsert)

lemma lookup_foldl_upsert:
  "lookup key (foldl (upsert key upd) rs news) k =
     foldl (\<lambda>r n. if key n = k then Some (case r of None \<Rightarrow> n | Some r \<Rightarrow> upd r n) else r)
       (lookup key rs k) news"
  by (induction news arbitrary: rs) (auto simp: lookup_upsert)

lemma lookup_foldl_upsert_distinct:
  assumes "distinct (map key news)"
  shows "lookup key (foldl (upsert key upd) rs news) k =
     (case lookup key news k of
        None \<Rightarrow> lookup key rs k
      | Some n \<Rightarrow> Some (case lookup key rs k of None \<Rightarrow> n | Some r \<Rightarrow> upd r n))"
  using assms
proof (induction news arbitrary: rs)
  case (Cons n news)
  have "lookup key news (key n) = None"
    using Cons.prems by (simp add: lookup_None_iff)
  with Cons show ?case by (auto simp: lookup_upsert split: option.split)
qed simp

end

text \<open>
  When the update clause is moreover an idempotent semigroup, proposed rows can be merged with each
  other before they meet the table: a batch may be folded to one row per key first.
\<close>

locale merge_table = upsert_table +
  assumes upd_assoc: "upd (upd a b) c = upd a (upd b c)"
    and upd_self: "upd a a = a"
begin

lemma upsert_merge: "key a = key b \<Longrightarrow> upsert key upd (upsert key upd rs a) b = upsert key upd rs (upd a b)"
  by (induction rs) (auto simp: key_upd upd_assoc)

lemma upsert_idem: "upsert key upd (upsert key upd rs a) a = upsert key upd rs a"
  by (simp add: upsert_merge upd_self)

lemma upsert_present: "lookup key rs (key e) = Some r \<Longrightarrow> upd r e = r \<Longrightarrow> upsert key upd rs e = rs"
  by (induction rs) (auto split: if_splits)

lemma upsert_commute:
  "key e \<in> key ` set rs \<Longrightarrow> key n \<noteq> key e \<Longrightarrow>
   upsert key upd (upsert key upd rs n) e = upsert key upd (upsert key upd rs e) n"
  by (induction rs) (auto simp: key_upd)

lemma foldl_upsert_commute:
  "key e \<in> key ` set rs \<Longrightarrow> key e \<notin> key ` set news \<Longrightarrow>
   upsert key upd (foldl (upsert key upd) rs news) e = foldl (upsert key upd) (upsert key upd rs e) news"
proof (induction news arbitrary: rs)
  case (Cons n news)
  then have "key e \<in> key ` set (upsert key upd rs n)" by (simp add: keys_upsert)
  moreover have "upsert key upd (upsert key upd rs n) e = upsert key upd (upsert key upd rs e) n"
    using Cons.prems by (intro upsert_commute) auto
  ultimately show ?case using Cons by simp
qed simp

lemma foldl_upsert_upsert:
  "unique_key key news \<Longrightarrow>
   foldl (upsert key upd) rs (upsert key upd news e) = upsert key upd (foldl (upsert key upd) rs news) e"
proof (induction news arbitrary: rs)
  case (Cons n news)
  show ?case
  proof (cases "key n = key e")
    case True
    have "key e \<notin> key ` set news" using Cons.prems True by (simp add: unique_key_def)
    moreover have "key e \<in> key ` set (upsert key upd rs n)" by (simp add: keys_upsert True)
    ultimately show ?thesis using True by (simp add: foldl_upsert_commute upsert_merge)
  next
    case False
    with Cons show ?thesis by (simp add: unique_key_def)
  qed
qed simp

lemma foldl_upsert_present:
  "(\<And>n. n \<in> set news \<Longrightarrow> \<exists>r. lookup key rs (key n) = Some r \<and> upd r n = r) \<Longrightarrow>
   foldl (upsert key upd) rs news = rs"
proof (induction news)
  case (Cons n news)
  then obtain r where "lookup key rs (key n) = Some r" "upd r n = r" by force
  then have "upsert key upd rs n = rs" by (rule upsert_present)
  with Cons show ?case by simp
qed simp

lemma foldl_upsert_replay:
  assumes "distinct (map key news)"
  shows "foldl (upsert key upd) (foldl (upsert key upd) rs news) news = foldl (upsert key upd) rs news"
proof (rule foldl_upsert_present)
  fix n assume "n \<in> set news"
  then have "lookup key news (key n) = Some n"
    using assms by (simp add: lookup_unique unique_key_def)
  then have "lookup key (foldl (upsert key upd) rs news) (key n) =
      Some (case lookup key rs (key n) of None \<Rightarrow> n | Some r \<Rightarrow> upd r n)"
    using assms by (simp add: lookup_foldl_upsert_distinct)
  then show "\<exists>r. lookup key (foldl (upsert key upd) rs news) (key n) = Some r \<and> upd r n = r"
    by (auto simp: upd_assoc upd_self split: option.splits)
qed

lemma foldl_upsert_folded:
  "foldl (upsert key upd) rs (foldl (upsert key upd) [] news) = foldl (upsert key upd) rs news"
  by (induction news rule: rev_induct) (simp_all add: foldl_upsert_upsert unique_foldl_upsert)

lemma foldl_upsert_replay_any:
  "foldl (upsert key upd) (foldl (upsert key upd) rs news) news = foldl (upsert key upd) rs news"
proof -
  let ?N = "foldl (upsert key upd) [] news"
  have "distinct (map key ?N)" using unique_foldl_upsert[of "[]" news] by (simp add: unique_key_def)
  from foldl_upsert_replay[OF this, of rs] show ?thesis by (simp only: foldl_upsert_folded)
qed

end

section \<open>\<^verbatim>\<open>GROUP BY\<close>\<close>

lemma group_by_keys_distinct: "distinct (map fst (group_by key rs))"
  by (simp add: group_by_def comp_def)

lemma map_of_map_pair: "map_of (map (\<lambda>k. (k, F k)) ks) k = (if k \<in> set ks then Some (F k) else None)"
  by (induction ks) auto

lemma group_by_lookup:
  "map_of (group_by key rs) k =
     (if k \<in> key ` set rs then Some (filter (\<lambda>r. key r = k) rs) else None)"
  by (simp add: group_by_def map_of_map_pair)

end
