(* ===== verification/Store.thy ===== *)
theory Store
  imports Sql_Tables "HOL-Library.List_Lexorder" "HOL-Library.Char_ord"
begin

text \<open>
  The analytics database and the operations of \<^verbatim>\<open>internal/store/current_items.go\<close> and
  \<^verbatim>\<open>internal/store/retention.go\<close>. The tables carry the columns that the program writes or reads;
  columns PostgreSQL fills by itself and nothing reads (\<^verbatim>\<open>item_events.id\<close>, \<^verbatim>\<open>received_at\<close>,
  \<^verbatim>\<open>updated_at\<close>) are left out. Every statement of a transaction is one table operation, a failed
  statement rolls the transaction back, and the outcome of \<^verbatim>\<open>COMMIT\<close> may be lost
  (\<^const>\<open>Lost\<close>). The driver's conversion between \<^verbatim>\<open>time.Time\<close> and \<^verbatim>\<open>timestamptz\<close> belongs to pgx
  and is a parameter; \<open>codec_ok\<close> states what the program relies on.

  The second half proves what one operation does: the outcomes of \<open>IngestEvent\<close>, its refinement of
  an abstract last-writer-wins specification on maps, the state \<open>ReconcileSnapshot\<close> leaves, and
  what retention keeps.
\<close>

section \<open>Data\<close>

record pgx =
  pg_enc :: "go_time \<Rightarrow> pg_time"
  pg_dec :: "pg_time \<Rightarrow> go_time"

definition codec_ok :: "pgx \<Rightarrow> bool" where
  "codec_ok P \<longleftrightarrow> mono (pg_enc P) \<and> (\<forall>t. pg_enc P (pg_dec P t) = t)"

text \<open>An instance: truncation to microseconds. The witnesses use it.\<close>

definition pgx_us :: pgx where
  "pgx_us = \<lparr>pg_enc = (\<lambda>t. t div 1000), pg_dec = (\<lambda>t. t * 1000)\<rparr>"

record item_event_row =
  ie_type :: string
  ie_item :: int
  ie_name :: string
  ie_time :: pg_time

record bucket_row =
  b_start :: pg_time
  b_type :: string
  b_count :: int

record current_item_row =
  ci_id :: int
  ci_name :: string
  ci_first :: pg_time
  ci_last :: pg_time
  ci_tomb :: "pg_time option"

record seed_marker_row =
  sm_id :: int
  sm_scale :: real
  sm_ref_unix :: int
  sm_seed :: int
  sm_days :: int
  sm_seeded_at :: pg_time
  sm_events_written :: int

record db =
  item_events :: "item_event_row list"
  event_buckets :: "bucket_row list"
  current_items :: "current_item_row list"
  seed_marker :: "seed_marker_row list"

record CurrentItem =
  it_ItemID :: int
  it_Name :: string
  it_FirstSeen :: go_time
  it_LastSeen :: go_time
  it_Tombstoned :: bool

record SnapshotItem =
  sn_ItemID :: int
  sn_Name :: string

record EventRecord =
  ev_ItemID :: int
  ev_ItemName :: string
  ev_EventType :: string
  ev_EventTime :: go_time

record BucketStat =
  st_EventType :: string
  st_Count :: int

text \<open>The error a store operation returns, by the statement that failed.\<close>

datatype store_error =
    BeginReconcile | UpsertItem int | TombstoneMissing | CommitReconcile
  | BeginIngest | InsertItemEvent | UpsertBucket | UpsertCurrentItem | CommitIngest
  | GetCurrentItemErr int | QueryStats | ScanStats | IterateStats
  | BeginBatch | BatchInsert | BatchUpsertItems | CommitBatch
  | FoldNilPanic | UpsertMarkerErr | GetMarkerErr | DeleteOlder go_time

section \<open>Keys and update clauses\<close>

definition ie_key :: "item_event_row \<Rightarrow> int \<times> string \<times> pg_time" where
  "ie_key r = (ie_item r, ie_type r, ie_time r)"

definition b_key :: "bucket_row \<Rightarrow> pg_time \<times> string" where
  "b_key r = (b_start r, b_type r)"

text \<open>The \<^verbatim>\<open>CHECK (event_type IN (...))\<close> constraint of \<^verbatim>\<open>item_events\<close> and \<^verbatim>\<open>event_buckets\<close>.\<close>

definition event_type_ok :: "string \<Rightarrow> bool" where
  "event_type_ok t \<longleftrightarrow> t \<in> {''created'', ''updated'', ''deleted''}"

text \<open>PostgreSQL has no text value with a zero byte: a parameter that contains one is rejected when it is bound, and with
  it the statement. An event can be stored only if its type passes the check and its name is such a text.\<close>

definition text_ok :: "string \<Rightarrow> bool" where
  "text_ok s \<longleftrightarrow> CHR 0x00 \<notin> set s"

definition event_storable :: "EventRecord \<Rightarrow> bool" where
  "event_storable ev \<longleftrightarrow> event_type_ok (ev_EventType ev) \<and> text_ok (ev_ItemName ev)"

lemmas storable_defs = event_storable_def event_type_ok_def text_ok_def

text \<open>The range of the column type \<^verbatim>\<open>int\<close>. \<^verbatim>\<open>seed_marker.days\<close> is the only such column that receives a (64-bit) Go integer.\<close>

definition int4_ok :: "int \<Rightarrow> bool" where
  "int4_ok i \<longleftrightarrow> - (2 ^ 31) \<le> i \<and> i < 2 ^ 31"

text \<open>\<^verbatim>\<open>date_trunc('hour', t, 'UTC')\<close>\<close>

definition hour_us :: int where
  "hour_us = 3600000000"

definition date_trunc_hour :: "pg_time \<Rightarrow> pg_time" where
  "date_trunc_hour t = t - t mod hour_us"

definition b_add :: "bucket_row \<Rightarrow> bucket_row \<Rightarrow> bucket_row" where
  "b_add old excluded = old\<lparr>b_count := b_count old + b_count excluded\<rparr>"

definition ci_upd_event :: "current_item_row \<Rightarrow> current_item_row \<Rightarrow> current_item_row" where
  "ci_upd_event old excluded = old\<lparr>
     ci_last := max (ci_last old) (ci_last excluded),
     ci_name := (if ci_last excluded \<ge> ci_last old then ci_name excluded else ci_name old),
     ci_tomb := (if ci_last excluded \<ge> ci_last old then ci_tomb excluded else ci_tomb old)\<rparr>"

definition ci_upd_snapshot :: "current_item_row \<Rightarrow> current_item_row \<Rightarrow> current_item_row" where
  "ci_upd_snapshot old excluded = old\<lparr>
     ci_name := ci_name excluded,
     ci_last := max (ci_last old) (ci_last excluded),
     ci_tomb := None\<rparr>"

text \<open>
  The end of a transaction (or a statement outside one): on \<^const>\<open>Lost\<close> the new state is
  committed although the caller gets the error.
\<close>

fun pg_commit :: "outcome \<Rightarrow> store_error \<Rightarrow> 'a \<Rightarrow> 's \<Rightarrow> 's \<Rightarrow> (store_error + 'a) \<times> 's" where
  "pg_commit Done err v old new = (Inr v, new)"
| "pg_commit Failed err v old new = (Inl err, old)"
| "pg_commit Lost err v old new = (Inl err, new)"

section \<open>\<^verbatim>\<open>ReconcileSnapshot\<close>\<close>

definition snapshot_row :: "pgx \<Rightarrow> go_time \<Rightarrow> SnapshotItem \<Rightarrow> current_item_row" where
  "snapshot_row P now it =
     \<lparr>ci_id = sn_ItemID it, ci_name = sn_Name it, ci_first = pg_enc P now, ci_last = pg_enc P now,
      ci_tomb = None\<rparr>"

fun reconcile_upserts ::
  "pgx \<Rightarrow> faults \<Rightarrow> nat \<Rightarrow> go_time \<Rightarrow> SnapshotItem list \<Rightarrow> current_item_row list \<Rightarrow> nat
   \<Rightarrow> store_error + current_item_row list \<times> nat" where
  "reconcile_upserts P f i now [] rows upserted = Inr (rows, upserted)"
| "reconcile_upserts P f i now (it # its) rows upserted =
     (if f i \<noteq> Done \<or> \<not> text_ok (sn_Name it) then Inl (UpsertItem (sn_ItemID it))
      else reconcile_upserts P f (Suc i) now its
             (upsert ci_id ci_upd_snapshot rows (snapshot_row P now it)) (upserted + 1))"

definition ReconcileSnapshot ::
  "pgx \<Rightarrow> faults \<Rightarrow> SnapshotItem list \<Rightarrow> go_time \<Rightarrow> db \<Rightarrow> (store_error + nat \<times> nat) \<times> db" where
  "ReconcileSnapshot P f items now db =
     (if f 0 \<noteq> Done then (Inl BeginReconcile, db)
      else case reconcile_upserts P f 1 now items (current_items db) 0 of
        Inl e \<Rightarrow> (Inl e, db)
      | Inr (rows, upserted) \<Rightarrow>
          (let ids = map sn_ItemID items in
           if f (Suc (length items)) \<noteq> Done then (Inl TombstoneMissing, db)
           else let (rows', tombstoned) =
                  update_where (\<lambda>r. ci_tomb r = None \<and> ci_id r \<notin> set ids)
                    (\<lambda>r. r\<lparr>ci_tomb := Some (pg_enc P now)\<rparr>) rows
                in pg_commit (f (Suc (Suc (length items)))) CommitReconcile (upserted, tombstoned)
                     db (db\<lparr>current_items := rows'\<rparr>)))"

section \<open>\<^verbatim>\<open>IngestEvent\<close>\<close>

definition event_row :: "pgx \<Rightarrow> EventRecord \<Rightarrow> item_event_row" where
  "event_row P ev =
     \<lparr>ie_type = ev_EventType ev, ie_item = ev_ItemID ev, ie_name = ev_ItemName ev,
      ie_time = pg_enc P (ev_EventTime ev)\<rparr>"

definition event_bucket :: "pgx \<Rightarrow> EventRecord \<Rightarrow> bucket_row" where
  "event_bucket P ev =
     \<lparr>b_start = date_trunc_hour (pg_enc P (ev_EventTime ev)), b_type = ev_EventType ev, b_count = 1\<rparr>"

definition event_item :: "pgx \<Rightarrow> EventRecord \<Rightarrow> current_item_row" where
  "event_item P ev =
     (let t = pg_enc P (ev_EventTime ev);
          tombstonedAt = (if ev_EventType ev = ''deleted'' then Some t else None)
      in \<lparr>ci_id = ev_ItemID ev, ci_name = ev_ItemName ev, ci_first = t, ci_last = t,
          ci_tomb = tombstonedAt\<rparr>)"

definition IngestEvent :: "pgx \<Rightarrow> faults \<Rightarrow> EventRecord \<Rightarrow> db \<Rightarrow> (store_error + bool) \<times> db" where
  "IngestEvent P f ev db =
     (if f 0 \<noteq> Done then (Inl BeginIngest, db)
      else if f 1 \<noteq> Done \<or> \<not> event_storable ev then (Inl InsertItemEvent, db)
      else let (events, affected) = insert_do_nothing ie_key (item_events db) (event_row P ev);
               inserted = (affected = 1) in
           if inserted \<and> f 2 \<noteq> Done then (Inl UpsertBucket, db)
           else let buckets = (if inserted
                    then upsert b_key b_add (event_buckets db) (event_bucket P ev)
                    else event_buckets db) in
                if f 3 \<noteq> Done then (Inl UpsertCurrentItem, db)
                else let items = upsert ci_id ci_upd_event (current_items db) (event_item P ev) in
                     pg_commit (f 4) CommitIngest inserted db
                       (db\<lparr>item_events := events, event_buckets := buckets, current_items := items\<rparr>))"

section \<open>\<^verbatim>\<open>GetCurrentItem\<close>, \<^verbatim>\<open>StatsLast24h\<close>, \<^verbatim>\<open>DeleteEventsOlderThan\<close>\<close>

definition GetCurrentItem :: "pgx \<Rightarrow> faults \<Rightarrow> int \<Rightarrow> db \<Rightarrow> store_error + CurrentItem option" where
  "GetCurrentItem P f itemID db =
     (if f 0 \<noteq> Done then Inl (GetCurrentItemErr itemID)
      else case lookup ci_id (current_items db) itemID of
        None \<Rightarrow> Inr None
      | Some r \<Rightarrow> Inr (Some \<lparr>it_ItemID = ci_id r, it_Name = ci_name r,
                   it_FirstSeen = pg_dec P (ci_first r), it_LastSeen = pg_dec P (ci_last r),
                   it_Tombstoned = (ci_tomb r \<noteq> None)\<rparr>))"

text \<open>The rows of the \<^verbatim>\<open>SELECT event_type, COALESCE(SUM(count), 0) ...\<close>, ordered by type.\<close>

definition stats_rows :: "pg_time \<Rightarrow> bucket_row list \<Rightarrow> BucketStat list" where
  "stats_rows now bs =
     (let recent = filter (\<lambda>b. b_start b \<ge> now - 24 * hour_us) bs
      in map (\<lambda>(t, rs). \<lparr>st_EventType = t, st_Count = (\<Sum>r\<leftarrow>rs. b_count r)\<rparr>)
           (sort_key fst (group_by b_type recent)))"

fun scan_rows :: "faults \<Rightarrow> nat \<Rightarrow> BucketStat list \<Rightarrow> store_error + BucketStat list" where
  "scan_rows f i [] = Inr []"
| "scan_rows f i (r # rs) =
     (if f i \<noteq> Done then Inl ScanStats
      else case scan_rows f (Suc i) rs of Inl e \<Rightarrow> Inl e | Inr out \<Rightarrow> Inr (r # out))"

definition StatsLast24h :: "faults \<Rightarrow> pg_time \<Rightarrow> db \<Rightarrow> store_error + BucketStat list" where
  "StatsLast24h f now db =
     (if f 0 \<noteq> Done then Inl QueryStats
      else case scan_rows f 2 (stats_rows now (event_buckets db)) of
        Inl e \<Rightarrow> Inl e
      | Inr stats \<Rightarrow> if f 1 \<noteq> Done then Inl IterateStats else Inr stats)"

definition DeleteEventsOlderThan :: "pgx \<Rightarrow> faults \<Rightarrow> go_time \<Rightarrow> db \<Rightarrow> (store_error + nat) \<times> db" where
  "DeleteEventsOlderThan P f cutoff db =
     (let (events, deleted) = delete_where (\<lambda>r. ie_time r < pg_enc P cutoff) (item_events db)
      in pg_commit (f 0) (DeleteOlder cutoff) deleted db (db\<lparr>item_events := events\<rparr>))"

section \<open>Interfaces: the update clauses are table merges\<close>

interpretation buckets: upsert_table b_key b_add
  by unfold_locales (simp add: b_key_def b_add_def)

interpretation items_snap: upsert_table ci_id ci_upd_snapshot
  by unfold_locales (simp add: ci_upd_snapshot_def)

lemma ci_upd_event_assoc: "ci_upd_event (ci_upd_event a b) c = ci_upd_event a (ci_upd_event b c)"
  by (auto simp: ci_upd_event_def max_def)

interpretation items_ev: merge_table ci_id ci_upd_event
  by unfold_locales (simp_all add: ci_upd_event_assoc, simp_all add: ci_upd_event_def)

lemma pgx_us_sel [simp]: "pg_enc pgx_us t = t div 1000" "pg_dec pgx_us t = t * 1000"
  by (simp_all add: pgx_us_def)

lemma codec_ok_us: "codec_ok pgx_us"
  by (simp add: codec_ok_def mono_def zdiv_mono1)

section \<open>What one ingested event does\<close>

definition event_key :: "pgx \<Rightarrow> EventRecord \<Rightarrow> int \<times> string \<times> pg_time" where
  "event_key P ev = ie_key (event_row P ev)"

definition event_fresh :: "pgx \<Rightarrow> EventRecord \<Rightarrow> db \<Rightarrow> bool" where
  "event_fresh P ev db \<longleftrightarrow> lookup ie_key (item_events db) (event_key P ev) = None"

definition event_effect :: "pgx \<Rightarrow> EventRecord \<Rightarrow> db \<Rightarrow> db" where
  "event_effect P ev db = db\<lparr>
     item_events := (if event_fresh P ev db then item_events db @ [event_row P ev] else item_events db),
     event_buckets := (if event_fresh P ev db
        then upsert b_key b_add (event_buckets db) (event_bucket P ev) else event_buckets db),
     current_items := upsert ci_id ci_upd_event (current_items db) (event_item P ev)\<rparr>"

lemma pg_commit_cases:
  "pg_commit oc err v old new = (r, s) \<Longrightarrow>
   (oc = Done \<and> r = Inr v \<and> s = new) \<or> (oc = Failed \<and> r = Inl err \<and> s = old) \<or>
   (oc = Lost \<and> r = Inl err \<and> s = new)"
  by (cases oc) auto

lemma IngestEvent_unfold:
  "IngestEvent P f ev db =
     (if f 0 \<noteq> Done then (Inl BeginIngest, db)
      else if f 1 \<noteq> Done \<or> \<not> event_storable ev then (Inl InsertItemEvent, db)
      else if event_fresh P ev db \<and> f 2 \<noteq> Done then (Inl UpsertBucket, db)
      else if f 3 \<noteq> Done then (Inl UpsertCurrentItem, db)
      else pg_commit (f 4) CommitIngest (event_fresh P ev db) db (event_effect P ev db))"
  by (cases "lookup ie_key (item_events db) (ie_key (event_row P ev))")
    (simp_all add: IngestEvent_def insert_do_nothing_cases event_effect_def event_fresh_def event_key_def)

lemma IngestEvent_cases:
  assumes "IngestEvent P f ev db = (r, db')"
  obtains (err) e where "r = Inl e" "db' = db"
  | (lost) "f 4 = Lost" "r = Inl CommitIngest" "event_storable ev"
      "db' = event_effect P ev db"
  | (ok) "r = Inr (event_fresh P ev db)" "event_storable ev"
      "db' = event_effect P ev db"
proof -
  consider e where "r = Inl e" "db' = db"
    | "event_storable ev"
      "pg_commit (f 4) CommitIngest (event_fresh P ev db) db (event_effect P ev db) = (r, db')"
    using assms unfolding IngestEvent_unfold by (auto split: if_splits)
  then show ?thesis
  proof cases
    case 2
    from pg_commit_cases[OF 2(2)] 2(1) show ?thesis using err lost ok by auto
  qed (rule err)
qed

lemma IngestEvent_no_faults:
  "event_storable ev \<Longrightarrow>
   IngestEvent P no_faults ev db = (Inr (event_fresh P ev db), event_effect P ev db)"
  by (simp add: IngestEvent_unfold)

lemma item_events_effect:
  "item_events (event_effect P ev db) = fst (insert_do_nothing ie_key (item_events db) (event_row P ev))"
  by (simp add: event_effect_def event_fresh_def event_key_def insert_do_nothing_cases)

lemma not_fresh_effect: "\<not> event_fresh P ev (event_effect P ev db)"
  by (simp add: event_fresh_def event_key_def item_events_effect lookup_insert_do_nothing split: option.splits)

lemma current_items_effect [simp]:
  "current_items (event_effect P ev db) = upsert ci_id ci_upd_event (current_items db) (event_item P ev)"
  by (simp add: event_effect_def)

lemma seed_marker_effect [simp]: "seed_marker (event_effect P ev db) = seed_marker db"
  by (simp add: event_effect_def)

lemma event_effect_idem: "event_effect P ev (event_effect P ev db) = event_effect P ev db"
proof -
  have "event_effect P ev db' = db'\<lparr>current_items :=
      upsert ci_id ci_upd_event (current_items db') (event_item P ev)\<rparr>"
    if "\<not> event_fresh P ev db'" for db'
    using that by (simp add: event_effect_def)
  from this[OF not_fresh_effect] show ?thesis
    by (simp add: items_ev.upsert_idem event_effect_def)
qed

section \<open>Abstract specification: maps, last writer wins\<close>

text \<open>
  The contract of the ingestion path, without tables: a set of known events, one counter per hour
  and event type, and the current state per item. Delivering an event adds it to the known events,
  counts it exactly when it was not known, and lets it decide the item's name and tombstone
  exactly when no event with a later time has done so.
\<close>

record astore =
  a_events :: "int \<times> string \<times> pg_time \<Rightarrow> string option"
  a_buckets :: "pg_time \<times> string \<Rightarrow> int"
  a_items :: "int \<Rightarrow> current_item_row option"

definition bucket_count :: "bucket_row list \<Rightarrow> pg_time \<times> string \<Rightarrow> int" where
  "bucket_count bs k = (case lookup b_key bs k of None \<Rightarrow> 0 | Some b \<Rightarrow> b_count b)"

definition abs_db :: "db \<Rightarrow> astore" where
  "abs_db db = \<lparr>a_events = (\<lambda>k. map_option ie_name (lookup ie_key (item_events db) k)),
     a_buckets = bucket_count (event_buckets db),
     a_items = lookup ci_id (current_items db)\<rparr>"

definition a_deliver :: "pgx \<Rightarrow> EventRecord \<Rightarrow> astore \<Rightarrow> astore" where
  "a_deliver P ev s =
     (let t = pg_enc P (ev_EventTime ev); ty = ev_EventType ev; i = ev_ItemID ev;
          known = (a_events s (i, ty, t) \<noteq> None);
          tomb = (if ty = ''deleted'' then Some t else None)
      in s\<lparr>a_events := (if known then a_events s else (a_events s)((i, ty, t) := Some (ev_ItemName ev))),
           a_buckets := (if known then a_buckets s
              else (a_buckets s)((date_trunc_hour t, ty) := a_buckets s (date_trunc_hour t, ty) + 1)),
           a_items := (a_items s)(i := Some (case a_items s i of
                None \<Rightarrow> \<lparr>ci_id = i, ci_name = ev_ItemName ev, ci_first = t, ci_last = t, ci_tomb = tomb\<rparr>
              | Some r \<Rightarrow> if ci_last r \<le> t
                  then r\<lparr>ci_name := ev_ItemName ev, ci_last := t, ci_tomb := tomb\<rparr> else r))\<rparr>)"

lemma bucket_count_upsert:
  "bucket_count (upsert b_key b_add bs b) k = bucket_count bs k + (if k = b_key b then b_count b else 0)"
  by (auto simp: bucket_count_def buckets.lookup_upsert b_add_def split: option.splits)

lemma event_item_sel [simp]:
  "ci_id (event_item P ev) = ev_ItemID ev"
  "ci_name (event_item P ev) = ev_ItemName ev"
  "ci_first (event_item P ev) = pg_enc P (ev_EventTime ev)"
  "ci_last (event_item P ev) = pg_enc P (ev_EventTime ev)"
  "ci_tomb (event_item P ev) = (if ev_EventType ev = ''deleted'' then Some (pg_enc P (ev_EventTime ev)) else None)"
  by (simp_all add: event_item_def Let_def)

lemma event_key_eq: "event_key P ev = (ev_ItemID ev, ev_EventType ev, pg_enc P (ev_EventTime ev))"
  by (simp add: event_key_def ie_key_def event_row_def)

lemma a_events_fresh:
  "a_events (abs_db db) (ev_ItemID ev, ev_EventType ev, pg_enc P (ev_EventTime ev)) = None \<longleftrightarrow>
   event_fresh P ev db"
  by (simp add: abs_db_def event_fresh_def event_key_eq)

lemma abs_event_effect: "abs_db (event_effect P ev db) = a_deliver P ev (abs_db db)"
proof -
  note key = event_key_eq and known = a_events_fresh[of db ev P]
  have 1: "a_events (abs_db (event_effect P ev db)) = a_events (a_deliver P ev (abs_db db))"
    using known by (auto simp: a_deliver_def Let_def abs_db_def item_events_effect event_fresh_def key
        event_row_def ie_key_def lookup_insert_do_nothing fun_eq_iff split: option.splits)
  have 2: "a_buckets (abs_db (event_effect P ev db)) = a_buckets (a_deliver P ev (abs_db db))"
    using known by (auto simp: a_deliver_def Let_def abs_db_def event_effect_def key
        bucket_count_upsert event_bucket_def b_key_def fun_eq_iff)
  have 3: "a_items (abs_db (event_effect P ev db)) = a_items (a_deliver P ev (abs_db db))"
    by (auto simp: a_deliver_def Let_def abs_db_def items_ev.lookup_upsert event_item_def ci_upd_event_def
        max_def fun_eq_iff split: option.splits)
  from 1 2 3 show ?thesis by (simp add: astore.equality)
qed

text \<open>C1: IngestEvent implements the abstract delivery whatever the database does: on success the new
  tables are the abstract delivery of the event and the returned flag says whether the raw event was
  new; on an error the tables are unchanged, except when the acknowledgement of the commit is lost,
  and then they are again exactly the abstract delivery (never a part of it). An error has a reason: one of the five
  calls failed, or the event has a type or a name that the table cannot hold, and such an event never succeeds and
  never changes anything.\<close>
theorem IngestEvent_refines:
  "case IngestEvent P f ev db of
     (Inr inserted, db') \<Rightarrow>
        event_storable ev \<and> abs_db db' = a_deliver P ev (abs_db db) \<and>
        (inserted \<longleftrightarrow> a_events (abs_db db) (ev_ItemID ev, ev_EventType ev, pg_enc P (ev_EventTime ev)) = None)
   | (Inl e, db') \<Rightarrow>
        (event_storable ev \<longrightarrow> (\<exists>n \<le> 4. f n \<noteq> Done)) \<and>
        (db' = db \<or> (e = CommitIngest \<and> f 4 = Lost \<and> event_storable ev \<and> abs_db db' = a_deliver P ev (abs_db db)))"
proof -
  obtain r db' where eq: "IngestEvent P f ev db = (r, db')" by fastforce
  have "\<exists>n \<le> 4. f n \<noteq> Done" if "r = Inl e" "event_storable ev" for e
  proof (rule ccontr)
    assume "\<not> ?thesis"
    then have "f 0 = Done" "f 1 = Done" "f 2 = Done" "f 3 = Done" "f 4 = Done" by auto
    with that eq show False by (simp add: IngestEvent_unfold)
  qed
  then show ?thesis
    by (cases rule: IngestEvent_cases[OF eq]) (auto simp: eq abs_event_effect a_events_fresh)
qed

theorem IngestEvent_refines_witness:
  "\<exists>e db'. IngestEvent pgx_us (\<lambda>n. if n = 3 then Failed else Done)
      \<lparr>ev_ItemID = 7, ev_ItemName = ''lamp'', ev_EventType = ''created'', ev_EventTime = 0\<rparr>
      \<lparr>item_events = [], event_buckets = [], current_items = [], seed_marker = []\<rparr> = (Inl e, db')
    \<and> db' = \<lparr>item_events = [], event_buckets = [], current_items = [], seed_marker = []\<rparr>"
proof -
  let ?ev = "\<lparr>ev_ItemID = 7, ev_ItemName = ''lamp'', ev_EventType = ''created'', ev_EventTime = 0\<rparr>"
  let ?f = "\<lambda>n::nat. if n = 3 then Failed else Done"
  let ?db = "\<lparr>item_events = [], event_buckets = [], current_items = [], seed_marker = []\<rparr>"
  obtain db' where run: "IngestEvent pgx_us ?f ?ev ?db = (Inl UpsertCurrentItem, db')"
    by (simp add: IngestEvent_unfold event_storable_def event_type_ok_def text_ok_def)
  from IngestEvent_refines[where P = pgx_us and f = ?f and ev = ?ev and db = ?db] run show ?thesis by simp
qed

section \<open>The state a snapshot reconcile leaves\<close>

lemma snapshot_row_sel [simp]:
  "ci_id (snapshot_row P now it) = sn_ItemID it" "ci_name (snapshot_row P now it) = sn_Name it"
  "ci_first (snapshot_row P now it) = pg_enc P now" "ci_last (snapshot_row P now it) = pg_enc P now"
  "ci_tomb (snapshot_row P now it) = None"
  by (simp_all add: snapshot_row_def)

lemma ci_upd_snapshot_sel [simp]:
  "ci_id (ci_upd_snapshot a b) = ci_id a" "ci_name (ci_upd_snapshot a b) = ci_name b"
  "ci_first (ci_upd_snapshot a b) = ci_first a" "ci_last (ci_upd_snapshot a b) = max (ci_last a) (ci_last b)"
  "ci_tomb (ci_upd_snapshot a b) = None"
  by (simp_all add: ci_upd_snapshot_def)

lemma reconcile_upserts_Inr:
  "reconcile_upserts P f i now its rows n = Inr (rows', n') \<Longrightarrow>
   rows' = foldl (upsert ci_id ci_upd_snapshot) rows (map (snapshot_row P now) its) \<and> n' = n + length its
   \<and> (\<forall>it \<in> set its. text_ok (sn_Name it))"
  by (induction its arbitrary: i rows n) (fastforce split: if_splits)+

lemma reconcile_upserts_no_faults:
  "\<forall>it \<in> set its. text_ok (sn_Name it) \<Longrightarrow> reconcile_upserts P no_faults i now its rows n =
     Inr (foldl (upsert ci_id ci_upd_snapshot) rows (map (snapshot_row P now) its), n + length its)"
  by (induction its arbitrary: i rows n) auto

definition reconcile_effect :: "pgx \<Rightarrow> SnapshotItem list \<Rightarrow> go_time \<Rightarrow> db \<Rightarrow> db" where
  "reconcile_effect P items now db =
     db\<lparr>current_items :=
       map (\<lambda>r. if ci_tomb r = None \<and> ci_id r \<notin> sn_ItemID ` set items
                then r\<lparr>ci_tomb := Some (pg_enc P now)\<rparr> else r)
         (foldl (upsert ci_id ci_upd_snapshot) (current_items db) (map (snapshot_row P now) items))\<rparr>"

lemma filter_foldl_snapshot:
  "(\<And>r. P' r \<Longrightarrow> ci_id r \<notin> ci_id ` set news) \<Longrightarrow>
   filter P' (foldl (upsert ci_id ci_upd_snapshot) rows news) = filter P' rows"
proof (induction news arbitrary: rows)
  case (Cons n news)
  have "filter P' (upsert ci_id ci_upd_snapshot rows n) = filter P' rows"
    by (rule items_snap.filter_upsert_other) (use Cons.prems in auto)
  with Cons show ?case by simp
qed simp

lemma ReconcileSnapshot_cases:
  assumes "ReconcileSnapshot P f items now db = (r, db')"
  obtains (err) e where "r = Inl e" "db' = db"
  | (lost) "r = Inl CommitReconcile" "db' = reconcile_effect P items now db"
      "f (Suc (Suc (length items))) = Lost" "\<forall>it \<in> set items. text_ok (sn_Name it)"
  | (ok) "r = Inr (length items,
        length (filter (\<lambda>c. ci_tomb c = None \<and> ci_id c \<notin> sn_ItemID ` set items) (current_items db)))"
      "db' = reconcile_effect P items now db" "\<forall>it \<in> set items. text_ok (sn_Name it)"
proof -
  let ?n = "length (filter (\<lambda>c. ci_tomb c = None \<and> ci_id c \<notin> sn_ItemID ` set items) (current_items db))"
  consider e where "r = Inl e" "db' = db"
    | rows n where "reconcile_upserts P f 1 now items (current_items db) 0 = Inr (rows, n)"
      "pg_commit (f (Suc (Suc (length items)))) CommitReconcile
         (n, snd (update_where (\<lambda>r. ci_tomb r = None \<and> ci_id r \<notin> set (map sn_ItemID items))
              (\<lambda>r. r\<lparr>ci_tomb := Some (pg_enc P now)\<rparr>) rows)) db
         (db\<lparr>current_items := fst (update_where (\<lambda>r. ci_tomb r = None \<and> ci_id r \<notin> set (map sn_ItemID items))
              (\<lambda>r. r\<lparr>ci_tomb := Some (pg_enc P now)\<rparr>) rows)\<rparr>) = (r, db')"
    using assms
    by (auto simp: ReconcileSnapshot_def Let_def case_prod_beta split: if_splits sum.splits prod.splits)
  then show ?thesis
  proof cases
    case 2
    have eqs: "rows = foldl (upsert ci_id ci_upd_snapshot) (current_items db) (map (snapshot_row P now) items)"
      "n = length items" and names: "\<forall>it \<in> set items. text_ok (sn_Name it)"
      using reconcile_upserts_Inr[OF 2(1)] by simp_all
    have cnt: "length (filter (\<lambda>c. ci_tomb c = None \<and> ci_id c \<notin> sn_ItemID ` set items) rows) = ?n"
      unfolding eqs by (subst filter_foldl_snapshot) (auto simp: image_image)
    have "pg_commit (f (Suc (Suc (length items)))) CommitReconcile (length items, ?n) db
            (reconcile_effect P items now db) = (r, db')"
      using 2(2) cnt by (simp add: update_where_def reconcile_effect_def eqs)
    from pg_commit_cases[OF this] names show ?thesis using err lost ok by auto
  qed (rule err)
qed

lemma lookup_foldl_snapshot_other:
  "k \<notin> sn_ItemID ` set items \<Longrightarrow>
   lookup ci_id (foldl (upsert ci_id ci_upd_snapshot) rows (map (snapshot_row P now) items)) k =
   lookup ci_id rows k"
  by (induction items arbitrary: rows) (auto simp: items_snap.lookup_upsert)

lemma lookup_foldl_snapshot_in:
  assumes "k \<in> sn_ItemID ` set items"
  shows "\<exists>r it. lookup ci_id (foldl (upsert ci_id ci_upd_snapshot) rows (map (snapshot_row P now) items)) k = Some r
     \<and> it \<in> set items \<and> sn_ItemID it = k \<and> ci_name r = sn_Name it \<and> ci_tomb r = None
     \<and> ci_last r = (case lookup ci_id rows k of None \<Rightarrow> pg_enc P now | Some o' \<Rightarrow> max (ci_last o') (pg_enc P now))
     \<and> ci_first r = (case lookup ci_id rows k of None \<Rightarrow> pg_enc P now | Some o' \<Rightarrow> ci_first o')"
  using assms
proof (induction items rule: rev_induct)
  case (snoc it items)
  let ?R = "foldl (upsert ci_id ci_upd_snapshot) rows (map (snapshot_row P now) items)"
  show ?case
  proof (cases "sn_ItemID it = k")
    case True
    have "lookup ci_id ?R k = lookup ci_id rows k \<or>
      (\<exists>r. lookup ci_id ?R k = Some r
        \<and> ci_last r = (case lookup ci_id rows k of None \<Rightarrow> pg_enc P now | Some o' \<Rightarrow> max (ci_last o') (pg_enc P now))
        \<and> ci_first r = (case lookup ci_id rows k of None \<Rightarrow> pg_enc P now | Some o' \<Rightarrow> ci_first o'))"
      using snoc.IH lookup_foldl_snapshot_other by (cases "k \<in> sn_ItemID ` set items") fastforce+
    with True show ?thesis
      by (auto simp: items_snap.lookup_upsert split: option.splits)
  next
    case False
    with snoc show ?thesis by (auto simp: items_snap.lookup_upsert)
  qed
qed simp

lemma lookup_reconcile_effect:
  "lookup ci_id (current_items (reconcile_effect P items now db)) k =
     map_option (\<lambda>r. if ci_tomb r = None \<and> ci_id r \<notin> sn_ItemID ` set items
                     then r\<lparr>ci_tomb := Some (pg_enc P now)\<rparr> else r)
       (lookup ci_id (foldl (upsert ci_id ci_upd_snapshot) (current_items db)
          (map (snapshot_row P now) items)) k)"
  by (simp add: reconcile_effect_def lookup_map)

lemma reconcile_effect_other:
  assumes "k \<notin> sn_ItemID ` set items"
  shows "lookup ci_id (current_items (reconcile_effect P items now db)) k =
     map_option (\<lambda>r. if ci_tomb r = None then r\<lparr>ci_tomb := Some (pg_enc P now)\<rparr> else r)
       (lookup ci_id (current_items db) k)"
proof -
  have "ci_id r = k" if "lookup ci_id (current_items db) k = Some r" for r
    using lookup_SomeD[OF that] by simp
  with assms show ?thesis
    by (cases "lookup ci_id (current_items db) k")
      (auto simp: lookup_reconcile_effect lookup_foldl_snapshot_other)
qed

lemma reconcile_effect_in:
  assumes "k \<in> sn_ItemID ` set items"
  obtains r it where "lookup ci_id (current_items (reconcile_effect P items now db)) k = Some r"
    "it \<in> set items" "sn_ItemID it = k" "ci_name r = sn_Name it" "ci_tomb r = None"
    "ci_last r = (case lookup ci_id (current_items db) k of None \<Rightarrow> pg_enc P now
                  | Some o' \<Rightarrow> max (ci_last o') (pg_enc P now))"
    "ci_first r = (case lookup ci_id (current_items db) k of None \<Rightarrow> pg_enc P now | Some o' \<Rightarrow> ci_first o')"
proof -
  obtain r it where r: "lookup ci_id (foldl (upsert ci_id ci_upd_snapshot) (current_items db)
        (map (snapshot_row P now) items)) k = Some r" "it \<in> set items" "sn_ItemID it = k"
    "ci_name r = sn_Name it" "ci_tomb r = None"
    "ci_last r = (case lookup ci_id (current_items db) k of None \<Rightarrow> pg_enc P now
                  | Some o' \<Rightarrow> max (ci_last o') (pg_enc P now))"
    "ci_first r = (case lookup ci_id (current_items db) k of None \<Rightarrow> pg_enc P now | Some o' \<Rightarrow> ci_first o')"
    using lookup_foldl_snapshot_in[OF assms] by blast
  have "ci_id r = k" using lookup_SomeD[OF r(1)] by simp
  with r assms have "lookup ci_id (current_items (reconcile_effect P items now db)) k = Some r"
    by (simp add: lookup_reconcile_effect)
  with r show ?thesis using that by blast
qed

lemma reconcile_effect_frame [simp]:
  "item_events (reconcile_effect P items now db) = item_events db"
  "event_buckets (reconcile_effect P items now db) = event_buckets db"
  "seed_marker (reconcile_effect P items now db) = seed_marker db"
  by (simp_all add: reconcile_effect_def)

text \<open>C20: a snapshot reconcile that succeeds recovers exactly the upstream state: the live (known and
  not tombstoned) items are those of the snapshot, each under a name the snapshot gives it; every
  other known item stays known and is tombstoned (keeping an earlier tombstone time); the counts it
  returns are the snapshot's length and the number of live items that disappeared; and it adds
  nothing to the raw events, the hourly buckets or the seed marker.\<close>
theorem ReconcileSnapshot_recovers_state:
  assumes "ReconcileSnapshot P f items now db = (Inr (upserted, tombstoned), db')"
  shows "(\<forall>k. (\<exists>r. lookup ci_id (current_items db') k = Some r \<and> ci_tomb r = None) \<longleftrightarrow> k \<in> sn_ItemID ` set items)
    \<and> (\<forall>k r. lookup ci_id (current_items db') k = Some r \<and> ci_tomb r = None \<longrightarrow>
          (\<exists>it \<in> set items. sn_ItemID it = k \<and> sn_Name it = ci_name r))
    \<and> (\<forall>k. k \<notin> sn_ItemID ` set items \<longrightarrow>
          lookup ci_id (current_items db') k =
            map_option (\<lambda>r. if ci_tomb r = None then r\<lparr>ci_tomb := Some (pg_enc P now)\<rparr> else r)
              (lookup ci_id (current_items db) k))
    \<and> upserted = length items
    \<and> tombstoned = length (filter (\<lambda>c. ci_tomb c = None \<and> ci_id c \<notin> sn_ItemID ` set items) (current_items db))
    \<and> item_events db' = item_events db \<and> event_buckets db' = event_buckets db
    \<and> seed_marker db' = seed_marker db"
proof -
  have db': "db' = reconcile_effect P items now db" and cnt: "upserted = length items"
      "tombstoned = length (filter (\<lambda>c. ci_tomb c = None \<and> ci_id c \<notin> sn_ItemID ` set items) (current_items db))"
    using assms by (auto elim!: ReconcileSnapshot_cases)
  have live: "\<exists>r it. lookup ci_id (current_items db') k = Some r \<and> ci_tomb r = None \<and>
      it \<in> set items \<and> sn_ItemID it = k \<and> sn_Name it = ci_name r" if "k \<in> sn_ItemID ` set items" for k
    unfolding db' using that
    by (rule reconcile_effect_in[where P = P and now = now and db = db]) fastforce
  have gone: "\<not> (\<exists>r. lookup ci_id (current_items db') k = Some r \<and> ci_tomb r = None)"
    if "k \<notin> sn_ItemID ` set items" for k
    using that by (auto simp: db' reconcile_effect_other split: if_splits)
  have "(\<exists>r. lookup ci_id (current_items db') k = Some r \<and> ci_tomb r = None) \<longleftrightarrow> k \<in> sn_ItemID ` set items" for k
    using live gone by blast
  moreover have "\<exists>it \<in> set items. sn_ItemID it = k \<and> sn_Name it = ci_name r"
    if "lookup ci_id (current_items db') k = Some r" "ci_tomb r = None" for k r
    using live[of k] gone[of k] that by fastforce
  ultimately show ?thesis
    using cnt by (auto simp: db' reconcile_effect_other)
qed

theorem ReconcileSnapshot_recovers_state_witness:
  "\<exists>db db'. ReconcileSnapshot pgx_us no_faults [\<lparr>sn_ItemID = 2, sn_Name = ''gadget''\<rparr>] 5000 db = (Inr (1, 1), db')
     \<and> lookup ci_id (current_items db) 1 = Some \<lparr>ci_id = 1, ci_name = ''widget'', ci_first = 3, ci_last = 3, ci_tomb = None\<rparr>
     \<and> (\<forall>k. (\<exists>r. lookup ci_id (current_items db') k = Some r \<and> ci_tomb r = None) \<longleftrightarrow> k = 2)"
proof -
  define w :: current_item_row where "w = \<lparr>ci_id = 1, ci_name = ''widget'', ci_first = 3, ci_last = 3, ci_tomb = None\<rparr>"
  define db where "db = \<lparr>item_events = [], event_buckets = [], current_items = [w], seed_marker = []\<rparr>"
  let ?r = "ReconcileSnapshot pgx_us no_faults [\<lparr>sn_ItemID = 2, sn_Name = ''gadget''\<rparr>] 5000 db"
  have run: "?r = (Inr (1, 1), snd ?r)"
    by (simp add: ReconcileSnapshot_def db_def w_def update_where_def text_ok_def)
  from ReconcileSnapshot_recovers_state[OF run] run
  show ?thesis by (intro exI[of _ db] exI[of _ "snd ?r"]) (simp add: db_def w_def)
qed

section \<open>Well-formed databases\<close>

text \<open>What the schema's constraints and the write paths keep true of the tables.\<close>

definition db_wf :: "db \<Rightarrow> bool" where
  "db_wf db \<longleftrightarrow>
     unique_key ie_key (item_events db) \<and> unique_key b_key (event_buckets db) \<and>
     unique_key ci_id (current_items db) \<and> unique_key sm_id (seed_marker db) \<and>
     (\<forall>r \<in> set (item_events db). event_type_ok (ie_type r)) \<and>
     (\<forall>b \<in> set (event_buckets db). event_type_ok (b_type b) \<and> b_start b mod hour_us = 0 \<and> 1 \<le> b_count b) \<and>
     (\<forall>c \<in> set (current_items db). ci_first c \<le> ci_last c) \<and>
     (\<forall>m \<in> set (seed_marker db). sm_id m = 1)"

definition empty_db :: db where
  "empty_db = \<lparr>item_events = [], event_buckets = [], current_items = [], seed_marker = []\<rparr>"

lemma db_wf_empty: "db_wf empty_db"
  by (simp add: db_wf_def empty_db_def)

lemma date_trunc_hour_aligned [simp]: "date_trunc_hour t mod hour_us = 0"
  by (simp add: date_trunc_hour_def mod_diff_right_eq hour_us_def minus_mod_eq_mult_div)

lemma ci_upd_event_sel [simp]:
  "ci_id (ci_upd_event a b) = ci_id a" "ci_first (ci_upd_event a b) = ci_first a"
  "ci_last (ci_upd_event a b) = max (ci_last a) (ci_last b)"
  by (simp_all add: ci_upd_event_def)

lemma b_add_sel [simp]:
  "b_start (b_add a b) = b_start a" "b_type (b_add a b) = b_type a" "b_count (b_add a b) = b_count a + b_count b"
  by (simp_all add: b_add_def)

lemma event_row_sel [simp]:
  "ie_type (event_row P ev) = ev_EventType ev" "ie_item (event_row P ev) = ev_ItemID ev"
  "ie_name (event_row P ev) = ev_ItemName ev" "ie_time (event_row P ev) = pg_enc P (ev_EventTime ev)"
  by (simp_all add: event_row_def)

lemma event_bucket_sel [simp]:
  "b_start (event_bucket P ev) = date_trunc_hour (pg_enc P (ev_EventTime ev))"
  "b_type (event_bucket P ev) = ev_EventType ev" "b_count (event_bucket P ev) = 1"
  by (simp_all add: event_bucket_def)

lemma db_wf_event_effect:
  assumes "db_wf db" "event_storable ev"
  shows "db_wf (event_effect P ev db)"
proof -
  have "unique_key ie_key (item_events (event_effect P ev db))"
    using assms by (simp add: item_events_effect unique_key_insert_do_nothing db_wf_def)
  moreover have "\<forall>r \<in> set (item_events (event_effect P ev db)). event_type_ok (ie_type r)"
    using assms by (auto simp: event_effect_def db_wf_def event_storable_def)
  moreover have "\<forall>b \<in> set (upsert b_key b_add (event_buckets db) (event_bucket P ev)).
      event_type_ok (b_type b) \<and> b_start b mod hour_us = 0 \<and> 1 \<le> b_count b"
    by (intro buckets.upsert_preserves) (use assms in \<open>auto simp: db_wf_def event_storable_def\<close>)
  moreover have "\<forall>c \<in> set (current_items (event_effect P ev db)). ci_first c \<le> ci_last c"
    unfolding current_items_effect
    by (intro items_ev.upsert_preserves) (use assms in \<open>auto simp: db_wf_def le_max_iff_disj\<close>)
  ultimately show ?thesis
    using assms by (simp add: db_wf_def items_ev.unique_upsert) (simp add: event_effect_def buckets.unique_upsert)
qed

lemma db_wf_reconcile_effect:
  assumes "db_wf db"
  shows "db_wf (reconcile_effect P items now db)"
proof -
  let ?R = "\<lambda>rows. foldl (upsert ci_id ci_upd_snapshot) rows (map (snapshot_row P now) items)"
  have first: "\<forall>c \<in> set (?R rows). ci_first c \<le> ci_last c" if "\<forall>c \<in> set rows. ci_first c \<le> ci_last c" for rows
    using that
  proof (induction items arbitrary: rows)
    case (Cons it items)
    have "\<forall>c \<in> set (upsert ci_id ci_upd_snapshot rows (snapshot_row P now it)). ci_first c \<le> ci_last c"
      using Cons.prems by (intro items_snap.upsert_preserves) (auto simp: le_max_iff_disj)
    with Cons.IH show ?case by simp
  qed simp
  have "unique_key ci_id (current_items (reconcile_effect P items now db))"
    using assms by (simp add: reconcile_effect_def unique_key_map items_snap.unique_foldl_upsert db_wf_def)
  moreover have "\<forall>c \<in> set (current_items (reconcile_effect P items now db)). ci_first c \<le> ci_last c"
    using assms first by (auto simp: reconcile_effect_def db_wf_def)
  ultimately show ?thesis using assms by (simp add: db_wf_def)
qed

lemma DeleteEventsOlderThan_cases:
  assumes "DeleteEventsOlderThan P f cutoff db = (r, db')"
  obtains (err) "r = Inl (DeleteOlder cutoff)" "db' = db"
  | (lost) "r = Inl (DeleteOlder cutoff)" "f 0 = Lost"
      "db' = db\<lparr>item_events := filter (\<lambda>r. \<not> ie_time r < pg_enc P cutoff) (item_events db)\<rparr>"
  | (ok) "r = Inr (length (filter (\<lambda>r. ie_time r < pg_enc P cutoff) (item_events db)))"
      "db' = db\<lparr>item_events := filter (\<lambda>r. \<not> ie_time r < pg_enc P cutoff) (item_events db)\<rparr>"
  using pg_commit_cases[OF assms[unfolded DeleteEventsOlderThan_def delete_where_def Let_def case_prod_conv]]
  by (auto intro: that)

lemma db_wf_filter_events: "db_wf db \<Longrightarrow> db_wf (db\<lparr>item_events := filter Q (item_events db)\<rparr>)"
  by (simp add: db_wf_def unique_key_filter)

end
