(* ===== verification/Store_Seed.thy ===== *)
theory Store_Seed
  imports Store
begin

text \<open>
  \<^verbatim>\<open>internal/store/seed.go\<close>: the batched ingestion path of the seeder (\<open>IngestEventsBatch\<close> with
  \<open>foldCurrentItems\<close>) and the seed marker. The lemmas show that a batch leaves the tables that
  one \<^const>\<open>IngestEvent\<close> per event would, under the condition that the database's microsecond
  timestamps tell the batch's events of one item apart in the same order as Go's nanosecond
  timestamps do; without it the two paths can disagree, which the last theorem shows.
\<close>

section \<open>Definitions\<close>

record BatchResult =
  br_Inserted :: int
  br_BucketsTouched :: int

record foldedItem =
  fo_itemID :: int
  fo_name :: string
  fo_firstSeen :: go_time
  fo_lastSeen :: go_time
  fo_tombstonedAt :: "go_time option"

text \<open>Go's zero \<^verbatim>\<open>time.Time\<close> (January 1, year 1).\<close>

definition go_zero_time :: go_time where
  "go_zero_time = -62135596800 * 1000000000"

definition new_folded :: "int \<Rightarrow> foldedItem" where
  "new_folded i = \<lparr>fo_itemID = i, fo_name = [], fo_firstSeen = go_zero_time,
     fo_lastSeen = go_zero_time, fo_tombstonedAt = None\<rparr>"

text \<open>The three local variables of \<^verbatim>\<open>foldCurrentItems\<close> and the body of its first loop.\<close>

record fold_state =
  fs_order :: "int list"
  fs_firstSeen :: "int \<Rightarrow> go_time option"
  fs_winners :: "int \<Rightarrow> foldedItem option"

definition fold_init :: fold_state where
  "fold_init = \<lparr>fs_order = [], fs_firstSeen = (\<lambda>_. None), fs_winners = (\<lambda>_. None)\<rparr>"

definition fold_event :: "fold_state \<Rightarrow> EventRecord \<Rightarrow> fold_state" where
  "fold_event s e =
     (let i = ev_ItemID e; t = ev_EventTime e;
          s1 = (if fs_firstSeen s i = None
                then s\<lparr>fs_firstSeen := (fs_firstSeen s)(i \<mapsto> t), fs_order := fs_order s @ [i]\<rparr>
                else s);
          found = (fs_winners s i \<noteq> None);
          w = (case fs_winners s i of None \<Rightarrow> new_folded i | Some w \<Rightarrow> w);
          w' = (if \<not> found \<or> \<not> t < fo_lastSeen w
                then w\<lparr>fo_name := ev_ItemName e, fo_lastSeen := t,
                       fo_tombstonedAt := (if ev_EventType e = ''deleted'' then Some t else None)\<rparr>
                else w)
      in s1\<lparr>fs_winners := (fs_winners s1)(i \<mapsto> w')\<rparr>)"

text \<open>The second loop dereferences \<^verbatim>\<open>winners[id]\<close>; \<open>None\<close> is the nil-pointer panic.\<close>

definition fold_result :: "fold_state \<Rightarrow> foldedItem list option" where
  "fold_result s = those (map (\<lambda>i. case fs_winners s i of
       None \<Rightarrow> None
     | Some w \<Rightarrow> Some (w\<lparr>fo_firstSeen :=
           (case fs_firstSeen s i of None \<Rightarrow> go_zero_time | Some t \<Rightarrow> t)\<rparr>)) (fs_order s))"

definition foldCurrentItems :: "EventRecord list \<Rightarrow> foldedItem list option" where
  "foldCurrentItems ev = fold_result (foldl fold_event fold_init ev)"

definition folded_row :: "pgx \<Rightarrow> foldedItem \<Rightarrow> current_item_row" where
  "folded_row P w = \<lparr>ci_id = fo_itemID w, ci_name = fo_name w, ci_first = pg_enc P (fo_firstSeen w),
     ci_last = pg_enc P (fo_lastSeen w), ci_tomb = map_option (pg_enc P) (fo_tombstonedAt w)\<rparr>"

text \<open>\<^verbatim>\<open>bucket_deltas\<close>: the new rows counted per hour and event type.\<close>

definition row_bucket :: "item_event_row \<Rightarrow> pg_time \<times> string" where
  "row_bucket r = (date_trunc_hour (ie_time r), ie_type r)"

definition bucket_deltas :: "item_event_row list \<Rightarrow> bucket_row list" where
  "bucket_deltas ins =
     map (\<lambda>((h, ty), rs). \<lparr>b_start = h, b_type = ty, b_count = int (length rs)\<rparr>) (group_by row_bucket ins)"

definition IngestEventsBatch ::
  "pgx \<Rightarrow> faults \<Rightarrow> EventRecord list \<Rightarrow> db \<Rightarrow> (store_error + BatchResult) \<times> db" where
  "IngestEventsBatch P f ev db =
     (if ev = [] then (Inr \<lparr>br_Inserted = 0, br_BucketsTouched = 0\<rparr>, db)
      else if f 0 \<noteq> Done then (Inl BeginBatch, db)
      else let (events, ins) = insert_all_do_nothing ie_key (item_events db) (map (event_row P) ev);
               deltas = bucket_deltas ins in
           if f 1 \<noteq> Done \<or> (\<exists>e \<in> set ev. \<not> event_storable e) then (Inl BatchInsert, db)
           else case upsert_all b_key b_add (event_buckets db) deltas of
             None \<Rightarrow> (Inl BatchInsert, db)
           | Some buckets \<Rightarrow>
             (case foldCurrentItems ev of
                None \<Rightarrow> (Inl FoldNilPanic, db)
              | Some folded \<Rightarrow>
                (if f 2 \<noteq> Done then (Inl BatchUpsertItems, db)
                 else case upsert_all ci_id ci_upd_event (current_items db) (map (folded_row P) folded) of
                   None \<Rightarrow> (Inl BatchUpsertItems, db)
                 | Some items \<Rightarrow>
                     pg_commit (f 3) CommitBatch
                       \<lparr>br_Inserted = int (length ins), br_BucketsTouched = int (length deltas)\<rparr> db
                       (db\<lparr>item_events := events, event_buckets := buckets, current_items := items\<rparr>))))"

record SeedMarker =
  mk_Scale :: real
  mk_RefUnix :: int
  mk_Seed :: int
  mk_Days :: int
  mk_SeededAt :: go_time
  mk_EventsWritten :: int

definition marker_row :: "pgx \<Rightarrow> SeedMarker \<Rightarrow> seed_marker_row" where
  "marker_row P m = \<lparr>sm_id = 1, sm_scale = mk_Scale m, sm_ref_unix = mk_RefUnix m, sm_seed = mk_Seed m,
     sm_days = mk_Days m, sm_seeded_at = pg_enc P (mk_SeededAt m), sm_events_written = mk_EventsWritten m\<rparr>"

definition sm_upd :: "seed_marker_row \<Rightarrow> seed_marker_row \<Rightarrow> seed_marker_row" where
  "sm_upd old excluded = old\<lparr>sm_scale := sm_scale excluded, sm_ref_unix := sm_ref_unix excluded,
     sm_seed := sm_seed excluded, sm_days := sm_days excluded,
     sm_seeded_at := sm_seeded_at excluded, sm_events_written := sm_events_written excluded\<rparr>"

text \<open>\<^verbatim>\<open>Days\<close> is a 64-bit \<^verbatim>\<open>int\<close>, the column \<^verbatim>\<open>days\<close> has 32 bits: a larger value is rejected.\<close>

definition UpsertSeedMarker :: "pgx \<Rightarrow> faults \<Rightarrow> SeedMarker \<Rightarrow> db \<Rightarrow> (store_error + unit) \<times> db" where
  "UpsertSeedMarker P f m db =
     (if \<not> int4_ok (mk_Days m) then (Inl UpsertMarkerErr, db)
      else pg_commit (f 0) UpsertMarkerErr () db
        (db\<lparr>seed_marker := upsert sm_id sm_upd (seed_marker db) (marker_row P m)\<rparr>))"

definition GetSeedMarker :: "pgx \<Rightarrow> faults \<Rightarrow> db \<Rightarrow> store_error + SeedMarker option" where
  "GetSeedMarker P f db =
     (if f 0 \<noteq> Done then Inl GetMarkerErr
      else case lookup sm_id (seed_marker db) 1 of
        None \<Rightarrow> Inr None
      | Some r \<Rightarrow> Inr (Some \<lparr>mk_Scale = sm_scale r, mk_RefUnix = sm_ref_unix r, mk_Seed = sm_seed r,
            mk_Days = sm_days r, mk_SeededAt = pg_dec P (sm_seeded_at r),
            mk_EventsWritten = sm_events_written r\<rparr>))"

section \<open>Folding a batch\<close>

text \<open>
  The condition under which comparing nanosecond times in Go decides like comparing microsecond
  times in SQL: of two events of one item in the batch, the earlier one is also earlier for the
  database.
\<close>

definition ticks_distinguish :: "pgx \<Rightarrow> EventRecord list \<Rightarrow> bool" where
  "ticks_distinguish P evs \<longleftrightarrow>
     (\<forall>e \<in> set evs. \<forall>e' \<in> set evs. ev_ItemID e = ev_ItemID e' \<and> ev_EventTime e < ev_EventTime e' \<longrightarrow>
        pg_enc P (ev_EventTime e) < pg_enc P (ev_EventTime e'))"

lemma those_map_Some: "those (map (\<lambda>x. Some (g x)) xs) = Some (map g xs)"
  by (induction xs) auto

lemma those_map_cong:
  "(\<And>x. x \<in> set xs \<Longrightarrow> f x = Some (g x)) \<Longrightarrow> those (map f xs) = Some (map g xs)"
  by (induction xs) auto

definition fold_inv :: "EventRecord list \<Rightarrow> fold_state \<Rightarrow> bool" where
  "fold_inv evs s \<longleftrightarrow> distinct (fs_order s) \<and>
     (\<forall>i. fs_firstSeen s i = None \<longleftrightarrow> i \<notin> set (fs_order s)) \<and>
     (\<forall>i. fs_winners s i = None \<longleftrightarrow> i \<notin> set (fs_order s)) \<and>
     (\<forall>i w. fs_winners s i = Some w \<longrightarrow> fo_itemID w = i \<and>
        (\<exists>e \<in> set evs. ev_ItemID e = i \<and> ev_EventTime e = fo_lastSeen w))"

lemma fold_inv_init: "fold_inv [] fold_init"
  by (simp add: fold_inv_def fold_init_def)

lemma fold_event_sel:
  "fs_order (fold_event s e) = (if fs_firstSeen s (ev_ItemID e) = None then fs_order s @ [ev_ItemID e] else fs_order s)"
  "fs_firstSeen (fold_event s e) =
     (if fs_firstSeen s (ev_ItemID e) = None then (fs_firstSeen s)(ev_ItemID e \<mapsto> ev_EventTime e) else fs_firstSeen s)"
  "fs_winners (fold_event s e) = (fs_winners s)(ev_ItemID e \<mapsto>
     (let w = (case fs_winners s (ev_ItemID e) of None \<Rightarrow> new_folded (ev_ItemID e) | Some w \<Rightarrow> w) in
      if fs_winners s (ev_ItemID e) = None \<or> \<not> ev_EventTime e < fo_lastSeen w
      then w\<lparr>fo_name := ev_ItemName e, fo_lastSeen := ev_EventTime e,
             fo_tombstonedAt := (if ev_EventType e = ''deleted'' then Some (ev_EventTime e) else None)\<rparr>
      else w))"
  by (simp_all add: fold_event_def Let_def)

lemma fold_inv_step: "fold_inv evs s \<Longrightarrow> fold_inv (evs @ [e]) (fold_event s e)"
  unfolding fold_inv_def fold_event_sel
  by (auto simp: Let_def new_folded_def split: option.splits)

lemma fold_inv_all: "fold_inv evs (foldl fold_event fold_init evs)"
  by (induction evs rule: rev_induct) (simp_all add: fold_inv_init fold_inv_step)

definition state_item :: "fold_state \<Rightarrow> int \<Rightarrow> foldedItem" where
  "state_item s i = (the (fs_winners s i))\<lparr>fo_firstSeen := the (fs_firstSeen s i)\<rparr>"

lemma fold_result_items: "fold_inv evs s \<Longrightarrow> fold_result s = Some (map (state_item s) (fs_order s))"
  unfolding fold_result_def
  by (rule those_map_cong) (auto simp: fold_inv_def state_item_def split: option.splits)

lemma state_item_id: "fold_inv evs s \<Longrightarrow> i \<in> set (fs_order s) \<Longrightarrow> fo_itemID (state_item s i) = i"
  by (auto simp: fold_inv_def state_item_def)

lemma state_item_new:
  assumes "fold_inv evs s" "ev_ItemID e \<notin> set (fs_order s)"
  shows "folded_row P (state_item (fold_event s e) (ev_ItemID e)) = event_item P e"
proof -
  have "fs_winners s (ev_ItemID e) = None" "fs_firstSeen s (ev_ItemID e) = None"
    using assms by (simp_all add: fold_inv_def)
  then show ?thesis
    by (simp add: state_item_def fold_event_sel folded_row_def event_item_def new_folded_def Let_def)
qed

lemma state_item_other:
  "i \<noteq> ev_ItemID e \<Longrightarrow> state_item (fold_event s e) i = state_item s i"
  by (simp add: state_item_def fold_event_sel)

text \<open>Folding one more event of a known item is the merge that the SQL upsert performs.\<close>

lemma state_item_merge:
  assumes inv: "fold_inv evs s" and known: "ev_ItemID e \<in> set (fs_order s)"
    and mono: "mono (pg_enc P)" and ticks: "ticks_distinguish P (evs @ [e])"
  shows "folded_row P (state_item (fold_event s e) (ev_ItemID e)) =
         ci_upd_event (folded_row P (state_item s (ev_ItemID e))) (event_item P e)"
proof -
  obtain w t where w: "fs_winners s (ev_ItemID e) = Some w" and t: "fs_firstSeen s (ev_ItemID e) = Some t"
    using inv known by (force simp: fold_inv_def)
  obtain e' where e': "e' \<in> set evs" "ev_ItemID e' = ev_ItemID e" "ev_EventTime e' = fo_lastSeen w"
    using inv w by (fastforce simp: fold_inv_def)
  have cmp: "ev_EventTime e < fo_lastSeen w \<longleftrightarrow> pg_enc P (ev_EventTime e) < pg_enc P (fo_lastSeen w)"
    using ticks e' monoD[OF mono, of "fo_lastSeen w" "ev_EventTime e"]
    by (fastforce simp: ticks_distinguish_def)
  show ?thesis
    using w t cmp
    by (auto simp: state_item_def fold_event_sel folded_row_def ci_upd_event_def event_item_def Let_def max_def)
qed

definition state_rows :: "pgx \<Rightarrow> fold_state \<Rightarrow> current_item_row list" where
  "state_rows P s = map (\<lambda>i. folded_row P (state_item s i)) (fs_order s)"

lemma folded_row_id [simp]: "ci_id (folded_row P w) = fo_itemID w"
  by (simp add: folded_row_def)

lemma state_rows_step:
  assumes inv: "fold_inv evs s" and mono: "mono (pg_enc P)" and ticks: "ticks_distinguish P (evs @ [e])"
  shows "state_rows P (fold_event s e) = upsert ci_id ci_upd_event (state_rows P s) (event_item P e)"
proof (cases "ev_ItemID e \<in> set (fs_order s)")
  case True
  have "upsert ci_id ci_upd_event (state_rows P s) (event_item P e) =
      map (\<lambda>i. if i = ci_id (event_item P e)
               then ci_upd_event (folded_row P (state_item s i)) (event_item P e)
               else folded_row P (state_item s i)) (fs_order s)"
    unfolding state_rows_def using inv True
    by (intro items_ev.upsert_map_keys) (auto simp: fold_inv_def state_item_id[OF inv])
  moreover have "fs_order (fold_event s e) = fs_order s"
    using inv True by (simp add: fold_event_sel fold_inv_def)
  ultimately show ?thesis
    using state_item_merge[OF inv True mono ticks] by (simp add: state_rows_def state_item_other)
next
  case False
  have "upsert ci_id ci_upd_event (state_rows P s) (event_item P e) = state_rows P s @ [event_item P e]"
    using False state_item_id[OF inv] by (intro items_ev.upsert_absent) (auto simp: state_rows_def)
  moreover have "fs_order (fold_event s e) = fs_order s @ [ev_ItemID e]"
    using inv False by (simp add: fold_event_sel fold_inv_def)
  moreover have "map (\<lambda>i. folded_row P (state_item (fold_event s e) i)) (fs_order s) = state_rows P s"
    unfolding state_rows_def
  proof (rule map_cong[OF refl])
    fix i assume "i \<in> set (fs_order s)"
    with False have "i \<noteq> ev_ItemID e" by blast
    then show "folded_row P (state_item (fold_event s e) i) = folded_row P (state_item s i)"
      by (simp add: state_item_other)
  qed
  ultimately show ?thesis
    using state_item_new[OF inv False] by (simp add: state_rows_def)
qed

lemma ticks_distinguish_prefix: "ticks_distinguish P (xs @ ys) \<Longrightarrow> ticks_distinguish P xs"
  by (simp add: ticks_distinguish_def)

lemma state_rows_foldl:
  assumes "mono (pg_enc P)" "ticks_distinguish P evs"
  shows "state_rows P (foldl fold_event fold_init evs) =
         foldl (upsert ci_id ci_upd_event) [] (map (event_item P) evs)"
  using assms(2)
proof (induction evs rule: rev_induct)
  case Nil
  show ?case by (simp add: state_rows_def fold_init_def)
next
  case (snoc e evs)
  from snoc.IH[OF ticks_distinguish_prefix[OF snoc.prems]]
  show ?case using state_rows_step[OF fold_inv_all assms(1) snoc.prems] by simp
qed

lemma foldCurrentItems_rows:
  assumes "mono (pg_enc P)" "ticks_distinguish P evs"
  obtains folded where "foldCurrentItems evs = Some folded"
    "map (folded_row P) folded = foldl (upsert ci_id ci_upd_event) [] (map (event_item P) evs)"
proof
  let ?s = "foldl fold_event fold_init evs"
  show "foldCurrentItems evs = Some (map (state_item ?s) (fs_order ?s))"
    unfolding foldCurrentItems_def using fold_inv_all by (rule fold_result_items)
  show "map (folded_row P) (map (state_item ?s) (fs_order ?s)) =
        foldl (upsert ci_id ci_upd_event) [] (map (event_item P) evs)"
    using state_rows_foldl[OF assms] by (simp add: state_rows_def comp_def)
qed

lemma foldCurrentItems_distinct:
  "foldCurrentItems evs = Some folded \<Longrightarrow> distinct (map fo_itemID folded)"
proof -
  assume a: "foldCurrentItems evs = Some folded"
  let ?s = "foldl fold_event fold_init evs"
  have "folded = map (state_item ?s) (fs_order ?s)"
    using a fold_result_items[OF fold_inv_all, of evs] by (simp add: foldCurrentItems_def)
  then have "map fo_itemID folded = fs_order ?s"
    using state_item_id[OF fold_inv_all, of _ evs] by (simp add: map_idI)
  then show ?thesis using fold_inv_all[of evs] by (simp add: fold_inv_def)
qed

text \<open>FoldCurrentItems never dereferences a missing winner, and produces at most one row per item,
  so the multi-row upsert that follows cannot be rejected for affecting a row twice.\<close>
theorem foldCurrentItems_total:
  "\<exists>folded. foldCurrentItems evs = Some folded \<and> distinct (map fo_itemID folded)
     \<and> set (map fo_itemID folded) = ev_ItemID ` set evs"
proof -
  let ?s = "foldl fold_event fold_init evs"
  have "set (fs_order ?s) = ev_ItemID ` set evs"
  proof (induction evs rule: rev_induct)
    case (snoc e evs)
    then show ?case using fold_inv_all[of evs] by (auto simp: fold_event_sel fold_inv_def)
  qed (simp add: fold_init_def)
  moreover obtain folded where f: "foldCurrentItems evs = Some folded"
      "folded = map (state_item ?s) (fs_order ?s)"
    using fold_result_items[OF fold_inv_all, of evs] by (simp add: foldCurrentItems_def)
  moreover have "map fo_itemID folded = fs_order ?s"
    using f(2) state_item_id[OF fold_inv_all, of _ evs] by (simp add: map_idI)
  ultimately show ?thesis using foldCurrentItems_distinct[OF f(1)] by (metis f(1))
qed

section \<open>What one batch does\<close>

definition batch_new :: "pgx \<Rightarrow> EventRecord list \<Rightarrow> db \<Rightarrow> item_event_row list" where
  "batch_new P evs db = snd (insert_all_do_nothing ie_key (item_events db) (map (event_row P) evs))"

definition batch_effect :: "pgx \<Rightarrow> EventRecord list \<Rightarrow> db \<Rightarrow> db" where
  "batch_effect P evs db = db\<lparr>
     item_events := item_events db @ batch_new P evs db,
     event_buckets := foldl (upsert b_key b_add) (event_buckets db) (bucket_deltas (batch_new P evs db)),
     current_items := foldl (upsert ci_id ci_upd_event) (current_items db)
       (map (folded_row P) (the (foldCurrentItems evs)))\<rparr>"

lemma b_key_deltas: "map b_key (bucket_deltas ins) = map fst (group_by row_bucket ins)"
  by (auto simp: bucket_deltas_def b_key_def comp_def case_prod_beta)

lemma distinct_deltas: "distinct (map b_key (bucket_deltas ins))"
  by (simp add: b_key_deltas group_by_keys_distinct)

lemma IngestEventsBatch_unfold:
  "IngestEventsBatch P f ev db =
     (if ev = [] then (Inr \<lparr>br_Inserted = 0, br_BucketsTouched = 0\<rparr>, db)
      else if f 0 \<noteq> Done then (Inl BeginBatch, db)
      else if f 1 \<noteq> Done \<or> (\<exists>e \<in> set ev. \<not> event_storable e) then (Inl BatchInsert, db)
      else if f 2 \<noteq> Done then (Inl BatchUpsertItems, db)
      else pg_commit (f 3) CommitBatch
        \<lparr>br_Inserted = int (length (batch_new P ev db)),
         br_BucketsTouched = int (length (bucket_deltas (batch_new P ev db)))\<rparr> db (batch_effect P ev db))"
proof -
  obtain folded where f: "foldCurrentItems ev = Some folded" "distinct (map fo_itemID folded)"
    using foldCurrentItems_total by blast
  have "distinct (map ci_id (map (folded_row P) folded))" using f(2) by (simp add: comp_def)
  with f(1) show ?thesis
    by (simp add: IngestEventsBatch_def case_prod_beta Let_def upsert_all_def distinct_deltas
        batch_effect_def batch_new_def insert_all_returning del: map_map)
qed

lemma IngestEventsBatch_cases:
  assumes "IngestEventsBatch P f ev db = (r, db')"
  obtains (err) e where "r = Inl e" "db' = db"
  | (lost) "r = Inl CommitBatch" "f 3 = Lost" "db' = batch_effect P ev db"
      "\<forall>e \<in> set ev. event_storable e"
  | (ok) "r = Inr \<lparr>br_Inserted = int (length (batch_new P ev db)),
        br_BucketsTouched = int (length (bucket_deltas (batch_new P ev db)))\<rparr>"
      "db' = batch_effect P ev db" "\<forall>e \<in> set ev. event_storable e"
proof (cases "ev = []")
  case True
  have "foldCurrentItems [] = Some []"
    by (simp add: foldCurrentItems_def fold_result_def fold_init_def)
  with True have "batch_effect P ev db = db" "batch_new P ev db = []" "bucket_deltas [] = []"
    by (simp_all add: batch_effect_def batch_new_def bucket_deltas_def group_by_def)
  with assms True show ?thesis by (intro ok) (simp_all add: IngestEventsBatch_unfold)
next
  case False
  then consider e where "r = Inl e" "db' = db"
    | "\<forall>e \<in> set ev. event_storable e"
      "pg_commit (f 3) CommitBatch
        \<lparr>br_Inserted = int (length (batch_new P ev db)),
         br_BucketsTouched = int (length (bucket_deltas (batch_new P ev db)))\<rparr> db (batch_effect P ev db) = (r, db')"
    using assms by (auto simp: IngestEventsBatch_unfold split: if_splits)
  then show ?thesis
  proof cases
    case 2
    from pg_commit_cases[OF 2(2)] 2(1) show ?thesis using err lost ok by auto
  qed (rule err)
qed

section \<open>A batch equals its events one by one\<close>

definition serial_effect :: "pgx \<Rightarrow> EventRecord list \<Rightarrow> db \<Rightarrow> db" where
  "serial_effect P evs db = foldl (\<lambda>db ev. event_effect P ev db) db evs"

lemma serial_effect_simps [simp]:
  "serial_effect P [] db = db"
  "serial_effect P (e # evs) db = serial_effect P evs (event_effect P e db)"
  "serial_effect P (xs @ ys) db = serial_effect P ys (serial_effect P xs db)"
  by (simp_all add: serial_effect_def)

lemma item_events_serial: "item_events (serial_effect P evs db) = item_events db @ batch_new P evs db"
proof -
  have "item_events (serial_effect P evs db) =
      fst (insert_all_do_nothing ie_key (item_events db) (map (event_row P) evs))"
    unfolding insert_all_fst by (induction evs arbitrary: db) (simp_all add: item_events_effect)
  then show ?thesis by (simp add: insert_all_returning batch_new_def)
qed

lemma current_items_serial:
  "current_items (serial_effect P evs db) =
   foldl (upsert ci_id ci_upd_event) (current_items db) (map (event_item P) evs)"
  by (induction evs arbitrary: db) simp_all

lemma seed_marker_serial [simp]: "seed_marker (serial_effect P evs db) = seed_marker db"
  by (induction evs arbitrary: db) simp_all

lemma batch_new_Cons:
  "batch_new P (e # evs) db =
     (if event_fresh P e db then event_row P e # batch_new P evs (event_effect P e db)
      else batch_new P evs (event_effect P e db))"
  by (auto simp: batch_new_def event_fresh_def event_key_def event_effect_def case_prod_beta Let_def
      split: option.splits)

lemma bucket_count_effect:
  "bucket_count (event_buckets (event_effect P e db)) k =
   bucket_count (event_buckets db) k + (if event_fresh P e db \<and> row_bucket (event_row P e) = k then 1 else 0)"
  by (auto simp: event_effect_def bucket_count_upsert b_key_def row_bucket_def)

lemma bucket_count_serial:
  "bucket_count (event_buckets (serial_effect P evs db)) k =
   bucket_count (event_buckets db) k + int (length (filter (\<lambda>r. row_bucket r = k) (batch_new P evs db)))"
proof (induction evs arbitrary: db)
  case Nil
  then show ?case by (simp add: batch_new_def)
next
  case (Cons e evs)
  then show ?case by (simp add: batch_new_Cons bucket_count_effect)
qed

lemma bucket_count_foldl:
  "bucket_count (foldl (upsert b_key b_add) bs ds) k =
   bucket_count bs k + (\<Sum>d\<leftarrow>ds. if b_key d = k then b_count d else 0)"
  by (induction ds arbitrary: bs) (auto simp: bucket_count_upsert)

lemma sum_list_single:
  "distinct ks \<Longrightarrow> (\<Sum>x\<leftarrow>ks. if x = k then g x else (0::int)) = (if k \<in> set ks then g k else 0)"
  by (induction ks) auto

lemma bucket_deltas_total:
  "(\<Sum>d\<leftarrow>bucket_deltas ins. if b_key d = k then b_count d else 0) =
   int (length (filter (\<lambda>r. row_bucket r = k) ins))"
proof -
  have "(\<Sum>d\<leftarrow>bucket_deltas ins. if b_key d = k then b_count d else 0) =
      (\<Sum>x\<leftarrow>remdups (map row_bucket ins). if x = k then int (length (filter (\<lambda>r. row_bucket r = x) ins)) else 0)"
    by (auto simp: bucket_deltas_def group_by_def b_key_def comp_def case_prod_beta intro!: arg_cong[where f = sum_list])
  also have "\<dots> = (if k \<in> row_bucket ` set ins then int (length (filter (\<lambda>r. row_bucket r = k) ins)) else 0)"
    by (subst sum_list_single) auto
  also have "\<dots> = int (length (filter (\<lambda>r. row_bucket r = k) ins))"
    by (auto simp: filter_empty_conv)
  finally show ?thesis .
qed

lemma batch_effect_serial:
  assumes "mono (pg_enc P)" "ticks_distinguish P evs"
  shows "item_events (batch_effect P evs db) = item_events (serial_effect P evs db)"
    and "current_items (batch_effect P evs db) = current_items (serial_effect P evs db)"
    and "bucket_count (event_buckets (batch_effect P evs db)) = bucket_count (event_buckets (serial_effect P evs db))"
    and "seed_marker (batch_effect P evs db) = seed_marker (serial_effect P evs db)"
proof -
  obtain folded where f: "foldCurrentItems evs = Some folded"
    "map (folded_row P) folded = foldl (upsert ci_id ci_upd_event) [] (map (event_item P) evs)"
    using foldCurrentItems_rows[OF assms] .
  show "current_items (batch_effect P evs db) = current_items (serial_effect P evs db)"
    by (simp add: batch_effect_def current_items_serial f items_ev.foldl_upsert_folded)
  show "bucket_count (event_buckets (batch_effect P evs db)) = bucket_count (event_buckets (serial_effect P evs db))"
    by (rule ext) (simp add: batch_effect_def bucket_count_foldl bucket_deltas_total bucket_count_serial)
qed (simp_all add: batch_effect_def item_events_serial)

text \<open>The reference: one IngestEvent per event, in order, counting the ones that were new.\<close>

fun serial_ingest :: "pgx \<Rightarrow> EventRecord list \<Rightarrow> int \<times> db \<Rightarrow> int \<times> db" where
  "serial_ingest P [] s = s"
| "serial_ingest P (e # evs) (n, db) =
     (case IngestEvent P no_faults e db of
        (Inr inserted, db') \<Rightarrow> serial_ingest P evs (if inserted then n + 1 else n, db')
      | (Inl _, db') \<Rightarrow> serial_ingest P evs (n, db'))"

lemma serial_ingest_effect:
  "\<forall>e \<in> set evs. event_storable e \<Longrightarrow>
   serial_ingest P evs (n, db) = (n + int (length (batch_new P evs db)), serial_effect P evs db)"
proof (induction evs arbitrary: n db)
  case Nil
  then show ?case by (simp add: batch_new_def)
next
  case (Cons e evs)
  then show ?case by (simp add: IngestEvent_no_faults batch_new_Cons)
qed

lemma IngestEvent_unstorable: "\<not> event_storable ev \<Longrightarrow> \<exists>e. IngestEvent P f ev db = (Inl e, db)"
  by (auto simp: IngestEvent_unfold)

lemma serial_ingest_storable: "serial_ingest P (filter event_storable evs) s = serial_ingest P evs s"
proof (induction evs arbitrary: s)
  case (Cons ev evs)
  then show ?case
    using IngestEvent_unstorable[of ev P no_faults "snd s"] by (cases s) (auto split: prod.splits sum.splits)
qed simp

text \<open>C2: a batch is its events one by one. Whenever a batch succeeds, the raw events and the current
  items are the very tables that one IngestEvent per event leaves, every hourly bucket has the same
  count, and the reported number of inserted rows is the number of single ingests that reported a
  new event. Hypotheses: the driver keeps the order of timestamps and does not merge two different
  times of one item inside the batch.\<close>
theorem IngestEventsBatch_equals_serial:
  assumes "codec_ok P" "ticks_distinguish P evs"
    and "IngestEventsBatch P f evs db = (Inr res, db')"
    and "serial_ingest P evs (0, db) = (n, sdb)"
  shows "item_events db' = item_events sdb \<and> current_items db' = current_items sdb
    \<and> bucket_count (event_buckets db') = bucket_count (event_buckets sdb)
    \<and> seed_marker db' = seed_marker sdb \<and> br_Inserted res = n"
proof -
  have "mono (pg_enc P)" using assms(1) by (simp add: codec_ok_def)
  note eff = batch_effect_serial[OF this assms(2), of db]
  have *: "db' = batch_effect P evs db" "br_Inserted res = int (length (batch_new P evs db))"
    "\<forall>e \<in> set evs. event_storable e"
    by (cases rule: IngestEventsBatch_cases[OF assms(3)]; simp)+
  have "n = int (length (batch_new P evs db))" "sdb = serial_effect P evs db"
    using assms(4) serial_ingest_effect[OF *(3), of P 0 db] by simp_all
  with * eff show ?thesis by simp
qed

definition sample_events :: "EventRecord list" where
  "sample_events =
    [\<lparr>ev_ItemID = 1, ev_ItemName = ''widget'', ev_EventType = ''created'', ev_EventTime = 1000\<rparr>,
     \<lparr>ev_ItemID = 2, ev_ItemName = ''gadget'', ev_EventType = ''deleted'', ev_EventTime = 9000\<rparr>,
     \<lparr>ev_ItemID = 1, ev_ItemName = ''widget'', ev_EventType = ''created'', ev_EventTime = 1000\<rparr>,
     \<lparr>ev_ItemID = 2, ev_ItemName = ''old'', ev_EventType = ''created'', ev_EventTime = 5000\<rparr>]"

theorem IngestEventsBatch_equals_serial_witness:
  "\<exists>res db' n sdb. IngestEventsBatch pgx_us no_faults sample_events empty_db = (Inr res, db')
     \<and> serial_ingest pgx_us sample_events (0, empty_db) = (n, sdb) \<and> n = 3
     \<and> item_events db' = item_events sdb \<and> current_items db' = current_items sdb \<and> br_Inserted res = 3"
proof -
  have ok: "\<forall>e \<in> set sample_events. event_storable e"
    by (simp add: sample_events_def storable_defs)
  have ticks: "ticks_distinguish pgx_us sample_events"
    by (simp add: ticks_distinguish_def sample_events_def)
  obtain res db' where run: "IngestEventsBatch pgx_us no_faults sample_events empty_db = (Inr res, db')"
    using ok by (simp add: IngestEventsBatch_unfold sample_events_def)
  have three: "int (length (batch_new pgx_us sample_events empty_db)) = 3"
    by (simp add: batch_new_def sample_events_def empty_db_def event_row_def ie_key_def)
  obtain sdb where ser: "serial_ingest pgx_us sample_events (0, empty_db) = (3, sdb)"
    using serial_ingest_effect[OF ok, of pgx_us 0 empty_db] three by simp
  from IngestEventsBatch_equals_serial[OF codec_ok_us ticks run ser] run ser show ?thesis by auto
qed

section \<open>Replay\<close>

lemma batch_new_replay:
  assumes "item_events db' = item_events db @ batch_new P evs db"
  shows "batch_new P evs db' = []"
proof -
  have ie: "item_events db' = fst (insert_all_do_nothing ie_key (item_events db) (map (event_row P) evs))"
    using assms by (simp add: insert_all_returning batch_new_def)
  have "insert_all_do_nothing ie_key (item_events db') (map (event_row P) evs) = (item_events db', [])"
    unfolding ie by (rule insert_all_present) (rule insert_all_lookup_new)
  then show ?thesis by (simp add: batch_new_def)
qed

lemma batch_effect_idem: "batch_effect P evs (batch_effect P evs db) = batch_effect P evs db"
proof -
  obtain folded where f: "foldCurrentItems evs = Some folded" "distinct (map fo_itemID folded)"
    using foldCurrentItems_total by blast
  have d: "distinct (map ci_id (map (folded_row P) folded))" using f(2) by (simp add: comp_def)
  have "batch_new P evs (batch_effect P evs db) = []"
    by (rule batch_new_replay) (simp add: batch_effect_def)
  then show ?thesis
    using items_ev.foldl_upsert_replay[OF d] f(1)
    by (simp add: batch_effect_def bucket_deltas_def group_by_def)
qed

text \<open>Replaying a batch is a no-op. After a batch has been written - and also when its commit went
  through but the acknowledgement was lost - running the same batch again succeeds, reports nothing
  inserted and no bucket touched, and leaves every table as it is.\<close>
theorem IngestEventsBatch_replay_noop:
  assumes "IngestEventsBatch P f evs db = (r, db')" "db' \<noteq> db \<or> (\<exists>res. r = Inr res)"
  shows "IngestEventsBatch P no_faults evs db' = (Inr \<lparr>br_Inserted = 0, br_BucketsTouched = 0\<rparr>, db')"
proof -
  have db': "db' = batch_effect P evs db" "\<forall>e \<in> set evs. event_storable e"
    by (cases rule: IngestEventsBatch_cases[OF assms(1)]; use assms(2) in simp)+
  have "batch_new P evs db' = []"
    by (rule batch_new_replay) (simp add: db' batch_effect_def)
  moreover have "batch_effect P evs db' = db'" by (simp add: db' batch_effect_idem)
  ultimately show ?thesis
    using db'(2) by (auto simp: IngestEventsBatch_unfold bucket_deltas_def group_by_def)
qed

theorem IngestEventsBatch_replay_noop_witness:
  "\<exists>db'. IngestEventsBatch pgx_us (no_faults(3 := Lost)) sample_events empty_db = (Inl CommitBatch, db')
     \<and> db' \<noteq> empty_db
     \<and> IngestEventsBatch pgx_us no_faults sample_events db' = (Inr \<lparr>br_Inserted = 0, br_BucketsTouched = 0\<rparr>, db')"
proof -
  let ?r = "IngestEventsBatch pgx_us (no_faults(3 := Lost)) sample_events empty_db"
  have run: "?r = (Inl CommitBatch, batch_effect pgx_us sample_events empty_db)"
    by (simp add: IngestEventsBatch_unfold sample_events_def storable_defs)
  have "item_events (batch_effect pgx_us sample_events empty_db) \<noteq> item_events empty_db"
    by (simp add: batch_effect_def batch_new_def sample_events_def empty_db_def event_row_def ie_key_def)
  then have "batch_effect pgx_us sample_events empty_db \<noteq> empty_db" by metis
  with IngestEventsBatch_replay_noop[OF run] run show ?thesis by blast
qed

section \<open>Where the two paths part\<close>

text \<open>
  The fold compares nanoseconds, the SQL merge compares microseconds. Two events of one item
  inside the same microsecond, delivered in decreasing order of time, are decided differently: the
  batch keeps the first, the single-event path lets the later delivery win the tie.
\<close>

definition same_tick_events :: "EventRecord list" where
  "same_tick_events =
    [\<lparr>ev_ItemID = 1, ev_ItemName = ''widget'', ev_EventType = ''created'', ev_EventTime = 1500\<rparr>,
     \<lparr>ev_ItemID = 1, ev_ItemName = ''widget'', ev_EventType = ''deleted'', ev_EventTime = 1200\<rparr>]"

text \<open>C38: for a driver that truncates to microseconds, the claim that a batch leaves the same state as
  its events ingested one by one fails for two events of one item inside one microsecond: the batch
  leaves the item live, the single-event path leaves it tombstoned.\<close>
theorem batch_differs_within_microsecond:
  "\<exists>res db' n sdb r s.
     IngestEventsBatch pgx_us no_faults same_tick_events empty_db = (Inr res, db') \<and>
     serial_ingest pgx_us same_tick_events (0, empty_db) = (n, sdb) \<and>
     lookup ci_id (current_items db') 1 = Some r \<and> ci_tomb r = None \<and>
     lookup ci_id (current_items sdb) 1 = Some s \<and> ci_tomb s = Some 1"
proof -
  have ok: "\<forall>e \<in> set same_tick_events. event_storable e"
    by (simp add: same_tick_events_def storable_defs)
  have run: "\<exists>res. IngestEventsBatch pgx_us no_faults same_tick_events empty_db =
      (Inr res, batch_effect pgx_us same_tick_events empty_db)"
    using ok by (simp add: IngestEventsBatch_unfold same_tick_events_def)
  have "lookup ci_id (current_items (batch_effect pgx_us same_tick_events empty_db)) 1 =
      Some \<lparr>ci_id = 1, ci_name = ''widget'', ci_first = 1, ci_last = 1, ci_tomb = None\<rparr>"
    by (simp add: batch_effect_def foldCurrentItems_def fold_result_def fold_init_def same_tick_events_def
        fold_event_sel new_folded_def folded_row_def empty_db_def)
  moreover have "lookup ci_id (current_items (serial_effect pgx_us same_tick_events empty_db)) 1 =
      Some \<lparr>ci_id = 1, ci_name = ''widget'', ci_first = 1, ci_last = 1, ci_tomb = Some 1\<rparr>"
    by (simp add: current_items_serial same_tick_events_def event_item_def ci_upd_event_def empty_db_def)
  ultimately show ?thesis
    using run serial_ingest_effect[OF ok, of pgx_us 0 empty_db] by fastforce
qed

section \<open>The seed marker\<close>

interpretation marker: upsert_table sm_id sm_upd
  by unfold_locales (simp add: sm_upd_def)

lemma UpsertSeedMarker_cases:
  assumes "UpsertSeedMarker P f m db = (r, db')"
  obtains (err) "r = Inl UpsertMarkerErr" "db' = db"
  | (lost) "r = Inl UpsertMarkerErr" "f 0 = Lost" "int4_ok (mk_Days m)"
      "db' = db\<lparr>seed_marker := upsert sm_id sm_upd (seed_marker db) (marker_row P m)\<rparr>"
  | (ok) "r = Inr ()" "f 0 = Done" "int4_ok (mk_Days m)"
      "db' = db\<lparr>seed_marker := upsert sm_id sm_upd (seed_marker db) (marker_row P m)\<rparr>"
proof (cases "int4_ok (mk_Days m)")
  case True
  then have "pg_commit (f 0) UpsertMarkerErr () db (db\<lparr>seed_marker := upsert sm_id sm_upd (seed_marker db) (marker_row P m)\<rparr>)
      = (r, db')" using assms by (simp add: UpsertSeedMarker_def)
  from pg_commit_cases[OF this] True show ?thesis by (auto intro: that)
next
  case False
  then show ?thesis using assms err by (simp add: UpsertSeedMarker_def)
qed

lemma lookup_marker:
  "lookup sm_id (upsert sm_id sm_upd ms (marker_row P m)) 1 = Some (marker_row P m)"
proof -
  have "lookup sm_id ms 1 = Some r \<Longrightarrow> sm_upd r (marker_row P m) = marker_row P m" for r
    using lookup_SomeD[of sm_id ms 1 r] by (simp add: sm_upd_def marker_row_def)
  then show ?thesis
    by (simp add: marker.lookup_upsert marker_row_def split: option.splits)
qed

text \<open>The seed marker round-trips: after UpsertSeedMarker succeeds, GetSeedMarker finds exactly the
  marker that was written (its time at the database's resolution), whatever marker was there before,
  the table keeps at most one row, and no other table changes.\<close>
theorem SeedMarker_roundtrip:
  assumes "db_wf db" "UpsertSeedMarker P f m db = (Inr (), db')"
    and "pg_dec P (pg_enc P (mk_SeededAt m)) = mk_SeededAt m"
  shows "GetSeedMarker P no_faults db' = Inr (Some m) \<and> length (seed_marker db') = 1
    \<and> item_events db' = item_events db \<and> event_buckets db' = event_buckets db
    \<and> current_items db' = current_items db"
proof -
  have db': "db' = db\<lparr>seed_marker := upsert sm_id sm_upd (seed_marker db) (marker_row P m)\<rparr>"
    using assms(2) by (auto elim: UpsertSeedMarker_cases)
  have ids: "sm_id ` set (seed_marker db) \<subseteq> {1}" "distinct (map sm_id (seed_marker db))"
    using assms(1) by (auto simp: db_wf_def unique_key_def)
  have "unique_key sm_id (seed_marker db')" "sm_id ` set (seed_marker db') = {1}"
    using assms(1) ids(1) by (auto simp: db' marker.unique_upsert marker.keys_upsert db_wf_def marker_row_def)
  then have "length (seed_marker db') = 1"
    by (metis card.empty card.insert distinct_card empty_iff finite.emptyI length_map list.set_map
        One_nat_def unique_key_def)
  with assms(3) show ?thesis
    by (simp add: db' GetSeedMarker_def lookup_marker) (simp add: marker_row_def)
qed

theorem SeedMarker_roundtrip_witness:
  "\<exists>m db'. UpsertSeedMarker pgx_us no_faults m empty_db = (Inr (), db') \<and> mk_Days m = 90
     \<and> GetSeedMarker pgx_us no_faults db' = Inr (Some m)"
proof -
  define m :: SeedMarker where "m = \<lparr>mk_Scale = 1, mk_RefUnix = 1767571200, mk_Seed = 42, mk_Days = 90,
    mk_SeededAt = 1767571200000000000, mk_EventsWritten = 12345\<rparr>"
  have run: "UpsertSeedMarker pgx_us no_faults m empty_db =
      (Inr (), empty_db\<lparr>seed_marker := upsert sm_id sm_upd (seed_marker empty_db) (marker_row pgx_us m)\<rparr>)"
    by (simp add: UpsertSeedMarker_def m_def int4_ok_def)
  from SeedMarker_roundtrip[OF db_wf_empty run] run show ?thesis
    by (intro exI[of _ m]) (simp add: m_def)
qed

end
