(* ===== verification/Store_Machine.thy ===== *)
theory Store_Machine
  imports Store_Seed
begin

text \<open>
  The store as a state machine: any sequence of store operations, with any arguments and any
  database faults, by any number of callers whose transactions PostgreSQL serialises. A ghost
  variable counts the raw rows that retention has removed from each bucket. Invariants by rule
  induction: the tables stay well formed, and every bucket counts exactly the raw rows it was built
  from, still stored or expired. The last part shows when delivery order does not matter, and what
  happens to the buckets when expired events are delivered again.
\<close>

section \<open>Steps\<close>

definition events_in :: "item_event_row list \<Rightarrow> pg_time \<times> string \<Rightarrow> int" where
  "events_in rows k = int (length (filter (\<lambda>r. row_bucket r = k) rows))"

record mstate =
  m_db :: db
  m_expired :: "pg_time \<times> string \<Rightarrow> int"

definition m_init :: mstate where
  "m_init = \<lparr>m_db = empty_db, m_expired = (\<lambda>_. 0)\<rparr>"

inductive store_step :: "pgx \<Rightarrow> mstate \<Rightarrow> mstate \<Rightarrow> bool" for P where
  ingest: "IngestEvent P f ev (m_db s) = (r, db') \<Longrightarrow> store_step P s (s\<lparr>m_db := db'\<rparr>)"
| batch: "IngestEventsBatch P f evs (m_db s) = (r, db') \<Longrightarrow> store_step P s (s\<lparr>m_db := db'\<rparr>)"
| reconcile: "ReconcileSnapshot P f items now (m_db s) = (r, db') \<Longrightarrow> store_step P s (s\<lparr>m_db := db'\<rparr>)"
| marker: "UpsertSeedMarker P f m (m_db s) = (r, db') \<Longrightarrow> store_step P s (s\<lparr>m_db := db'\<rparr>)"
| retain: "DeleteEventsOlderThan P f cutoff (m_db s) = (r, db') \<Longrightarrow>
     store_step P s \<lparr>m_db = db', m_expired =
       (\<lambda>k. m_expired s k + (events_in (item_events (m_db s)) k - events_in (item_events db') k))\<rparr>"

inductive store_reachable :: "pgx \<Rightarrow> mstate \<Rightarrow> bool" for P where
  init: "store_reachable P m_init"
| step: "store_reachable P s \<Longrightarrow> store_step P s t \<Longrightarrow> store_reachable P t"

section \<open>Well-formedness\<close>

lemma fold_first_le_last:
  "fs_winners (foldl fold_event fold_init evs) i = Some w \<Longrightarrow>
   fs_firstSeen (foldl fold_event fold_init evs) i = Some t \<Longrightarrow> t \<le> fo_lastSeen w"
proof (induction evs arbitrary: w t rule: rev_induct)
  case Nil
  then show ?case by (simp add: fold_init_def)
next
  case (snoc e evs)
  have inv: "fold_inv evs (foldl fold_event fold_init evs)" by (rule fold_inv_all)
  show ?case
  proof (cases "i = ev_ItemID e")
    case True
    with snoc inv show ?thesis
      by (fastforce simp: fold_event_sel fold_inv_def Let_def split: if_splits option.splits)
  next
    case False
    with snoc show ?thesis by (auto simp: fold_event_sel split: if_splits)
  qed
qed

lemma folded_first_le_last:
  assumes "mono (pg_enc P)" "foldCurrentItems evs = Some folded" "w \<in> set folded"
  shows "ci_first (folded_row P w) \<le> ci_last (folded_row P w)"
proof -
  let ?s = "foldl fold_event fold_init evs"
  have "folded = map (state_item ?s) (fs_order ?s)"
    using assms(2) fold_result_items[OF fold_inv_all, of evs] by (simp add: foldCurrentItems_def)
  then obtain i where i: "i \<in> set (fs_order ?s)" "w = state_item ?s i" using assms(3) by auto
  obtain v t where "fs_winners ?s i = Some v" "fs_firstSeen ?s i = Some t"
    using fold_inv_all[of evs] i(1) by (force simp: fold_inv_def)
  then have "fo_firstSeen w \<le> fo_lastSeen w"
    using fold_first_le_last i(2) by (simp add: state_item_def)
  then show ?thesis using monoD[OF assms(1)] by (simp add: folded_row_def)
qed

lemma bucket_deltas_ok:
  assumes "\<forall>r \<in> set ins. event_type_ok (ie_type r)"
  shows "\<forall>b \<in> set (bucket_deltas ins). event_type_ok (b_type b) \<and> b_start b mod hour_us = 0 \<and> 1 \<le> b_count b"
proof -
  have "1 \<le> length (filter (\<lambda>r'. row_bucket r' = row_bucket r) ins)" if "r \<in> set ins" for r
    using that by (metis (mono_tags, lifting) One_nat_def Suc_leI filter_empty_conv length_greater_0_conv)
  with assms show ?thesis
    by (fastforce simp: bucket_deltas_def group_by_def row_bucket_def)
qed

lemma db_wf_batch_effect:
  assumes "db_wf db" "mono (pg_enc P)" "\<forall>e \<in> set evs. event_storable e"
  shows "db_wf (batch_effect P evs db)"
proof -
  obtain folded where f: "foldCurrentItems evs = Some folded" using foldCurrentItems_total by blast
  have new: "\<forall>r \<in> set (batch_new P evs db). event_type_ok (ie_type r)"
    using assms(3) insert_all_snd_subset[of ie_key "item_events db" "map (event_row P) evs"]
    by (fastforce simp: batch_new_def event_storable_def)
  have "unique_key ie_key (item_events (batch_effect P evs db))"
    using assms(1) unique_key_insert_all[of ie_key "item_events db" "map (event_row P) evs"]
    by (simp add: batch_effect_def insert_all_returning batch_new_def db_wf_def)
  moreover have "\<forall>b \<in> set (event_buckets (batch_effect P evs db)).
      event_type_ok (b_type b) \<and> b_start b mod hour_us = 0 \<and> 1 \<le> b_count b"
    using assms(1) bucket_deltas_ok[OF new]
    by (simp add: batch_effect_def db_wf_def) (rule buckets.foldl_upsert_preserves, auto simp: b_add_def)
  moreover have "\<forall>c \<in> set (current_items (batch_effect P evs db)). ci_first c \<le> ci_last c"
    using assms(1) folded_first_le_last[OF assms(2) f] f
    by (simp add: batch_effect_def db_wf_def) (rule items_ev.foldl_upsert_preserves, auto simp: le_max_iff_disj)
  ultimately show ?thesis
    using assms(1) new by (auto simp: db_wf_def batch_effect_def buckets.unique_foldl_upsert items_ev.unique_foldl_upsert)
qed

lemma db_wf_marker:
  assumes "db_wf db"
  shows "db_wf (db\<lparr>seed_marker := upsert sm_id sm_upd (seed_marker db) (marker_row P m)\<rparr>)"
proof -
  have "\<forall>r \<in> set (upsert sm_id sm_upd (seed_marker db) (marker_row P m)). sm_id r = 1"
    by (intro marker.upsert_preserves) (use assms in \<open>auto simp: db_wf_def marker_row_def sm_upd_def\<close>)
  with assms show ?thesis by (simp add: db_wf_def marker.unique_upsert)
qed

lemma store_step_wf:
  assumes "store_step P s t" "codec_ok P" "db_wf (m_db s)"
  shows "db_wf (m_db t)"
  using assms(1)
proof cases
  case ingest
  then show ?thesis using assms(3) by (auto elim!: IngestEvent_cases simp: db_wf_event_effect)
next
  case batch
  have "mono (pg_enc P)" using assms(2) by (simp add: codec_ok_def)
  with batch show ?thesis using assms(3) by (auto elim!: IngestEventsBatch_cases simp: db_wf_batch_effect)
next
  case reconcile
  then show ?thesis using assms(3) by (auto elim!: ReconcileSnapshot_cases simp: db_wf_reconcile_effect)
next
  case marker
  then show ?thesis using assms(3) by (auto elim!: UpsertSeedMarker_cases simp: db_wf_marker)
next
  case retain
  then show ?thesis using assms(3) by (auto elim!: DeleteEventsOlderThan_cases simp: db_wf_filter_events)
qed

section \<open>Bucket accounting\<close>

lemma events_in_append [simp]: "events_in (xs @ ys) k = events_in xs k + events_in ys k"
  by (simp add: events_in_def)

lemma events_in_filter_le: "events_in (filter Q rows) k \<le> events_in rows k"
  by (induction rows) (auto simp: events_in_def)

definition m_accounts :: "mstate \<Rightarrow> bool" where
  "m_accounts s \<longleftrightarrow> (\<forall>k. 0 \<le> m_expired s k \<and>
     bucket_count (event_buckets (m_db s)) k = events_in (item_events (m_db s)) k + m_expired s k)"

lemma accounts_init: "m_accounts m_init"
  by (simp add: m_accounts_def m_init_def empty_db_def bucket_count_def events_in_def)

lemma accounts_event_effect:
  "m_accounts s \<Longrightarrow> m_accounts (s\<lparr>m_db := event_effect P ev (m_db s)\<rparr>)"
  by (auto simp: m_accounts_def bucket_count_effect) (auto simp: event_effect_def events_in_def)

lemma accounts_batch_effect:
  "m_accounts s \<Longrightarrow> m_accounts (s\<lparr>m_db := batch_effect P evs (m_db s)\<rparr>)"
  by (auto simp: m_accounts_def batch_effect_def bucket_count_foldl bucket_deltas_total events_in_def)

lemma store_step_accounts:
  assumes "store_step P s t" "m_accounts s"
  shows "m_accounts t"
  using assms(1)
proof cases
  case ingest
  then show ?thesis using assms(2) by (auto elim!: IngestEvent_cases simp: accounts_event_effect)
next
  case batch
  then show ?thesis using assms(2) by (auto elim!: IngestEventsBatch_cases simp: accounts_batch_effect)
next
  case reconcile
  then show ?thesis using assms(2) by (auto elim!: ReconcileSnapshot_cases simp: m_accounts_def)
next
  case marker
  then show ?thesis using assms(2) by (auto elim!: UpsertSeedMarker_cases simp: m_accounts_def)
next
  case (retain f cutoff r db')
  have "event_buckets db' = event_buckets (m_db s)"
    "\<And>k. events_in (item_events db') k \<le> events_in (item_events (m_db s)) k"
    using retain(2) by (auto elim!: DeleteEventsOlderThan_cases simp: events_in_filter_le)
  with retain(1) assms(2) show ?thesis by (auto simp: m_accounts_def)
qed

lemma reachable_invariant:
  assumes "codec_ok P" "store_reachable P s"
  shows "db_wf (m_db s) \<and> m_accounts s"
  using assms(2)
proof (induction rule: store_reachable.induct)
  case init
  then show ?case by (simp add: accounts_init) (simp add: m_init_def db_wf_empty)
next
  case (step s t)
  then show ?case using store_step_wf[OF _ assms(1)] store_step_accounts by blast
qed

text \<open>In every state that any interleaving of live ingestion, batch seeding, reconciles, retention
  runs and marker writes can reach, with any database faults and lost acknowledgements, the tables
  are well formed (unique keys, admissible event types, hour-aligned buckets with positive counts,
  first_seen not after last_seen, at most one marker) and every hourly bucket counts exactly the raw
  events it was built from: those still stored plus those retention has expired. No event is counted
  twice or lost from its bucket by a fault.\<close>
theorem store_reachable_accounting:
  assumes "codec_ok P" "store_reachable P s"
  shows "db_wf (m_db s) \<and> (\<forall>k. 0 \<le> m_expired s k \<and>
     bucket_count (event_buckets (m_db s)) k = events_in (item_events (m_db s)) k + m_expired s k)"
  using reachable_invariant[OF assms] by (simp add: m_accounts_def)

theorem store_reachable_accounting_witness:
  "\<exists>s. store_reachable pgx_us s \<and> bucket_count (event_buckets (m_db s)) (0, ''created'') = 2
     \<and> events_in (item_events (m_db s)) (0, ''created'') + m_expired s (0, ''created'') = 2"
proof -
  obtain res where "IngestEventsBatch pgx_us no_faults sample_events (m_db m_init) =
      (Inr res, batch_effect pgx_us sample_events empty_db)"
    by (simp add: IngestEventsBatch_unfold sample_events_def storable_defs m_init_def)
  then have reach: "store_reachable pgx_us (m_init\<lparr>m_db := batch_effect pgx_us sample_events empty_db\<rparr>)"
    by (intro store_reachable.step[OF store_reachable.init] store_step.batch)
  have "events_in (item_events (batch_effect pgx_us sample_events empty_db)) (0, ''created'') = 2"
    by (simp add: batch_effect_def batch_new_def sample_events_def empty_db_def event_row_def ie_key_def
        events_in_def row_bucket_def date_trunc_hour_def hour_us_def)
  with store_reachable_accounting[OF codec_ok_us reach] reach show ?thesis
    by (intro exI[of _ "m_init\<lparr>m_db := batch_effect pgx_us sample_events empty_db\<rparr>"]) (simp add: m_init_def)
qed

section \<open>Delivery order\<close>

definition lww_view :: "current_item_row \<Rightarrow> string \<times> pg_time \<times> pg_time option" where
  "lww_view r = (ci_name r, ci_last r, ci_tomb r)"

definition opt_merge :: "current_item_row option \<Rightarrow> current_item_row \<Rightarrow> current_item_row option" where
  "opt_merge r n = Some (case r of None \<Rightarrow> n | Some r \<Rightarrow> ci_upd_event r n)"

lemma opt_merge_simps [simp]:
  "opt_merge None n = Some n" "opt_merge (Some r) n = Some (ci_upd_event r n)"
  by (simp_all add: opt_merge_def)

lemma lookup_foldl_items:
  "lookup ci_id (foldl (upsert ci_id ci_upd_event) rows news) k =
   foldl opt_merge (lookup ci_id rows k) (filter (\<lambda>n. ci_id n = k) news)"
  unfolding items_ev.lookup_foldl_upsert opt_merge_def
  by (induction news arbitrary: rows rule: rev_induct) auto

lemma ci_upd_event_older: "ci_last n < ci_last r \<Longrightarrow> ci_upd_event r n = r"
  by (simp add: ci_upd_event_def)

lemma lww_view_newer: "ci_last r \<le> ci_last n \<Longrightarrow> lww_view (ci_upd_event r n) = lww_view n"
  by (simp add: ci_upd_event_def lww_view_def)

text \<open>The winner: the stored row if it is later than every event, else a latest event.\<close>

lemma foldl_opt_merge_Some:
  "\<exists>R. foldl opt_merge (Some r) xs = Some R \<and>
     ((\<forall>x \<in> set xs. ci_last x < ci_last r) \<and> R = r \<or>
      (\<exists>x \<in> set xs. ci_last r \<le> ci_last x \<and> (\<forall>y \<in> set xs. ci_last y \<le> ci_last x) \<and> lww_view R = lww_view x))"
proof (induction xs rule: rev_induct)
  case (snoc z xs)
  then obtain R where R: "foldl opt_merge (Some r) xs = Some R"
    "(\<forall>x \<in> set xs. ci_last x < ci_last r) \<and> R = r \<or>
     (\<exists>x \<in> set xs. ci_last r \<le> ci_last x \<and> (\<forall>y \<in> set xs. ci_last y \<le> ci_last x) \<and> lww_view R = lww_view x)"
    by blast
  have top: "ci_last r \<le> ci_last R \<and> (\<forall>x \<in> set xs. ci_last x \<le> ci_last R)"
    using R(2) by (auto simp: lww_view_def)
  show ?case
  proof (cases "ci_last R \<le> ci_last z")
    case True
    have "foldl opt_merge (Some r) (xs @ [z]) = Some (ci_upd_event R z)"
      using R(1) by simp
    moreover have "ci_last r \<le> ci_last z" "\<forall>y \<in> set (xs @ [z]). ci_last y \<le> ci_last z"
      using top True by auto
    ultimately show ?thesis using lww_view_newer[OF True] by auto
  next
    case False
    then have same: "foldl opt_merge (Some r) (xs @ [z]) = Some R"
      using R(1) by (simp add: ci_upd_event_older)
    from R(2) show ?thesis
    proof
      assume "(\<forall>x \<in> set xs. ci_last x < ci_last r) \<and> R = r"
      with False same show ?thesis by auto
    next
      assume "\<exists>x \<in> set xs. ci_last r \<le> ci_last x \<and> (\<forall>y \<in> set xs. ci_last y \<le> ci_last x) \<and> lww_view R = lww_view x"
      then obtain x where x: "x \<in> set xs" "ci_last r \<le> ci_last x" "\<forall>y \<in> set xs. ci_last y \<le> ci_last x"
        "lww_view R = lww_view x" by blast
      with False have "ci_last z \<le> ci_last x" by (simp add: lww_view_def)
      with x same show ?thesis by auto
    qed
  qed
qed simp

lemma foldl_opt_merge_None:
  assumes "xs \<noteq> []"
  shows "\<exists>R. foldl opt_merge None xs = Some R \<and>
     (\<exists>x \<in> set xs. (\<forall>y \<in> set xs. ci_last y \<le> ci_last x) \<and> lww_view R = lww_view x)"
proof -
  obtain x ys where xs: "xs = x # ys" using assms by (cases xs) auto
  have start: "foldl opt_merge None xs = foldl opt_merge (Some x) ys"
    by (simp add: xs)
  obtain R where "foldl opt_merge (Some x) ys = Some R"
    "(\<forall>z \<in> set ys. ci_last z < ci_last x) \<and> R = x \<or>
     (\<exists>z \<in> set ys. ci_last x \<le> ci_last z \<and> (\<forall>y \<in> set ys. ci_last y \<le> ci_last z) \<and> lww_view R = lww_view z)"
    using foldl_opt_merge_Some[of x ys] by blast
  then show ?thesis unfolding start by (auto simp: xs less_imp_le)
qed

lemma foldl_opt_merge_view:
  assumes same: "set xs = set ys"
    and tie: "\<And>x y. x \<in> set xs \<Longrightarrow> y \<in> set xs \<Longrightarrow> ci_last x = ci_last y \<Longrightarrow> lww_view x = lww_view y"
  shows "map_option lww_view (foldl opt_merge r0 xs) = map_option lww_view (foldl opt_merge r0 ys)"
proof (cases r0)
  case None
  show ?thesis
  proof (cases "xs = []")
    case False
    moreover from this have "ys \<noteq> []" using same by auto
    ultimately obtain R R' x x' where
      "foldl opt_merge None xs = Some R" "foldl opt_merge None ys = Some R'"
      and R: "lww_view R = lww_view x" "lww_view R' = lww_view x'"
      and x: "x \<in> set xs" "\<forall>y \<in> set xs. ci_last y \<le> ci_last x"
      and x': "x' \<in> set xs" "\<forall>y \<in> set xs. ci_last y \<le> ci_last x'"
      using foldl_opt_merge_None[of xs] foldl_opt_merge_None[of ys] same by blast
    moreover have "ci_last x = ci_last x'" using x x' by (meson order_antisym)
    ultimately show ?thesis using tie[OF x(1) x'(1)] None by simp
  qed (use same in simp)
next
  case (Some r)
  obtain R R' where R: "foldl opt_merge (Some r) xs = Some R" "foldl opt_merge (Some r) ys = Some R'"
    and w: "(\<forall>x \<in> set xs. ci_last x < ci_last r) \<and> R = r \<or>
      (\<exists>x \<in> set xs. ci_last r \<le> ci_last x \<and> (\<forall>y \<in> set xs. ci_last y \<le> ci_last x) \<and> lww_view R = lww_view x)"
    and w': "(\<forall>x \<in> set xs. ci_last x < ci_last r) \<and> R' = r \<or>
      (\<exists>x \<in> set xs. ci_last r \<le> ci_last x \<and> (\<forall>y \<in> set xs. ci_last y \<le> ci_last x) \<and> lww_view R' = lww_view x)"
    using foldl_opt_merge_Some[of r xs] foldl_opt_merge_Some[of r ys] same by blast
  have "lww_view R = lww_view R'"
  proof (cases "\<forall>x \<in> set xs. ci_last x < ci_last r")
    case True
    with w w' show ?thesis by (auto simp: not_le)
  next
    case False
    then obtain x x' where x: "x \<in> set xs" "\<forall>y \<in> set xs. ci_last y \<le> ci_last x" "lww_view R = lww_view x"
      and x': "x' \<in> set xs" "\<forall>y \<in> set xs. ci_last y \<le> ci_last x'" "lww_view R' = lww_view x'"
      using w w' by blast
    then have "ci_last x = ci_last x'" by (meson order_antisym)
    with tie x x' show ?thesis by metis
  qed
  with R Some show ?thesis by simp
qed

text \<open>Known raw events and bucket counts depend on the delivered set only.\<close>

definition key_bucket :: "int \<times> string \<times> pg_time \<Rightarrow> pg_time \<times> string" where
  "key_bucket = (\<lambda>(i, ty, t). (date_trunc_hour t, ty))"

lemma row_bucket_key: "row_bucket r = key_bucket (ie_key r)"
  by (simp add: row_bucket_def key_bucket_def ie_key_def)

lemma events_in_card:
  assumes "unique_key ie_key rows"
  shows "events_in rows k = int (card {x \<in> ie_key ` set rows. key_bucket x = k})"
proof -
  have "length (filter (\<lambda>r. row_bucket r = k) rows) = length (filter (\<lambda>x. key_bucket x = k) (map ie_key rows))"
    by (simp add: row_bucket_key filter_map comp_def)
  also have "\<dots> = card (set (filter (\<lambda>x. key_bucket x = k) (map ie_key rows)))"
    using assms by (intro distinct_card[symmetric] distinct_filter) (simp add: unique_key_def)
  finally show ?thesis by (simp add: events_in_def)
qed

lemma keys_serial:
  "ie_key ` set (item_events (serial_effect P evs db)) = ie_key ` set (item_events db) \<union> event_key P ` set evs"
proof (induction evs arbitrary: db)
  case (Cons e evs)
  have "ie_key ` set (item_events (event_effect P e db)) = insert (event_key P e) (ie_key ` set (item_events db))"
    by (auto simp: event_effect_def event_fresh_def event_key_def lookup_None_iff)
  with Cons show ?case by simp
qed simp

lemma unique_serial:
  "unique_key ie_key (item_events db) \<Longrightarrow> unique_key ie_key (item_events (serial_effect P evs db))"
  by (induction evs arbitrary: db) (simp_all add: item_events_effect unique_key_insert_do_nothing)

lemma bucket_count_serial_set:
  assumes "unique_key ie_key (item_events db)" "set evs = set evs'"
  shows "bucket_count (event_buckets (serial_effect P evs db)) = bucket_count (event_buckets (serial_effect P evs' db))"
proof
  fix k
  have diff: "bucket_count (event_buckets (serial_effect P es db)) k =
      bucket_count (event_buckets db) k + (events_in (item_events (serial_effect P es db)) k - events_in (item_events db) k)" for es
    by (simp add: bucket_count_serial item_events_serial) (simp add: events_in_def)
  have "events_in (item_events (serial_effect P evs db)) k = events_in (item_events (serial_effect P evs' db)) k"
    using assms by (simp add: events_in_card unique_serial keys_serial)
  then show "bucket_count (event_buckets (serial_effect P evs db)) k = bucket_count (event_buckets (serial_effect P evs' db)) k"
    by (simp add: diff)
qed

definition no_ties :: "pgx \<Rightarrow> EventRecord list \<Rightarrow> bool" where
  "no_ties P evs \<longleftrightarrow> (\<forall>e \<in> set evs. \<forall>e' \<in> set evs. ev_ItemID e = ev_ItemID e' \<and>
     pg_enc P (ev_EventTime e) = pg_enc P (ev_EventTime e') \<longrightarrow> e = e')"

lemma delivery_order_storable:
  assumes "db_wf db" "set evs = set evs'" "no_ties P evs"
    and "\<forall>e \<in> set evs. event_storable e"
    and "serial_ingest P evs (0, db) = (n, db1)" "serial_ingest P evs' (0, db) = (n', db2)"
  shows "(\<forall>i. map_option lww_view (lookup ci_id (current_items db1) i)
            = map_option lww_view (lookup ci_id (current_items db2) i))
    \<and> ie_key ` set (item_events db1) = ie_key ` set (item_events db2)
    \<and> bucket_count (event_buckets db1) = bucket_count (event_buckets db2)"
proof -
  have db1: "db1 = serial_effect P evs db" and db2: "db2 = serial_effect P evs' db"
    using assms(2,4-) by (simp_all add: serial_ingest_effect)
  have view: "map_option lww_view (lookup ci_id (current_items db1) i)
      = map_option lww_view (lookup ci_id (current_items db2) i)" for i
    unfolding db1 db2 current_items_serial lookup_foldl_items
  proof (rule foldl_opt_merge_view)
    show "set (filter (\<lambda>n. ci_id n = i) (map (event_item P) evs)) =
          set (filter (\<lambda>n. ci_id n = i) (map (event_item P) evs'))"
      using assms(2) by simp
  next
    fix x y assume "x \<in> set (filter (\<lambda>n. ci_id n = i) (map (event_item P) evs))"
      "y \<in> set (filter (\<lambda>n. ci_id n = i) (map (event_item P) evs))" "ci_last x = ci_last y"
    then obtain e e' where "e \<in> set evs" "e' \<in> set evs" "x = event_item P e" "y = event_item P e'"
      "ev_ItemID e = ev_ItemID e'" "pg_enc P (ev_EventTime e) = pg_enc P (ev_EventTime e')"
      by auto
    with assms(3) show "lww_view x = lww_view y" by (auto simp: no_ties_def)
  qed
  have u: "unique_key ie_key (item_events db)" using assms(1) by (simp add: db_wf_def)
  show ?thesis
    using view assms(2) bucket_count_serial_set[OF u assms(2)] by (simp add: db1 db2 keys_serial)
qed

text \<open>C8: delivery order and duplicates do not matter. If two sequences deliver the same set of events,
  in any order and with any repetitions, and no two different events of one item share a database
  timestamp, then ingesting them one by one from the same database gives the same name, last_seen
  and tombstone for every item, the same set of known raw events and the same count in every
  bucket. An event that the tables cannot hold takes no part in this: it changes nothing wherever it comes.\<close>
theorem delivery_order_irrelevant:
  assumes "db_wf db" "set evs = set evs'" "no_ties P (filter event_storable evs)"
    and "serial_ingest P evs (0, db) = (n, db1)" "serial_ingest P evs' (0, db) = (n', db2)"
  shows "(\<forall>i. map_option lww_view (lookup ci_id (current_items db1) i)
            = map_option lww_view (lookup ci_id (current_items db2) i))
    \<and> ie_key ` set (item_events db1) = ie_key ` set (item_events db2)
    \<and> bucket_count (event_buckets db1) = bucket_count (event_buckets db2)"
  by (rule delivery_order_storable[OF assms(1) _ assms(3), of "filter event_storable evs'"])
    (use assms(2,4,5) in \<open>simp_all add: serial_ingest_storable\<close>)

theorem delivery_order_irrelevant_witness:
  "\<exists>n db1 n' db2. serial_ingest pgx_us sample_events (0, empty_db) = (n, db1)
     \<and> serial_ingest pgx_us (rev sample_events) (0, empty_db) = (n', db2)
     \<and> (\<forall>i. map_option lww_view (lookup ci_id (current_items db1) i)
            = map_option lww_view (lookup ci_id (current_items db2) i))
     \<and> map_option lww_view (lookup ci_id (current_items db2) 2) = Some (''gadget'', 9, Some 9)"
proof -
  obtain n db1 n' db2 where
    runs: "serial_ingest pgx_us sample_events (0, empty_db) = (n, db1)"
      "serial_ingest pgx_us (rev sample_events) (0, empty_db) = (n', db2)"
    by (meson surj_pair)
  have ok: "\<forall>e \<in> set sample_events. event_storable e"
    by (simp add: sample_events_def storable_defs)
  have ties: "no_ties pgx_us (filter event_storable sample_events)"
    by (simp add: no_ties_def sample_events_def storable_defs)
  have *: "map_option lww_view (lookup ci_id (current_items db1) i)
      = map_option lww_view (lookup ci_id (current_items db2) i)" for i
    using delivery_order_irrelevant[OF db_wf_empty _ ties runs] by simp
  have "map_option lww_view (lookup ci_id (current_items db1) 2) = Some (''gadget'', 9, Some 9)"
    using runs(1) serial_ingest_effect[OF ok, of pgx_us 0 empty_db]
    by (simp add: current_items_serial sample_events_def empty_db_def event_item_def lww_view_def
        ci_upd_event_def)
  with runs * show ?thesis by metis
qed

section \<open>Retention\<close>

text \<open>A retention run that succeeds removes exactly the raw events whose event time is before the
  cutoff, reports how many, keeps every other raw event, and changes no bucket, no current item and
  no marker.\<close>
theorem DeleteEventsOlderThan_exact:
  assumes "DeleteEventsOlderThan P f cutoff db = (Inr deleted, db')"
  shows "set (item_events db') = {r \<in> set (item_events db). pg_enc P cutoff \<le> ie_time r}
    \<and> deleted + length (item_events db') = length (item_events db)
    \<and> event_buckets db' = event_buckets db \<and> current_items db' = current_items db
    \<and> seed_marker db' = seed_marker db"
proof -
  have d: "deleted = length (filter (\<lambda>r. ie_time r < pg_enc P cutoff) (item_events db))"
    and db': "db' = db\<lparr>item_events := filter (\<lambda>r. \<not> ie_time r < pg_enc P cutoff) (item_events db)\<rparr>"
    using assms by (auto elim: DeleteEventsOlderThan_cases)
  have "deleted + length (item_events db') = length (item_events db)"
    unfolding d db' by (simp add: sum_length_filter_compl)
  then show ?thesis using db' by auto
qed

theorem DeleteEventsOlderThan_exact_witness:
  "\<exists>db'. DeleteEventsOlderThan pgx_us no_faults 5000 (batch_effect pgx_us sample_events empty_db) = (Inr 1, db')
     \<and> length (item_events db') = 2"
proof -
  have three: "length (item_events (batch_effect pgx_us sample_events empty_db)) = 3"
    by (simp add: batch_effect_def batch_new_def sample_events_def empty_db_def event_row_def ie_key_def)
  have "\<exists>db'. DeleteEventsOlderThan pgx_us no_faults 5000 (batch_effect pgx_us sample_events empty_db) = (Inr 1, db')"
    by (simp add: DeleteEventsOlderThan_def delete_where_def batch_effect_def batch_new_def
        sample_events_def empty_db_def event_row_def ie_key_def)
  then obtain db' where run: "DeleteEventsOlderThan pgx_us no_faults 5000
      (batch_effect pgx_us sample_events empty_db) = (Inr 1, db')" by blast
  from DeleteEventsOlderThan_exact[OF run] run three show ?thesis by auto
qed

text \<open>C37: replay stops being a no-op once retention has run. If a batch is written, a retention run
  removes its raw events (all older than the cutoff), and the same batch is written again, then the
  second run inserts at least as many rows as the first and every bucket has grown by at least twice
  what the batch contributed: the events are counted twice.\<close>
theorem replay_after_retention_counts_twice:
  assumes "IngestEventsBatch P f evs db = (Inr res, db1)"
    and "DeleteEventsOlderThan P g cutoff db1 = (Inr d, db2)"
    and "\<forall>e \<in> set evs. pg_enc P (ev_EventTime e) < pg_enc P cutoff"
    and "IngestEventsBatch P h evs db2 = (Inr res', db3)"
  shows "br_Inserted res \<le> br_Inserted res'
    \<and> (\<forall>k. bucket_count (event_buckets db) k + 2 * (bucket_count (event_buckets db1) k - bucket_count (event_buckets db) k)
            \<le> bucket_count (event_buckets db3) k)"
proof -
  have 1: "db1 = batch_effect P evs db" "br_Inserted res = int (length (batch_new P evs db))"
    by (cases rule: IngestEventsBatch_cases[OF assms(1)]; simp)+
  have 3: "db3 = batch_effect P evs db2" "br_Inserted res' = int (length (batch_new P evs db2))"
    by (cases rule: IngestEventsBatch_cases[OF assms(4)]; simp)+
  have 2: "item_events db2 = filter (\<lambda>r. \<not> ie_time r < pg_enc P cutoff) (item_events db1)"
    "event_buckets db2 = event_buckets db1"
    using assms(2) by (auto elim: DeleteEventsOlderThan_cases)
  have gone: "lookup ie_key (item_events db2) (ie_key (event_row P e)) = None" if "e \<in> set evs" for e
    using assms(3) that by (auto simp: lookup_None_iff 2 ie_key_def)
  have le: "length (filter Q (batch_new P evs db)) \<le> length (filter Q (batch_new P evs db2))" for Q
    unfolding batch_new_def by (rule insert_all_antimono) (auto simp: gone)
  have grow: "bucket_count (event_buckets (batch_effect P evs d')) k =
      bucket_count (event_buckets d') k + int (length (filter (\<lambda>r. row_bucket r = k) (batch_new P evs d')))" for d' k
    by (simp add: batch_effect_def bucket_count_foldl bucket_deltas_total)
  show ?thesis
    using le[of "\<lambda>_. True"] le by (auto simp: 1 3 2 grow)
qed

theorem replay_after_retention_counts_twice_witness:
  "\<exists>res db1 d db2 res' db3.
     IngestEventsBatch pgx_us no_faults sample_events empty_db = (Inr res, db1)
   \<and> DeleteEventsOlderThan pgx_us no_faults 1000000 db1 = (Inr d, db2)
   \<and> IngestEventsBatch pgx_us no_faults sample_events db2 = (Inr res', db3)
   \<and> bucket_count (event_buckets db1) (0, ''created'') = 2
   \<and> 4 \<le> bucket_count (event_buckets db3) (0, ''created'')"
proof -
  have run: "IngestEventsBatch pgx_us no_faults sample_events db =
      (Inr \<lparr>br_Inserted = int (length (batch_new pgx_us sample_events db)),
            br_BucketsTouched = int (length (bucket_deltas (batch_new pgx_us sample_events db)))\<rparr>,
       batch_effect pgx_us sample_events db)" for db
    by (simp add: IngestEventsBatch_unfold sample_events_def storable_defs)
  obtain d db2 where del: "DeleteEventsOlderThan pgx_us no_faults 1000000
      (batch_effect pgx_us sample_events empty_db) = (Inr d, db2)"
    by (simp add: DeleteEventsOlderThan_def delete_where_def)
  have two: "bucket_count (event_buckets (batch_effect pgx_us sample_events empty_db)) (0, ''created'') = 2"
    by (simp add: batch_effect_def bucket_count_foldl bucket_deltas_total)
      (simp add: batch_new_def sample_events_def empty_db_def event_row_def ie_key_def
        row_bucket_def date_trunc_hour_def hour_us_def bucket_count_def)
  have old: "\<forall>e \<in> set sample_events. pg_enc pgx_us (ev_EventTime e) < pg_enc pgx_us 1000000"
    by (simp add: sample_events_def)
  have "4 \<le> bucket_count (event_buckets (batch_effect pgx_us sample_events db2)) (0, ''created'')"
    using replay_after_retention_counts_twice[OF run del old run, THEN conjunct2, rule_format, of "(0, ''created'')"] two
    by (simp add: empty_db_def bucket_count_def)
  with run del two show ?thesis by metis
qed

text \<open>A database that the store operations can reach from the empty one.\<close>

definition db_reachable :: "pgx \<Rightarrow> db \<Rightarrow> bool" where
  "db_reachable P db \<longleftrightarrow> (\<exists>ex. store_reachable P \<lparr>m_db = db, m_expired = ex\<rparr>)"

lemma db_reachable_empty: "db_reachable P empty_db"
  using store_reachable.init[of P] by (auto simp: db_reachable_def m_init_def)

lemma db_reachable_step:
  assumes "db_reachable P db" "\<And>s. m_db s = db \<Longrightarrow> \<exists>t. store_step P s t \<and> m_db t = db'"
  shows "db_reachable P db'"
proof -
  obtain ex where s: "store_reachable P \<lparr>m_db = db, m_expired = ex\<rparr>" using assms(1) by (auto simp: db_reachable_def)
  obtain t where "store_step P \<lparr>m_db = db, m_expired = ex\<rparr> t" "m_db t = db'" using assms(2)[of "\<lparr>m_db = db, m_expired = ex\<rparr>"] by auto
  with store_reachable.step[OF s] show ?thesis by (cases t) (auto simp: db_reachable_def)
qed

lemma db_reachable_ops:
  assumes "db_reachable P db"
  shows "db_reachable P (snd (IngestEvent P f ev db))" "db_reachable P (snd (IngestEventsBatch P f evs db))"
    "db_reachable P (snd (ReconcileSnapshot P f items now db))" "db_reachable P (snd (UpsertSeedMarker P f m db))"
    "db_reachable P (snd (DeleteEventsOlderThan P f cutoff db))"
proof -
  note step = db_reachable_step[OF assms]
  show "db_reachable P (snd (IngestEvent P f ev db))"
    by (rule step) (metis mstate.select_convs(1) mstate.surjective mstate.update_convs(1) prod.collapse store_step.ingest)
  show "db_reachable P (snd (IngestEventsBatch P f evs db))"
    by (rule step) (metis mstate.select_convs(1) mstate.surjective mstate.update_convs(1) prod.collapse store_step.batch)
  show "db_reachable P (snd (ReconcileSnapshot P f items now db))"
    by (rule step) (metis mstate.select_convs(1) mstate.surjective mstate.update_convs(1) prod.collapse store_step.reconcile)
  show "db_reachable P (snd (UpsertSeedMarker P f m db))"
    by (rule step) (metis mstate.select_convs(1) mstate.surjective mstate.update_convs(1) prod.collapse store_step.marker)
  show "db_reachable P (snd (DeleteEventsOlderThan P f cutoff db))"
    by (rule step) (metis mstate.select_convs(1) prod.collapse store_step.retain)
qed

text \<open>The ledger of a reachable database: a sequence of store operations that builds it, with the rows retention removed on
  the way counted per bucket.\<close>

lemma db_reachable_ledger:
  assumes "codec_ok P" "db_reachable P db"
  shows "\<exists>s. store_reachable P s \<and> m_db s = db \<and> (\<forall>k. 0 \<le> m_expired s k \<and>
    bucket_count (event_buckets db) k = events_in (item_events db) k + m_expired s k)"
proof -
  obtain ex where s: "store_reachable P \<lparr>m_db = db, m_expired = ex\<rparr>" using assms(2) by (auto simp: db_reachable_def)
  from reachable_invariant[OF assms(1) s] s show ?thesis
    by (intro exI[of _ "\<lparr>m_db = db, m_expired = ex\<rparr>"]) (auto simp: m_accounts_def)
qed

lemma db_reachable_invariant:
  assumes "codec_ok P" "db_reachable P db"
  shows "db_wf db \<and> (\<exists>expired. \<forall>k. 0 \<le> expired k \<and>
    bucket_count (event_buckets db) k = events_in (item_events db) k + expired k)"
proof -
  obtain ex where "store_reachable P \<lparr>m_db = db, m_expired = ex\<rparr>" using assms(2) by (auto simp: db_reachable_def)
  from reachable_invariant[OF assms(1) this] show ?thesis by (auto simp: m_accounts_def)
qed

text \<open>Reachable without any expiry: then the buckets are exactly the counts of the stored rows.\<close>

definition db_exact :: "pgx \<Rightarrow> db \<Rightarrow> bool" where
  "db_exact P db \<longleftrightarrow> store_reachable P \<lparr>m_db = db, m_expired = (\<lambda>_. 0)\<rparr>"

lemma db_exact_empty: "db_exact P empty_db"
  using store_reachable.init[of P] by (simp add: db_exact_def m_init_def)

lemma db_exact_ops:
  assumes "db_exact P db"
  shows "db_exact P (snd (IngestEvent P f ev db))" "db_exact P (snd (IngestEventsBatch P f evs db))"
    "db_exact P (snd (ReconcileSnapshot P f items now db))" "db_exact P (snd (UpsertSeedMarker P f m db))"
proof -
  note s = store_reachable.step[OF assms[unfolded db_exact_def]]
  show "db_exact P (snd (IngestEvent P f ev db))"
    using s[OF store_step.ingest[of P f ev _ "fst (IngestEvent P f ev db)" "snd (IngestEvent P f ev db)"]] by (simp add: db_exact_def)
  show "db_exact P (snd (IngestEventsBatch P f evs db))"
    using s[OF store_step.batch[of P f evs _ "fst (IngestEventsBatch P f evs db)" "snd (IngestEventsBatch P f evs db)"]]
    by (simp add: db_exact_def)
  show "db_exact P (snd (ReconcileSnapshot P f items now db))"
    using s[OF store_step.reconcile[of P f items now _ "fst (ReconcileSnapshot P f items now db)" "snd (ReconcileSnapshot P f items now db)"]]
    by (simp add: db_exact_def)
  show "db_exact P (snd (UpsertSeedMarker P f m db))"
    using s[OF store_step.marker[of P f m _ "fst (UpsertSeedMarker P f m db)" "snd (UpsertSeedMarker P f m db)"]]
    by (simp add: db_exact_def)
qed

lemma db_exact_count:
  assumes "codec_ok P" "db_exact P db"
  shows "bucket_count (event_buckets db) k = events_in (item_events db) k"
  using reachable_invariant[OF assms(1) assms(2)[unfolded db_exact_def]] by (cases k) (simp add: m_accounts_def)

section \<open>Operations as data\<close>

text \<open>A call of a store operation with its arguments and faults, and the database it leaves.\<close>

datatype store_call =
    CallIngest faults EventRecord
  | CallBatch faults "EventRecord list"
  | CallReconcile faults "SnapshotItem list" go_time
  | CallMarker faults SeedMarker
  | CallRetain faults go_time

fun run_call :: "pgx \<Rightarrow> db \<Rightarrow> store_call \<Rightarrow> db" where
  "run_call P db (CallIngest f ev) = snd (IngestEvent P f ev db)"
| "run_call P db (CallBatch f evs) = snd (IngestEventsBatch P f evs db)"
| "run_call P db (CallReconcile f items now) = snd (ReconcileSnapshot P f items now db)"
| "run_call P db (CallMarker f m) = snd (UpsertSeedMarker P f m db)"
| "run_call P db (CallRetain f cutoff) = snd (DeleteEventsOlderThan P f cutoff db)"

lemma run_call_reachable: "db_reachable P db \<Longrightarrow> db_reachable P (run_call P db call)"
  using db_reachable_ops by (cases call) simp_all

end
