(* ===== verification/Go_Stdlib.thy ===== *)
theory Go_Stdlib
  imports Analytics_Prelude "HOL-Library.Sublist"
begin

text \<open>
  The parts of Go's standard library the service uses on plain values: reading the environment
  (\<^verbatim>\<open>os.Getenv\<close> gives the empty string for an unset variable), \<^verbatim>\<open>strconv.Atoi\<close> and
  \<^verbatim>\<open>strconv.ParseInt(s, 10, 64)\<close> on a 64-bit platform, \<^verbatim>\<open>strings.HasSuffix\<close> and
  \<^verbatim>\<open>strings.TrimSuffix\<close>, \<^verbatim>\<open>time.Time.Unix\<close>, \<^verbatim>\<open>time.Time.Truncate\<close> and \<^verbatim>\<open>time.Time.AddDate\<close>. Durations are counted in
  nanoseconds.
\<close>

type_synonym env = "string \<Rightarrow> string"

definition Millisecond :: go_duration where "Millisecond = 1000000"
definition Second :: go_duration where "Second = 1000000000"
definition Minute :: go_duration where "Minute = 60 * 1000000000"
definition Hour :: go_duration where "Hour = 3600 * 1000000000"

definition time_Unix :: "go_time \<Rightarrow> int" where
  "time_Unix t = t div Second"

definition time_Truncate :: "go_time \<Rightarrow> go_duration \<Rightarrow> go_time" where
  "time_Truncate t d = (if d \<le> 0 then t else t - t mod d)"

section \<open>Integers in decimal\<close>

definition is_digit :: "char \<Rightarrow> bool" where
  "is_digit c \<longleftrightarrow> 48 \<le> (of_char c :: int) \<and> (of_char c :: int) \<le> 57"

fun parse_digits :: "int \<Rightarrow> string \<Rightarrow> int option" where
  "parse_digits acc [] = Some acc"
| "parse_digits acc (c # cs) =
     (if is_digit c then parse_digits (10 * acc + (of_char c - 48)) cs else None)"

definition parse_uint :: "string \<Rightarrow> int option" where
  "parse_uint s = (if s = [] then None else parse_digits 0 s)"

definition ParseInt64 :: "string \<Rightarrow> int option" where
  "ParseInt64 s =
     (case s of
        [] \<Rightarrow> None
      | c # cs \<Rightarrow>
          (let neg = (c = CHR ''-''); rest = (if c = CHR ''-'' \<or> c = CHR ''+'' then cs else s) in
           case parse_uint rest of
             None \<Rightarrow> None
           | Some n \<Rightarrow> if neg then (if n > 2 ^ 63 then None else Some (- n))
                       else (if n \<ge> 2 ^ 63 then None else Some n)))"

definition Atoi :: "string \<Rightarrow> int option" where
  "Atoi s = ParseInt64 s"

section \<open>Strings\<close>

definition HasSuffix :: "string \<Rightarrow> string \<Rightarrow> bool" where
  "HasSuffix s suf \<longleftrightarrow> suffix suf s"

definition TrimSuffix :: "string \<Rightarrow> string \<Rightarrow> string" where
  "TrimSuffix s suf = (if HasSuffix s suf then take (length s - length suf) s else s)"

definition envString :: "env \<Rightarrow> string \<Rightarrow> string \<Rightarrow> string" where
  "envString e key def = (if e key \<noteq> [] then e key else def)"

text \<open>\<^verbatim>\<open>t.AddDate(0, 0, n)\<close> of a UTC time: \<^verbatim>\<open>time.Date\<close> counts the days and the seconds of the day in 64-bit arithmetic
  that wraps around; the nanoseconds are kept.\<close>

definition time_AddDays :: "go_time \<Rightarrow> int \<Rightarrow> go_time" where
  "time_AddDays t n = wrap64 (time_Unix t + n * 86400) * Second + t mod Second"

section \<open>Lemmas\<close>

lemma time_AddDays_exact:
  assumes "in_int64 (time_Unix t + n * 86400)"
  shows "time_AddDays t n = t + n * (24 * Hour)"
proof -
  have "time_AddDays t n = (time_Unix t * Second + t mod Second) + n * (86400 * Second)"
    using assms by (simp add: time_AddDays_def wrap64_id algebra_simps)
  also have "time_Unix t * Second + t mod Second = t" by (simp add: time_Unix_def)
  finally show ?thesis by (simp add: Hour_def Second_def)
qed

lemma Hour_pos [simp]: "0 < Hour" and Second_pos [simp]: "0 < Second" and Minute_pos [simp]: "0 < Minute"
  by (simp_all add: Hour_def Second_def Minute_def)

lemma TrimSuffix_append [simp]: "TrimSuffix (s @ suf) suf = s"
  by (simp add: TrimSuffix_def HasSuffix_def suffix_def)

lemma TrimSuffix_inj:
  "HasSuffix s suf \<Longrightarrow> HasSuffix t suf \<Longrightarrow> TrimSuffix s suf = TrimSuffix t suf \<Longrightarrow> s = t"
  by (auto simp: HasSuffix_def suffix_def)

lemma ParseInt64_range: "ParseInt64 s = Some n \<Longrightarrow> in_int64 n"
proof -
  have nonneg: "0 \<le> acc \<Longrightarrow> parse_digits acc cs = Some v \<Longrightarrow> 0 \<le> v" for acc cs v
  proof (induction cs arbitrary: acc)
    case (Cons c cs)
    from Cons.prems have "is_digit c" "parse_digits (10 * acc + (of_char c - 48)) cs = Some v"
      by (auto split: if_splits)
    moreover from this(1) Cons.prems(1) have "0 \<le> 10 * acc + (of_char c - 48)"
      unfolding is_digit_def by linarith
    ultimately show ?case using Cons.IH by blast
  qed simp
  have "0 \<le> v" if "parse_uint cs = Some v" for cs v
    using that nonneg[of 0 cs v] by (auto simp: parse_uint_def split: if_splits)
  then show "ParseInt64 s = Some n \<Longrightarrow> in_int64 n"
    by (fastforce simp: ParseInt64_def in_int64_def Let_def split: list.splits option.splits if_splits)
qed

lemma time_Truncate_bounds:
  "0 < d \<Longrightarrow> time_Truncate t d \<le> t \<and> t < time_Truncate t d + d \<and> time_Truncate t d mod d = 0"
  using mod_diff_interval[of d t] by (simp add: time_Truncate_def minus_mod_eq_mult_div)

text \<open>Decimal notation, the inverse of parsing.\<close>

fun digits_of :: "nat \<Rightarrow> string" where
  "digits_of n = (if n < 10 then [char_of (48 + n)] else digits_of (n div 10) @ [char_of (48 + n mod 10)])"

declare digits_of.simps [simp del]

definition itoa :: "int \<Rightarrow> string" where
  "itoa n = (if n < 0 then CHR ''-'' # digits_of (nat (- n)) else digits_of (nat n))"

lemma of_char_digit: "d < 10 \<Longrightarrow> (of_char (char_of (48 + d :: nat) :: char) :: int) = 48 + int d"
proof -
  assume "d < 10"
  then have "(of_char (char_of (48 + d) :: char) :: nat) = 48 + d" by simp
  then show ?thesis by (metis of_nat_add of_nat_numeral of_nat_of_char)
qed

lemma parse_digits_append:
  "parse_digits acc (xs @ ys) = Option.bind (parse_digits acc xs) (\<lambda>a. parse_digits a ys)"
  by (induction xs arbitrary: acc) auto

lemma parse_digits_of: "parse_digits 0 (digits_of n) = Some (int n)"
proof (induction n rule: digits_of.induct)
  case (1 n)
  show ?case
  proof (cases "n < 10")
    case True
    then show ?thesis by (subst digits_of.simps) (simp add: is_digit_def of_char_digit)
  next
    case False
    have "n mod 10 < 10" by simp
    with 1[OF False] False show ?thesis
      by (subst digits_of.simps) (simp add: parse_digits_append is_digit_def of_char_digit zdiv_int zmod_int)
  qed
qed

lemma digits_of_ne: "digits_of n \<noteq> []"
  by (subst digits_of.simps) simp

lemma digits_of_hd: "is_digit (hd (digits_of n))"
proof -
  obtain c cs where "digits_of n = c # cs" using digits_of_ne by (cases "digits_of n") auto
  then show ?thesis using parse_digits_of[of n] by (auto split: if_splits)
qed

lemma ParseInt64_itoa: "in_int64 n \<Longrightarrow> ParseInt64 (itoa n) = Some n"
proof -
  assume n: "in_int64 n"
  have sign: "\<not> is_digit (CHR ''-'')" "\<not> is_digit (CHR ''+'')" by (simp_all add: is_digit_def)
  obtain c cs where d: "digits_of (nat n) = c # cs" using digits_of_ne by (cases "digits_of (nat n)") auto
  then have "is_digit c" using digits_of_hd[of "nat n"] by simp
  then have "c \<noteq> CHR ''-''" "c \<noteq> CHR ''+''" using sign by auto
  with n d parse_digits_of[of "nat n"] parse_digits_of[of "nat (- n)"] digits_of_ne[of "nat (- n)"]
  show ?thesis
    by (auto simp: itoa_def ParseInt64_def parse_uint_def in_int64_def Let_def)
qed

lemma digits_of_inj: "digits_of m = digits_of n \<Longrightarrow> m = n"
  by (metis of_nat_eq_iff option.inject parse_digits_of)

lemma itoa_inj: "itoa m = itoa n \<Longrightarrow> m = n"
proof -
  have sign: "digits_of k \<noteq> CHR ''-'' # cs" for k cs
  proof
    assume "digits_of k = CHR ''-'' # cs"
    then have "is_digit (CHR ''-'')" using digits_of_hd[of k] by (metis list.sel(1))
    then show False by (simp add: is_digit_def)
  qed
  assume eq: "itoa m = itoa n"
  consider "m < 0" "n < 0" | "m < 0" "0 \<le> n" | "0 \<le> m" "n < 0" | "0 \<le> m" "0 \<le> n" by linarith
  then show "m = n"
  proof cases
    case 1
    then have "nat (- m) = nat (- n)" using eq by (intro digits_of_inj) (simp add: itoa_def)
    then show ?thesis using 1 by simp
  next
    case 4
    then have "nat m = nat n" using eq by (intro digits_of_inj) (simp add: itoa_def)
    then show ?thesis using 4 by simp
  qed (use eq sign in \<open>simp_all add: itoa_def, metis+\<close>)
qed

end
