(* ===== verification/Retention.thy ===== *)
theory Retention
  imports Store_Machine Go_Stdlib
begin

text \<open>
  \<^verbatim>\<open>internal/retention\<close>: configuration, one retention pass (\<open>runOnce\<close>) and the ticker loop
  (\<open>Run\<close>), over any implementation of the package's \<^verbatim>\<open>DataStore\<close> interface. The interface is the
  locale \<open>retention_store\<close>; the client lemmas are proved in it once and reach the properties through
  the interpretation on \<^const>\<open>DeleteEventsOlderThan\<close>. The loop is driven by a script of what its
  \<^verbatim>\<open>select\<close> receives; a script that ends without a cancellation is a loop still waiting.
\<close>

section \<open>Definitions\<close>

record RetentionConfig =
  rc_Interval :: go_duration
  rc_RetentionDays :: int

definition retention_envDuration ::
  "(string \<Rightarrow> go_duration option) \<Rightarrow> env \<Rightarrow> string \<Rightarrow> go_duration \<Rightarrow> go_duration" where
  "retention_envDuration ParseDuration e key def =
     (let v = e key in
      if v = [] then def
      else case ParseDuration v of
        None \<Rightarrow> def
      | Some d \<Rightarrow> if d \<le> 0 then def else d)"

definition envInt :: "env \<Rightarrow> string \<Rightarrow> int \<Rightarrow> int" where
  "envInt e key def =
     (let v = e key in
      if v = [] then def
      else case Atoi v of
        None \<Rightarrow> def
      | Some n \<Rightarrow> if n \<le> 0 then def else n)"

definition RetentionConfigFromEnv :: "(string \<Rightarrow> go_duration option) \<Rightarrow> env \<Rightarrow> RetentionConfig" where
  "RetentionConfigFromEnv ParseDuration e =
     \<lparr>rc_Interval = retention_envDuration ParseDuration e ''ANALYTICS_RETENTION_INTERVAL'' Hour,
      rc_RetentionDays = envInt e ''ANALYTICS_RETENTION_DAYS'' 7\<rparr>"

record retention_metrics =
  rm_success :: nat
  rm_failure :: nat
  rm_deletedRows :: nat
  rm_lastSuccess :: int
  rm_durations :: "go_duration list"

text \<open>The operation of the package's \<^verbatim>\<open>DataStore\<close> interface.\<close>

type_synonym 's delete_op = "faults \<Rightarrow> go_time \<Rightarrow> 's \<Rightarrow> (store_error + nat) \<times> 's"

definition retention_cutoff :: "RetentionConfig \<Rightarrow> go_time \<Rightarrow> go_time" where
  "retention_cutoff cfg start = time_AddDays start (- rc_RetentionDays cfg)"

definition runOnce ::
  "'s delete_op \<Rightarrow> RetentionConfig \<Rightarrow> go_time \<Rightarrow> go_duration \<Rightarrow> faults \<Rightarrow> 's \<times> retention_metrics
   \<Rightarrow> 's \<times> retention_metrics" where
  "runOnce del cfg start duration f sm =
     (let (s, m) = sm;
          cutoff = retention_cutoff cfg start;
          (res, s') = del f cutoff s;
          m1 = m\<lparr>rm_durations := rm_durations m @ [duration]\<rparr>
      in case res of
           Inl _ \<Rightarrow> (s', m1\<lparr>rm_failure := rm_failure m1 + 1\<rparr>)
         | Inr deleted \<Rightarrow>
             (s', m1\<lparr>rm_success := rm_success m1 + 1,
                     rm_deletedRows := rm_deletedRows m1 + deleted,
                     rm_lastSuccess := time_Unix start\<rparr>))"

text \<open>What the \<^verbatim>\<open>select\<close> of the loop receives: a tick (with the clock reading, the duration and the
  faults of the pass it starts) or the cancellation.\<close>

datatype retention_input = Tick go_time go_duration faults | CtxDone

datatype loop_status = Running | Returned | Panicked

fun retention_loop ::
  "'s delete_op \<Rightarrow> RetentionConfig \<Rightarrow> retention_input list \<Rightarrow> 's \<times> retention_metrics
   \<Rightarrow> loop_status \<times> 's \<times> retention_metrics" where
  "retention_loop del cfg [] sm = (Running, sm)"
| "retention_loop del cfg (CtxDone # ins) sm = (Returned, sm)"
| "retention_loop del cfg (Tick start duration f # ins) sm =
     retention_loop del cfg ins (runOnce del cfg start duration f sm)"

text \<open>\<^verbatim>\<open>time.NewTicker\<close> panics for an interval that is not positive.\<close>

definition RetentionRun ::
  "'s delete_op \<Rightarrow> RetentionConfig \<Rightarrow> go_time \<Rightarrow> go_duration \<Rightarrow> faults \<Rightarrow> retention_input list
   \<Rightarrow> 's \<times> retention_metrics \<Rightarrow> loop_status \<times> 's \<times> retention_metrics" where
  "RetentionRun del cfg start duration f ins sm =
     (let sm1 = runOnce del cfg start duration f sm in
      if rc_Interval cfg \<le> 0 then (Panicked, sm1) else retention_loop del cfg ins sm1)"

definition RunOnce ::
  "'s delete_op \<Rightarrow> RetentionConfig \<Rightarrow> go_time \<Rightarrow> go_duration \<Rightarrow> faults \<Rightarrow> 's \<times> retention_metrics
   \<Rightarrow> 's \<times> retention_metrics" where
  "RunOnce del cfg start duration f sm = runOnce del cfg start duration f sm"

text \<open>The clock readings of the passes a script starts.\<close>

fun tick_starts :: "retention_input list \<Rightarrow> go_time list" where
  "tick_starts [] = []"
| "tick_starts (CtxDone # ins) = []"
| "tick_starts (Tick start d f # ins) = start # tick_starts ins"

text \<open>The passes the metrics have counted.\<close>

definition passes :: "retention_metrics \<Rightarrow> nat" where
  "passes m = rm_success m + rm_failure m"

section \<open>The interface\<close>

text \<open>
  What a store promises to the retention job: the raw events older than the cutoff go (on success,
  or when only the acknowledgement was lost), the reported number is theirs, everything else stays.
\<close>

locale retention_store =
  fixes enc :: "go_time \<Rightarrow> pg_time" and del :: "'s delete_op"
    and raw :: "'s \<Rightarrow> item_event_row list" and other :: "'s \<Rightarrow> 'o"
  assumes del_other: "del f c s = (r, s') \<Longrightarrow> other s' = other s"
    and del_ok: "del f c s = (Inr n, s') \<Longrightarrow>
      raw s' = filter (\<lambda>x. enc c \<le> ie_time x) (raw s) \<and> n + length (raw s') = length (raw s)"
    and del_err: "del f c s = (Inl e, s') \<Longrightarrow>
      raw s' = raw s \<or> raw s' = filter (\<lambda>x. enc c \<le> ie_time x) (raw s)"
begin

lemma runOnce_other: "other (fst (runOnce del cfg start d f sm)) = other (fst sm)"
  by (auto simp: runOnce_def Let_def case_prod_beta del_other[OF surjective_pairing] split: sum.splits)

lemma runOnce_raw:
  "raw (fst (runOnce del cfg start d f sm)) = raw (fst sm) \<or>
   raw (fst (runOnce del cfg start d f sm)) =
     filter (\<lambda>x. enc (retention_cutoff cfg start) \<le> ie_time x) (raw (fst sm))"
proof -
  obtain r s' where del: "del f (retention_cutoff cfg start) (fst sm) = (r, s')" by fastforce
  then have s': "fst (runOnce del cfg start d f sm) = s'"
    by (auto simp: runOnce_def Let_def case_prod_beta split: sum.splits)
  show ?thesis
  proof (cases r)
    case (Inl e)
    then show ?thesis using del_err del s' by blast
  next
    case (Inr n)
    then show ?thesis using del_ok del s' by blast
  qed
qed

lemma loop_other: "other (fst (snd (retention_loop del cfg ins sm))) = other (fst sm)"
proof (induction ins arbitrary: sm)
  case (Cons i ins)
  then show ?case by (cases i) (simp_all add: runOnce_other)
qed simp

lemma runOnce_keeps:
  "x \<in> set (raw (fst sm)) \<Longrightarrow> enc (retention_cutoff cfg start) \<le> ie_time x \<Longrightarrow>
   x \<in> set (raw (fst (runOnce del cfg start d f sm)))"
  using runOnce_raw[of cfg start d f sm] by auto

lemma loop_keeps:
  "x \<in> set (raw (fst sm)) \<Longrightarrow> (\<And>t. t \<in> set (tick_starts ins) \<Longrightarrow> enc (retention_cutoff cfg t) \<le> ie_time x) \<Longrightarrow>
   x \<in> set (raw (fst (snd (retention_loop del cfg ins sm))))"
proof (induction ins arbitrary: sm)
  case (Cons i ins)
  show ?case
  proof (cases i)
    case (Tick t d f)
    with Cons.prems have "x \<in> set (raw (fst (runOnce del cfg t d f sm)))" by (intro runOnce_keeps) auto
    with Tick Cons show ?thesis by simp
  qed (use Cons.prems in simp)
qed simp

text \<open>Metrics: every pass is counted once, and the deleted rows are never over-reported.\<close>

lemma runOnce_metrics:
  "passes (snd (runOnce del cfg start d f sm)) = passes (snd sm) + 1 \<and>
   rm_deletedRows (snd (runOnce del cfg start d f sm)) + length (raw (fst (runOnce del cfg start d f sm)))
     \<le> rm_deletedRows (snd sm) + length (raw (fst sm))"
proof -
  obtain r s' where del: "del f (retention_cutoff cfg start) (fst sm) = (r, s')" by fastforce
  show ?thesis
  proof (cases r)
    case (Inl e)
    then have "length (raw s') \<le> length (raw (fst sm))" using del_err del by (metis length_filter_le order_refl)
    with del Inl show ?thesis by (simp add: runOnce_def Let_def case_prod_beta passes_def)
  next
    case (Inr n)
    then have "n + length (raw s') = length (raw (fst sm))" using del_ok del by blast
    with del Inr show ?thesis by (simp add: runOnce_def Let_def case_prod_beta passes_def)
  qed
qed

lemma loop_metrics:
  "passes (snd (snd (retention_loop del cfg ins sm))) = passes (snd sm) + length (tick_starts ins) \<and>
   rm_deletedRows (snd (snd (retention_loop del cfg ins sm))) + length (raw (fst (snd (retention_loop del cfg ins sm))))
     \<le> rm_deletedRows (snd sm) + length (raw (fst sm))"
proof (induction ins arbitrary: sm)
  case (Cons i ins)
  show ?case
  proof (cases i)
    case (Tick t d f)
    then show ?thesis using Cons[of "runOnce del cfg t d f sm"] runOnce_metrics[of cfg t d f sm] by simp
  qed simp
qed simp

end

text \<open>The store provides the interface.\<close>

definition retention_frame :: "db \<Rightarrow> bucket_row list \<times> current_item_row list \<times> seed_marker_row list" where
  "retention_frame db = (event_buckets db, current_items db, seed_marker db)"

interpretation store_ret: retention_store "pg_enc P" "DeleteEventsOlderThan P" item_events retention_frame for P
proof unfold_locales
  show "retention_frame s' = retention_frame s" if "DeleteEventsOlderThan P f c s = (r, s')" for f c s r s'
    using that by (auto elim!: DeleteEventsOlderThan_cases simp: retention_frame_def)
  show "item_events s' = filter (\<lambda>x. pg_enc P c \<le> ie_time x) (item_events s) \<and>
      n + length (item_events s') = length (item_events s)"
    if "DeleteEventsOlderThan P f c s = (Inr n, s')" for f c s n s'
    using that sum_length_filter_compl[of "\<lambda>x. ie_time x < pg_enc P c" "item_events s"]
    by (auto elim!: DeleteEventsOlderThan_cases simp: not_less)
  show "item_events s' = item_events s \<or> item_events s' = filter (\<lambda>x. pg_enc P c \<le> ie_time x) (item_events s)"
    if "DeleteEventsOlderThan P f c s = (Inl e, s')" for f c s e s'
    using that by (auto elim!: DeleteEventsOlderThan_cases simp: not_less)
qed

section \<open>Properties\<close>

lemma RetentionConfigFromEnv_bounds:
  "0 < rc_Interval (RetentionConfigFromEnv ParseDuration e) \<and>
   0 < rc_RetentionDays (RetentionConfigFromEnv ParseDuration e)"
  by (auto simp: RetentionConfigFromEnv_def retention_envDuration_def envInt_def Let_def split: option.splits)

lemma retention_loop_not_panicked: "fst (retention_loop del cfg ins sm) \<noteq> Panicked"
  by (induction del cfg ins sm rule: retention_loop.induct) simp_all

lemma retention_cutoff_exact:
  assumes "in_int64 (time_Unix t - rc_RetentionDays cfg * 86400)"
  shows "retention_cutoff cfg t = t - rc_RetentionDays cfg * (24 * Hour)"
  using time_AddDays_exact[of t "- rc_RetentionDays cfg"] assms by (simp add: retention_cutoff_def)

text \<open>Whatever the environment holds, the configuration read from it has a positive interval and a
  positive horizon; hence the retention loop never panics in NewTicker, and as long as the horizon is within the
  range of a time its cutoff lies before the clock reading of the pass, so it cannot expire the present.\<close>
theorem RetentionConfigFromEnv_safe:
  assumes "in_int64 (time_Unix t - rc_RetentionDays (RetentionConfigFromEnv ParseDuration e) * 86400)"
  shows "fst (RetentionRun del (RetentionConfigFromEnv ParseDuration e) start d f ins sm) \<noteq> Panicked
   \<and> retention_cutoff (RetentionConfigFromEnv ParseDuration e) t < t"
  using RetentionConfigFromEnv_bounds[of ParseDuration e]
  by (auto simp: RetentionRun_def Let_def retention_loop_not_panicked retention_cutoff_exact[OF assms])

theorem RetentionConfigFromEnv_safe_witness:
  "retention_cutoff (RetentionConfigFromEnv (\<lambda>_. None) (\<lambda>_. [])) (1750000000 * Second) < 1750000000 * Second"
proof -
  have "in_int64 (time_Unix (1750000000 * Second) - rc_RetentionDays (RetentionConfigFromEnv (\<lambda>_. None) (\<lambda>_. [])) * 86400)"
    by (simp add: RetentionConfigFromEnv_def envInt_def in_int64_def time_Unix_def Second_def)
  from RetentionConfigFromEnv_safe[OF this] show ?thesis by blast
qed

text \<open>C39: the check of the configured horizon does not keep the retention job from deleting live data, which is what its
  comment says it is for. Only a horizon below one day is rejected; for 2^57 days, a number that the environment may hold, the
  date arithmetic wraps around to the clock reading itself, and one pass removes every event from before now.\<close>
theorem retention_days_overflow:
  assumes "e ''ANALYTICS_RETENTION_DAYS'' = ''144115188075855872''" "in_int64 (time_Unix now)"
  shows "rc_RetentionDays (RetentionConfigFromEnv ParseDuration e) = 2 ^ 57
    \<and> retention_cutoff (RetentionConfigFromEnv ParseDuration e) now = now
    \<and> item_events (fst (runOnce (DeleteEventsOlderThan P) (RetentionConfigFromEnv ParseDuration e) now d no_faults (db, m)))
        = filter (\<lambda>x. pg_enc P now \<le> ie_time x) (item_events db)"
proof -
  let ?cfg = "RetentionConfigFromEnv ParseDuration e"
  have "Atoi ''144115188075855872'' = Some (2 ^ 57)"
    by (simp add: Atoi_def ParseInt64_def parse_uint_def is_digit_def)
  then have days: "rc_RetentionDays ?cfg = 2 ^ 57"
    using assms(1) by (simp add: RetentionConfigFromEnv_def envInt_def)
  have "wrap64 (time_Unix now + - (2 ^ 57) * 86400) = wrap64 (time_Unix now)"
  proof -
    have "time_Unix now + - (2 ^ 57) * 86400 + 2 ^ 63 = time_Unix now + 2 ^ 63 + (- 675) * (2 ^ 64)" by simp
    then show ?thesis unfolding wrap64_def by (simp only: mod_mult_self1)
  qed
  then have "retention_cutoff ?cfg now = now"
    using assms(2) by (simp add: retention_cutoff_def time_AddDays_def days wrap64_id time_Unix_def)
  with days show ?thesis
    by (simp add: runOnce_def Let_def DeleteEventsOlderThan_def delete_where_def not_less)
qed

theorem retention_days_overflow_witness:
  "retention_cutoff (RetentionConfigFromEnv (\<lambda>_. None) (\<lambda>_. ''144115188075855872'')) (1750000000 * Second) = 1750000000 * Second"
  by (rule retention_days_overflow[THEN conjunct2, THEN conjunct1]) (simp_all add: in_int64_def time_Unix_def Second_def)

text \<open>C29: the retention loop over the real store, whatever faults its deletes hit: a raw event younger
  than the horizon at the latest pass is never deleted, and the buckets, current items and marker
  are untouched, as long as the horizon is within the range of a time at every pass.\<close>
theorem RetentionRun_keeps_recent:
  assumes "codec_ok P" "\<forall>t \<in> set (start # tick_starts ins). t \<le> now \<and> in_int64 (time_Unix t - rc_RetentionDays cfg * 86400)"
    and "x \<in> set (item_events db)" "pg_enc P (now - rc_RetentionDays cfg * (24 * Hour)) \<le> ie_time x"
    and "RetentionRun (DeleteEventsOlderThan P) cfg start d f ins (db, m) = (st, db', m')"
  shows "x \<in> set (item_events db') \<and> event_buckets db' = event_buckets db
    \<and> current_items db' = current_items db \<and> seed_marker db' = seed_marker db"
proof -
  have cut: "pg_enc P (retention_cutoff cfg t) \<le> ie_time x" if "t \<in> set (start # tick_starts ins)" for t
  proof -
    have "retention_cutoff cfg t \<le> now - rc_RetentionDays cfg * (24 * Hour)"
      using assms(2) that by (auto simp: retention_cutoff_exact)
    then have "pg_enc P (retention_cutoff cfg t) \<le> pg_enc P (now - rc_RetentionDays cfg * (24 * Hour))"
      using assms(1) by (simp add: codec_ok_def monoD)
    with assms(4) show ?thesis by simp
  qed
  let ?sm = "runOnce (DeleteEventsOlderThan P) cfg start d f (db, m)"
  have 1: "x \<in> set (item_events (fst ?sm))" using assms(3) cut by (intro store_ret.runOnce_keeps) auto
  have "x \<in> set (item_events (fst (snd (retention_loop (DeleteEventsOlderThan P) cfg ins ?sm))))"
    using 1 by (rule store_ret.loop_keeps) (simp add: cut)
  moreover have "retention_frame (fst (snd (retention_loop (DeleteEventsOlderThan P) cfg ins ?sm))) = retention_frame db"
    by (simp add: store_ret.loop_other store_ret.runOnce_other)
  moreover have "retention_frame (fst ?sm) = retention_frame db" by (simp add: store_ret.runOnce_other)
  ultimately show ?thesis
    using assms(5) 1 by (auto simp: RetentionRun_def Let_def retention_frame_def split: if_splits)
qed

theorem RetentionRun_keeps_recent_witness:
  "\<exists>x st db' m'. RetentionRun (DeleteEventsOlderThan pgx_us) \<lparr>rc_Interval = Hour, rc_RetentionDays = 7\<rparr>
       (8 * 24 * Hour) 5 no_faults [Tick (9 * 24 * Hour) 5 no_faults, CtxDone]
       (batch_effect pgx_us [\<lparr>ev_ItemID = 1, ev_ItemName = ''w'', ev_EventType = ''created'',
          ev_EventTime = 3 * 24 * Hour\<rparr>] empty_db,
        \<lparr>rm_success = 0, rm_failure = 0, rm_deletedRows = 0, rm_lastSuccess = 0, rm_durations = []\<rparr>) = (st, db', m')
     \<and> x \<in> set (item_events db')"
proof -
  define ev :: EventRecord where "ev = \<lparr>ev_ItemID = 1, ev_ItemName = ''w'', ev_EventType = ''created'',
    ev_EventTime = 3 * 24 * Hour\<rparr>"
  define cfg where "cfg = \<lparr>rc_Interval = Hour, rc_RetentionDays = 7\<rparr>"
  define m :: retention_metrics where "m = \<lparr>rm_success = 0, rm_failure = 0, rm_deletedRows = 0,
    rm_lastSuccess = 0, rm_durations = []\<rparr>"
  obtain st db' m' where run: "RetentionRun (DeleteEventsOlderThan pgx_us) cfg (8 * 24 * Hour) 5 no_faults
      [Tick (9 * 24 * Hour) 5 no_faults, CtxDone] (batch_effect pgx_us [ev] empty_db, m) = (st, db', m')"
    by (meson prod_cases3)
  have x: "event_row pgx_us ev \<in> set (item_events (batch_effect pgx_us [ev] empty_db))"
    by (simp add: batch_effect_def batch_new_def empty_db_def)
  have "event_row pgx_us ev \<in> set (item_events db')"
    using RetentionRun_keeps_recent[OF codec_ok_us _ x _ run, of "9 * 24 * Hour"]
    by (simp add: cfg_def ev_def Hour_def Second_def time_Unix_def in_int64_def)
  with run show ?thesis unfolding cfg_def ev_def m_def by blast
qed

text \<open>The retention metrics over the real store: every pass (the immediate one and one per tick) is counted
  once, as a success or as a failure, and the deleted-rows counter never exceeds the number of rows that
  are gone.\<close>
theorem RetentionRun_metrics:
  assumes "0 < rc_Interval cfg"
    and "RetentionRun (DeleteEventsOlderThan P) cfg start d f ins (db, m) = (st, db', m')"
  shows "passes m' = passes m + 1 + length (tick_starts ins)
    \<and> rm_deletedRows m' + length (item_events db') \<le> rm_deletedRows m + length (item_events db)"
proof -
  let ?sm = "runOnce (DeleteEventsOlderThan P) cfg start d f (db, m)"
  have "retention_loop (DeleteEventsOlderThan P) cfg ins ?sm = (st, db', m')"
    using assms by (simp add: RetentionRun_def Let_def)
  with store_ret.runOnce_metrics[of P cfg start d f "(db, m)"] store_ret.loop_metrics[of P cfg ins ?sm]
  show ?thesis by simp
qed

theorem RetentionRun_metrics_witness:
  "\<exists>st db' m'. RetentionRun (DeleteEventsOlderThan pgx_us) \<lparr>rc_Interval = Hour, rc_RetentionDays = 7\<rparr>
       (8 * 24 * Hour) 5 (\<lambda>_. Failed) [Tick (9 * 24 * Hour) 5 no_faults, CtxDone]
       (empty_db, \<lparr>rm_success = 0, rm_failure = 0, rm_deletedRows = 0, rm_lastSuccess = 0, rm_durations = []\<rparr>)
     = (st, db', m') \<and> passes m' = 2"
proof -
  let ?cfg = "\<lparr>rc_Interval = Hour, rc_RetentionDays = 7\<rparr>"
  let ?m = "\<lparr>rm_success = 0, rm_failure = 0, rm_deletedRows = 0, rm_lastSuccess = 0, rm_durations = []\<rparr>"
  obtain st db' m' where run: "RetentionRun (DeleteEventsOlderThan pgx_us) ?cfg (8 * 24 * Hour) 5 (\<lambda>_. Failed)
      [Tick (9 * 24 * Hour) 5 no_faults, CtxDone] (empty_db, ?m) = (st, db', m')"
    by (meson prod_cases3)
  have "0 < rc_Interval ?cfg" by simp
  from RetentionRun_metrics[OF this run] run show ?thesis by (auto simp: passes_def)
qed

section \<open>Invariants of a run\<close>

text \<open>Whatever a deletion preserves, the loop preserves.\<close>

locale delete_invariant =
  fixes del :: "'s delete_op" and I :: "'s \<Rightarrow> bool"
  assumes del_keeps: "I s \<Longrightarrow> I (snd (del f c s))"
begin

lemma once_keeps: "I (fst sm) \<Longrightarrow> I (fst (runOnce del cfg start d f sm))"
  using del_keeps[of "fst sm" f "retention_cutoff cfg start"]
  by (auto simp: runOnce_def Let_def split: prod.splits sum.splits)

lemma retention_keeps: "I (fst sm) \<Longrightarrow> I (fst (snd (retention_loop del cfg ins sm)))"
proof (induction ins arbitrary: sm)
  case (Cons i ins)
  then show ?case by (cases i) (simp_all add: once_keeps)
qed simp

lemma run_keeps: "I (fst sm) \<Longrightarrow> I (fst (snd (RetentionRun del cfg start d f ins sm)))"
  by (simp add: RetentionRun_def Let_def once_keeps retention_keeps)

end

interpretation retention_reach: delete_invariant "DeleteEventsOlderThan P" "db_reachable P" for P
  by unfold_locales (rule db_reachable_ops)

end
