(* ===== verification/Watermark.thy ===== *)
theory Watermark
  imports Go_Stdlib
begin

text \<open>
  The event-time watermark of \<^verbatim>\<open>internal/ingest/metrics.go\<close>: the atomic \<^verbatim>\<open>lastEventTimeUnix\<close> and the
  gauge \<^verbatim>\<open>lastEventTimeSeconds\<close>, advanced by a compare-and-swap loop. The loop is modelled at the
  grain of its atomic actions (load, compare-and-swap, gauge write), so that several goroutines
  may interleave; the sequential \<open>advanceLastEventTime\<close> is what the ingest client, the only caller,
  runs. The comment in the source claims the loop stays correct with several writers: the
  theorems show that this holds of the atomic and not of the gauge.
\<close>

section \<open>Definitions\<close>

record watermark =
  wm_unix :: int
  wm_gauge :: int

text \<open>Where a goroutine stands inside \<^verbatim>\<open>advanceLastEventTime\<close>.\<close>

datatype adv_pc = AtLoad int | AtCAS int int | AtSet int | AtReturn

text \<open>One atomic action of the goroutine.\<close>

fun adv_action :: "adv_pc \<Rightarrow> watermark \<Rightarrow> adv_pc \<times> watermark" where
  "adv_action (AtLoad next') w =
     (let current = wm_unix w in if next' \<le> current then AtReturn else AtCAS next' current, w)"
| "adv_action (AtCAS next' current) w =
     (if wm_unix w = current then (AtSet next', w\<lparr>wm_unix := next'\<rparr>) else (AtLoad next', w))"
| "adv_action (AtSet next') w = (AtReturn, w\<lparr>wm_gauge := next'\<rparr>)"
| "adv_action AtReturn w = (AtReturn, w)"

text \<open>The call as one goroutine runs it with no other writer.\<close>

definition advanceLastEventTime :: "go_time \<Rightarrow> watermark \<Rightarrow> watermark" where
  "advanceLastEventTime t w =
     (let next' = time_Unix t; current = wm_unix w in
      if next' \<le> current then w else w\<lparr>wm_unix := next', wm_gauge := next'\<rparr>)"

text \<open>Several goroutines, one action of one of them at a time.\<close>

inductive adv_step :: "adv_pc list \<times> watermark \<Rightarrow> adv_pc list \<times> watermark \<Rightarrow> bool" where
  adv_step: "i < length pcs \<Longrightarrow> adv_action (pcs ! i) w = (pc', w') \<Longrightarrow> adv_step (pcs, w) (pcs[i := pc'], w')"

inductive_cases adv_stepE: "adv_step (pcs, w) s'"

text \<open>A schedule names the goroutine of every action.\<close>

fun adv_run :: "nat list \<Rightarrow> adv_pc list \<times> watermark \<Rightarrow> adv_pc list \<times> watermark" where
  "adv_run [] s = s"
| "adv_run (i # is) (pcs, w) =
     (if i < length pcs then (let (pc', w') = adv_action (pcs ! i) w in adv_run is (pcs[i := pc'], w'))
      else adv_run is (pcs, w))"

section \<open>Lemmas\<close>

lemma adv_run_steps: "adv_step\<^sup>*\<^sup>* s (adv_run is s)"
proof (induction "is" s rule: adv_run.induct)
  case (2 i "is" pcs w)
  show ?case
  proof (cases "i < length pcs")
    case True
    obtain pc' w' where a: "adv_action (pcs ! i) w = (pc', w')" by fastforce
    with True have "adv_step (pcs, w) (pcs[i := pc'], w')" by (rule adv_step)
    also have "adv_step\<^sup>*\<^sup>* (pcs[i := pc'], w') (adv_run is (pcs[i := pc'], w'))" using 2(1) True a by simp
    finally (converse_rtranclp_into_rtranclp) show ?thesis using True a by simp
  next
    case False
    then show ?thesis using 2(2) by simp
  qed
qed simp

text \<open>The value a goroutine still has to get into the atomic.\<close>

fun pc_pending :: "adv_pc \<Rightarrow> int option" where
  "pc_pending (AtLoad n) = Some n"
| "pc_pending (AtCAS n c) = Some n"
| "pc_pending (AtSet n) = None"
| "pc_pending AtReturn = None"

text \<open>Relative to the start (values \<open>ns\<close>, atomic \<open>u\<close>): the atomic holds \<open>u\<close> or one of the values,
  every value is below the atomic or still pending at its own goroutine, a loaded value is smaller than the
  one to be written.\<close>

definition pc_ok :: "int \<Rightarrow> int \<Rightarrow> adv_pc \<Rightarrow> bool" where
  "pc_ok n u pc \<longleftrightarrow>
     (pc_pending pc = Some n \<or> (pc_pending pc = None \<and> n \<le> u)) \<and> (\<forall>m c. pc = AtCAS m c \<longrightarrow> c < m)"

definition adv_inv :: "int list \<Rightarrow> int \<Rightarrow> adv_pc list \<times> watermark \<Rightarrow> bool" where
  "adv_inv ns u s \<longleftrightarrow>
     (case s of (pcs, w) \<Rightarrow>
        length pcs = length ns \<and> u \<le> wm_unix w \<and> wm_unix w \<in> insert u (set ns) \<and>
        (\<forall>i < length ns. pc_ok (ns ! i) (wm_unix w) (pcs ! i)))"

lemma pc_ok_mono: "pc_ok n u pc \<Longrightarrow> u \<le> u' \<Longrightarrow> pc_ok n u' pc"
  by (auto simp: pc_ok_def)

lemma adv_action_ok:
  assumes "adv_action pc w = (pc', w')" "pc_ok n (wm_unix w) pc"
  shows "pc_ok n (wm_unix w') pc' \<and> wm_unix w \<le> wm_unix w' \<and> (wm_unix w' = wm_unix w \<or> wm_unix w' = n)"
  using assms by (cases pc) (auto simp: pc_ok_def Let_def split: if_splits)

lemma adv_inv_init: "wm_unix w = u \<Longrightarrow> adv_inv ns u (map AtLoad ns, w)"
  by (simp add: adv_inv_def pc_ok_def)

lemma adv_inv_step:
  assumes "adv_inv ns u s" "adv_step s s'"
  shows "adv_inv ns u s' \<and> wm_unix (snd s) \<le> wm_unix (snd s')"
proof -
  obtain pcs w where s: "s = (pcs, w)" by fastforce
  from assms(2)[unfolded s] obtain i pc' w' where i: "i < length pcs" "adv_action (pcs ! i) w = (pc', w')"
    and s': "s' = (pcs[i := pc'], w')" by (auto elim: adv_stepE)
  from assms(1) s have len: "length pcs = length ns" and ok: "\<And>j. j < length ns \<Longrightarrow> pc_ok (ns ! j) (wm_unix w) (pcs ! j)"
    by (simp_all add: adv_inv_def)
  have me: "pc_ok (ns ! i) (wm_unix w') pc'" "wm_unix w \<le> wm_unix w'" "wm_unix w' = wm_unix w \<or> wm_unix w' = ns ! i"
    using adv_action_ok[OF i(2) ok] i(1) len by auto
  have "pc_ok (ns ! j) (wm_unix w') (pcs[i := pc'] ! j)" if "j < length ns" for j
    using me ok[OF that] pc_ok_mono that len by (cases "j = i") auto
  moreover have "ns ! i \<in> set ns" using i len by simp
  ultimately show ?thesis using assms(1) s s' me(2,3) len by (auto simp: adv_inv_def)
qed

lemma adv_inv_steps: "adv_step\<^sup>*\<^sup>* s s' \<Longrightarrow> adv_inv ns u s \<Longrightarrow> adv_inv ns u s'"
  by (induction rule: rtranclp_induct) (blast dest: adv_inv_step)+

lemma adv_mono_steps:
  "adv_step\<^sup>*\<^sup>* s s' \<Longrightarrow> adv_inv ns u s \<Longrightarrow> wm_unix (snd s) \<le> wm_unix (snd s')"
proof (induction rule: rtranclp_induct)
  case (step s1 s2)
  then have "adv_inv ns u s1" using adv_inv_steps by blast
  with step adv_inv_step[of ns u s1 s2] show ?case by auto
qed simp

section \<open>Properties\<close>

text \<open>C26: with any number of goroutines in advanceLastEventTime and any interleaving of their atomic
  actions, the atomic watermark never moves back, and when all of them have returned it is the
  maximum of the value they started from and the event times they were given (in Unix seconds).\<close>
theorem watermark_concurrent_max:
  assumes "adv_step\<^sup>*\<^sup>* (map (\<lambda>t. AtLoad (time_Unix t)) ts, w0) (pcs, w)"
    and "adv_step\<^sup>*\<^sup>* (pcs, w) (pcs', w')"
  shows "wm_unix w \<le> wm_unix w'
    \<and> ((\<forall>pc \<in> set pcs'. pc = AtReturn) \<longrightarrow> wm_unix w' = Max (insert (wm_unix w0) (time_Unix ` set ts)))"
proof -
  let ?ns = "map time_Unix ts"
  have init: "adv_inv ?ns (wm_unix w0) (map (\<lambda>t. AtLoad (time_Unix t)) ts, w0)"
    using adv_inv_init[of w0 "wm_unix w0" ?ns] by (simp add: comp_def)
  from adv_inv_steps[OF assms(1) init] have mid: "adv_inv ?ns (wm_unix w0) (pcs, w)" .
  from adv_inv_steps[OF assms(2) mid] have fin: "adv_inv ?ns (wm_unix w0) (pcs', w')" .
  have "wm_unix w' = Max (insert (wm_unix w0) (time_Unix ` set ts))" if all: "\<forall>pc \<in> set pcs'. pc = AtReturn"
  proof (rule sym, rule Max_eqI)
    fix y assume "y \<in> insert (wm_unix w0) (time_Unix ` set ts)"
    then consider "y = wm_unix w0" | i where "i < length ts" "y = ?ns ! i"
      by (auto simp: in_set_conv_nth)
    then show "y \<le> wm_unix w'"
    proof cases
      case 2
      then have "pcs' ! i = AtReturn" using all fin by (simp add: adv_inv_def)
      then show ?thesis using fin 2 by (auto simp: adv_inv_def pc_ok_def)
    qed (use fin in \<open>simp add: adv_inv_def\<close>)
  qed (use fin in \<open>auto simp: adv_inv_def\<close>)
  then show ?thesis using adv_mono_steps[OF assms(2) mid] by simp
qed

theorem watermark_concurrent_max_witness:
  "wm_unix (snd (adv_run [0, 1, 1, 0, 0, 1] (map (\<lambda>t. AtLoad (time_Unix t)) [5 * Second, 9 * Second], \<lparr>wm_unix = 3, wm_gauge = 3\<rparr>))) = 9"
proof -
  let ?s = "(map (\<lambda>t. AtLoad (time_Unix t)) [5 * Second, 9 * Second], \<lparr>wm_unix = 3, wm_gauge = 3\<rparr>)"
  have fin: "fst (adv_run [0, 1, 1, 0, 0, 1] ?s) = [AtReturn, AtReturn]"
    by (simp add: time_Unix_def Second_def)
  have "adv_step\<^sup>*\<^sup>* ?s (fst (adv_run [0, 1, 1, 0, 0, 1] ?s), snd (adv_run [0, 1, 1, 0, 0, 1] ?s))"
    unfolding prod.collapse by (rule adv_run_steps)
  from watermark_concurrent_max[OF this rtranclp.rtrancl_refl] fin
  show ?thesis by (simp add: time_Unix_def Second_def)
qed

text \<open>A single caller, the case of the ingest client: run alone to its return, the loop is
  advanceLastEventTime, which keeps gauge and atomic equal and moves both to the event's second
  exactly when that is newer.\<close>
theorem advanceLastEventTime_sequential:
  "adv_run [0, 0, 0] ([AtLoad (time_Unix t)], w) = ([AtReturn], advanceLastEventTime t w)
   \<and> wm_unix (advanceLastEventTime t w) = max (wm_unix w) (time_Unix t)
   \<and> (wm_gauge w = wm_unix w \<longrightarrow> wm_gauge (advanceLastEventTime t w) = wm_unix (advanceLastEventTime t w))"
  by (auto simp: advanceLastEventTime_def Let_def max_def)

theorem advanceLastEventTime_sequential_witness:
  "wm_gauge (advanceLastEventTime (7 * Second) \<lparr>wm_unix = 3, wm_gauge = 3\<rparr>) = 7"
  using advanceLastEventTime_sequential[of "7 * Second" "\<lparr>wm_unix = 3, wm_gauge = 3\<rparr>"]
  by (simp add: time_Unix_def Second_def)

text \<open>With two callers the exported gauge is not a watermark: it is written after the
  compare-and-swap, so there is an interleaving in which it first shows the newer second and ends,
  with both calls returned, on the older one, below the atomic.\<close>
theorem watermark_gauge_regresses:
  "\<exists>ts mid w'. adv_step\<^sup>*\<^sup>* (map (\<lambda>t. AtLoad (time_Unix t)) ts, \<lparr>wm_unix = 0, wm_gauge = 0\<rparr>) mid
     \<and> adv_step\<^sup>*\<^sup>* mid ([AtReturn, AtReturn], w')
     \<and> wm_gauge w' < wm_gauge (snd mid) \<and> wm_gauge w' < wm_unix w'"
proof -
  let ?s = "(map (\<lambda>t. AtLoad (time_Unix t)) [5 * Second, 9 * Second], \<lparr>wm_unix = 0, wm_gauge = 0\<rparr>)"
  have mid: "adv_run [0, 0, 1, 1, 1] ?s = ([AtSet 5, AtReturn], \<lparr>wm_unix = 9, wm_gauge = 9\<rparr>)"
    by (simp add: time_Unix_def Second_def)
  have fin: "adv_run [0] ([AtSet 5, AtReturn], \<lparr>wm_unix = 9, wm_gauge = 9\<rparr>) =
      ([AtReturn, AtReturn], \<lparr>wm_unix = 9, wm_gauge = 5\<rparr>)" by simp
  have "adv_step\<^sup>*\<^sup>* ?s ([AtSet 5, AtReturn], \<lparr>wm_unix = 9, wm_gauge = 9\<rparr>)"
    using adv_run_steps[of ?s "[0, 0, 1, 1, 1]"] mid by simp
  moreover have "adv_step\<^sup>*\<^sup>* ([AtSet 5, AtReturn], \<lparr>wm_unix = 9, wm_gauge = 9\<rparr>)
      ([AtReturn, AtReturn], \<lparr>wm_unix = 9, wm_gauge = 5\<rparr>)"
    using adv_run_steps[of "([AtSet 5, AtReturn], \<lparr>wm_unix = 9, wm_gauge = 9\<rparr>)" "[0]"] fin by simp
  ultimately show ?thesis by (intro exI conjI) (assumption, assumption, simp_all)
qed

end
