(* ===== verification/Ingest.thy ===== *)
theory Ingest
  imports Store_Machine Watermark
begin

text \<open>
  \<^verbatim>\<open>internal/ingest\<close>: configuration, the equal-jitter backoff, the handling of one stream event, one
  connection cycle (dial, snapshot reconcile, event stream with same-event retries) and the
  reconnect loop. What the program receives from outside (the results of the gRPC calls, the
  cancellation of the context, the random jitter) is a script; a script that ends while the program
  waits leaves it \<open>Blocked\<close>. The events are records of what the generated getters return.

  The package's \<^verbatim>\<open>DataStore\<close> interface is a record of operations and the locale \<open>ingest_store\<close> is
  what it promises: an operation that fails has done nothing or all of its work, and ingesting an
  event twice is ingesting it once. The client lemmas are proved in it and interpreted on the store.
\<close>

section \<open>Configuration\<close>

record IngestConfig =
  ic_BackendAddr :: string
  ic_BackoffBase :: go_duration
  ic_BackoffMax :: go_duration

definition ingest_envDuration ::
  "(string \<Rightarrow> go_duration option) \<Rightarrow> env \<Rightarrow> string \<Rightarrow> go_duration \<Rightarrow> go_duration" where
  "ingest_envDuration ParseDuration e key def =
     (let v = e key in
      if v = [] then def
      else case ParseDuration v of None \<Rightarrow> def | Some d \<Rightarrow> d)"

definition IngestConfigFromEnv :: "(string \<Rightarrow> go_duration option) \<Rightarrow> env \<Rightarrow> IngestConfig" where
  "IngestConfigFromEnv ParseDuration e =
     \<lparr>ic_BackendAddr = envString e ''ANALYTICS_BACKEND_GRPC_ADDR'' ''localhost:50051'',
      ic_BackoffBase = ingest_envDuration ParseDuration e ''ANALYTICS_INGEST_BACKOFF_BASE'' Second,
      ic_BackoffMax = ingest_envDuration ParseDuration e ''ANALYTICS_INGEST_BACKOFF_MAX'' (30 * Second)\<rparr>"

section \<open>Backoff\<close>

definition backoff_delay :: "int \<Rightarrow> go_duration \<Rightarrow> go_duration \<Rightarrow> go_duration" where
  "backoff_delay attempt base maxDelay =
     (let attempt' = (if attempt < 1 then 1 else attempt);
          base' = (if base \<le> 0 then Second else base);
          maxDelay' = (if maxDelay \<le> 0 then 30 * Second else maxDelay);
          shift = min (attempt' - 1) 30;
          delay = wrap64 (base' * 2 ^ nat shift)
      in if delay \<le> 0 \<or> delay > maxDelay' then maxDelay' else delay)"

text \<open>\<open>rnd n\<close> is the value of \<^verbatim>\<open>rand.Int64N(n)\<close>.\<close>

definition backoffDuration :: "(int \<Rightarrow> int) \<Rightarrow> int \<Rightarrow> go_duration \<Rightarrow> go_duration \<Rightarrow> go_duration" where
  "backoffDuration rnd attempt base maxDelay =
     (let half = go_div (backoff_delay attempt base maxDelay) 2
      in wrap64 (half + rnd (half + 1)))"

definition rand_ok :: "(int \<Rightarrow> int) \<Rightarrow> bool" where
  "rand_ok rnd \<longleftrightarrow> (\<forall>n > 0. 0 \<le> rnd n \<and> rnd n < n)"

section \<open>Messages, metrics, errors, the store interface\<close>

record proto_item =
  pi_Id :: int
  pi_Name :: string

record ItemEvent =
  pe_EventType :: int
  pe_Item :: proto_item
  pe_EventTime :: go_time

record ingest_metrics =
  im_streamConnected :: int
  im_watermark :: watermark
  im_ingested :: "string \<Rightarrow> nat"
  im_deduplicated :: nat
  im_reconnects :: nat
  im_reconciles :: nat
  im_snapshotItems :: nat

datatype ingest_error =
    MalformedEvent int | PersistErr store_error
  | DialErr | ListItemsErr | ReconcileErr store_error | OpenStreamErr
  | StreamClosed | StreamRecvErr | CtxErr

record 's IngestDataStore =
  ds_ReconcileSnapshot :: "faults \<Rightarrow> SnapshotItem list \<Rightarrow> go_time \<Rightarrow> 's \<Rightarrow> (store_error + nat \<times> nat) \<times> 's"
  ds_IngestEvent :: "faults \<Rightarrow> EventRecord \<Rightarrow> 's \<Rightarrow> (store_error + bool) \<times> 's"

text \<open>The enum values are those of \<^verbatim>\<open>items.proto\<close>.\<close>

definition eventTypeNames :: "int \<Rightarrow> string option" where
  "eventTypeNames = [1 \<mapsto> ''created'', 2 \<mapsto> ''updated'', 3 \<mapsto> ''deleted'']"

section \<open>One event\<close>

definition handle_record :: "ItemEvent \<Rightarrow> string \<Rightarrow> EventRecord" where
  "handle_record event eventType =
     \<lparr>ev_ItemID = pi_Id (pe_Item event), ev_ItemName = pi_Name (pe_Item event),
      ev_EventType = eventType, ev_EventTime = pe_EventTime event\<rparr>"

definition handleEvent ::
  "'s IngestDataStore \<Rightarrow> faults \<Rightarrow> ItemEvent \<Rightarrow> 's \<times> ingest_metrics \<Rightarrow> ingest_error option \<times> 's \<times> ingest_metrics" where
  "handleEvent D f event sm =
     (case eventTypeNames (pe_EventType event) of
        None \<Rightarrow> (Some (MalformedEvent (pe_EventType event)), sm)
      | Some eventType \<Rightarrow>
          (let (s, m) = sm; ev = handle_record event eventType;
               (res, s') = ds_IngestEvent D f ev s
           in case res of
                Inl e \<Rightarrow> (Some (PersistErr e), s', m)
              | Inr inserted \<Rightarrow>
                  (None, s',
                   if inserted
                   then m\<lparr>im_ingested := (im_ingested m)(eventType := im_ingested m eventType + 1),
                          im_watermark := advanceLastEventTime (ev_EventTime ev) (im_watermark m)\<rparr>
                   else m\<lparr>im_deduplicated := im_deduplicated m + 1\<rparr>)))"

section \<open>The stream loop\<close>

text \<open>One try at persisting an event: the faults it meets and, if it fails, whether the context is
  cancelled during the pause that follows.\<close>

record attempt =
  at_faults :: faults
  at_cancelled :: bool

datatype retry_result = Handled | Cancelled | Retrying

fun retry_event ::
  "'s IngestDataStore \<Rightarrow> ItemEvent \<Rightarrow> attempt list \<Rightarrow> 's \<times> ingest_metrics \<Rightarrow> retry_result \<times> 's \<times> ingest_metrics" where
  "retry_event D event [] sm = (Retrying, sm)"
| "retry_event D event (a # as) sm =
     (case handleEvent D (at_faults a) event sm of
        (None, sm') \<Rightarrow> (Handled, sm')
      | (Some (MalformedEvent _), sm') \<Rightarrow> (Handled, sm')
      | (Some _, sm') \<Rightarrow> if at_cancelled a then (Cancelled, sm') else retry_event D event as sm')"

text \<open>What \<^verbatim>\<open>stream.Recv\<close> returns.\<close>

datatype recv = RecvEvent ItemEvent "attempt list" | RecvEOF | RecvError

fun recv_loop ::
  "'s IngestDataStore \<Rightarrow> recv list \<Rightarrow> 's \<times> ingest_metrics \<Rightarrow> ingest_error option \<times> 's \<times> ingest_metrics" where
  "recv_loop D [] sm = (None, sm)"
| "recv_loop D (RecvEOF # rs) sm = (Some StreamClosed, sm)"
| "recv_loop D (RecvError # rs) sm = (Some StreamRecvErr, sm)"
| "recv_loop D (RecvEvent event as # rs) sm =
     (case retry_event D event as sm of
        (Handled, sm') \<Rightarrow> recv_loop D rs sm'
      | (Cancelled, sm') \<Rightarrow> (Some CtxErr, sm')
      | (Retrying, sm') \<Rightarrow> (None, sm'))"

section \<open>Snapshot reconcile and cycle\<close>

definition snapshotReconcile ::
  "'s IngestDataStore \<Rightarrow> proto_item list option \<Rightarrow> go_time \<Rightarrow> faults \<Rightarrow> 's \<times> ingest_metrics
   \<Rightarrow> ingest_error option \<times> 's \<times> ingest_metrics" where
  "snapshotReconcile D resp now f sm =
     (case resp of
        None \<Rightarrow> (Some ListItemsErr, sm)
      | Some protoItems \<Rightarrow>
          (let (s, m) = sm;
               items = map (\<lambda>item. \<lparr>sn_ItemID = pi_Id item, sn_Name = pi_Name item\<rparr>) protoItems;
               (res, s') = ds_ReconcileSnapshot D f items now s
           in case res of
                Inl e \<Rightarrow> (Some (ReconcileErr e), s', m)
              | Inr _ \<Rightarrow> (None, s', m\<lparr>im_reconciles := im_reconciles m + 1,
                                     im_snapshotItems := length items\<rparr>)))"

record cycle_script =
  cy_dial :: bool
  cy_list :: "proto_item list option"
  cy_now :: go_time
  cy_faults :: faults
  cy_open :: bool
  cy_recvs :: "recv list"

datatype cycle_result = Blocked | CycleRet bool ingest_error

definition set_connected :: "int \<Rightarrow> 's \<times> ingest_metrics \<Rightarrow> 's \<times> ingest_metrics" where
  "set_connected v sm = (fst sm, (snd sm)\<lparr>im_streamConnected := v\<rparr>)"

definition cycle ::
  "'s IngestDataStore \<Rightarrow> cycle_script \<Rightarrow> 's \<times> ingest_metrics \<Rightarrow> cycle_result \<times> 's \<times> ingest_metrics" where
  "cycle D c sm =
     (if \<not> cy_dial c then (CycleRet False DialErr, set_connected 0 sm)
      else case snapshotReconcile D (cy_list c) (cy_now c) (cy_faults c) sm of
        (Some e, sm1) \<Rightarrow> (CycleRet False e, set_connected 0 sm1)
      | (None, sm1) \<Rightarrow>
          if \<not> cy_open c then (CycleRet False OpenStreamErr, set_connected 0 sm1)
          else case recv_loop D (cy_recvs c) (set_connected 1 sm1) of
            (None, sm2) \<Rightarrow> (Blocked, sm2)
          | (Some e, sm2) \<Rightarrow> (CycleRet True e, set_connected 0 sm2))"

section \<open>The reconnect loop\<close>

text \<open>One round of \<^verbatim>\<open>Run\<close>: the context before the round, the jitter, the cancellation of the wait,
  the cycle, the context after it.\<close>

record round =
  ro_ctxErr :: bool
  ro_rand :: "int \<Rightarrow> int"
  ro_waitCancelled :: bool
  ro_cycle :: cycle_script
  ro_ctxErrAfter :: bool

datatype run_result = RunBlocked | RunReturned

fun ingest_loop ::
  "'s IngestDataStore \<Rightarrow> IngestConfig \<Rightarrow> int \<Rightarrow> round list \<Rightarrow> go_duration list \<Rightarrow> 's \<times> ingest_metrics
   \<Rightarrow> run_result \<times> go_duration list \<times> 's \<times> ingest_metrics" where
  "ingest_loop D cfg attempt [] waits sm = (RunBlocked, waits, sm)"
| "ingest_loop D cfg attempt (r # rs) waits sm =
     (if ro_ctxErr r then (RunReturned, waits, sm)
      else let backoff = (attempt > 0);
               sm0 = (if backoff then (fst sm, (snd sm)\<lparr>im_reconnects := im_reconnects (snd sm) + 1\<rparr>) else sm);
               wait = backoffDuration (ro_rand r) attempt (ic_BackoffBase cfg) (ic_BackoffMax cfg);
               waits' = (if backoff then waits @ [wait] else waits)
           in if backoff \<and> ro_waitCancelled r then (RunReturned, waits', sm0)
              else case cycle D (ro_cycle r) sm0 of
                (Blocked, sm1) \<Rightarrow> (RunBlocked, waits', sm1)
              | (CycleRet wasConnected err, sm1) \<Rightarrow>
                  if ro_ctxErrAfter r then (RunReturned, waits', sm1)
                  else ingest_loop D cfg (wrap64 ((if wasConnected then 0 else attempt) + 1)) rs waits' sm1)"

definition IngestRun ::
  "'s IngestDataStore \<Rightarrow> IngestConfig \<Rightarrow> round list \<Rightarrow> 's \<times> ingest_metrics
   \<Rightarrow> run_result \<times> go_duration list \<times> 's \<times> ingest_metrics" where
  "IngestRun D cfg rs sm = ingest_loop D cfg 0 rs [] sm"

section \<open>Backoff: bounds\<close>

lemma backoff_delay_bounds:
  assumes "in_int64 maxDelay"
  shows "0 < backoff_delay attempt base maxDelay"
    "backoff_delay attempt base maxDelay \<le> (if maxDelay \<le> 0 then 30 * Second else maxDelay)"
    "in_int64 (backoff_delay attempt base maxDelay)"
proof -
  let ?m = "if maxDelay \<le> 0 then 30 * Second else maxDelay"
  have "0 < ?m" "in_int64 ?m" using assms by (auto simp: Second_def in_int64_def)
  moreover have "backoff_delay attempt base maxDelay = ?m \<or>
      (0 < backoff_delay attempt base maxDelay \<and> backoff_delay attempt base maxDelay \<le> ?m)"
    by (auto simp: backoff_delay_def Let_def)
  ultimately show "0 < backoff_delay attempt base maxDelay" "backoff_delay attempt base maxDelay \<le> ?m"
    "in_int64 (backoff_delay attempt base maxDelay)" by (auto simp: in_int64_def)
qed

lemma backoffDuration_range:
  assumes "in_int64 maxDelay" "rand_ok rnd"
  shows "backoff_delay attempt base maxDelay div 2 \<le> backoffDuration rnd attempt base maxDelay
    \<and> backoffDuration rnd attempt base maxDelay \<le> backoff_delay attempt base maxDelay"
proof -
  define d where "d = backoff_delay attempt base maxDelay"
  have d: "0 < d" "in_int64 d" unfolding d_def using backoff_delay_bounds[OF assms(1)] by auto
  have half: "go_div d 2 = d div 2" using d by (simp add: go_div_nonneg)
  have r: "0 \<le> rnd (d div 2 + 1)" "rnd (d div 2 + 1) < d div 2 + 1"
  proof -
    have "0 < d div 2 + 1" using d(1) by linarith
    with assms(2) show "0 \<le> rnd (d div 2 + 1)" "rnd (d div 2 + 1) < d div 2 + 1"
      unfolding rand_ok_def by blast+
  qed
  have le: "d div 2 + d div 2 \<le> d" by linarith
  have "in_int64 (d div 2 + rnd (d div 2 + 1))"
    using r le d unfolding in_int64_def by linarith
  with r le half show ?thesis
    by (simp add: backoffDuration_def Let_def d_def[symmetric] wrap64_id)
qed

text \<open>The reconnect backoff. For any attempt number and any configured base and cap (out-of-range ones fall
  back to 1s and 30s), the wait lies between half the capped delay and the delay itself, is never
  negative and never exceeds the cap; and for a base below 2^33 ns (8.5 s) the delay is the exact
  exponential base * 2^(attempt-1) (frozen at 30 doublings), capped.\<close>
theorem backoffDuration_bounds:
  assumes "in_int64 maxDelay" "rand_ok rnd"
  shows "0 \<le> backoffDuration rnd attempt base maxDelay
    \<and> backoff_delay attempt base maxDelay div 2 \<le> backoffDuration rnd attempt base maxDelay
    \<and> backoffDuration rnd attempt base maxDelay \<le> backoff_delay attempt base maxDelay
    \<and> backoffDuration rnd attempt base maxDelay \<le> (if maxDelay \<le> 0 then 30 * Second else maxDelay)
    \<and> (0 < base \<and> base < 2 ^ 33 \<and> 0 < maxDelay \<and> 1 \<le> attempt \<longrightarrow>
         backoff_delay attempt base maxDelay = min maxDelay (base * 2 ^ nat (min (attempt - 1) 30)))"
proof -
  have exact: "backoff_delay attempt base maxDelay = min maxDelay (base * 2 ^ nat (min (attempt - 1) 30))"
    if b: "0 < base" "base < 2 ^ 33" "0 < maxDelay" "1 \<le> attempt"
  proof -
    let ?k = "nat (min (attempt - 1) 30)"
    have "(2::int) ^ ?k \<le> 2 ^ 30" by (rule power_increasing) auto
    then have "base * 2 ^ ?k < 2 ^ 33 * 2 ^ 30"
      using b by (meson mult_left_mono mult_less_le_imp_less zero_less_numeral zero_less_power less_imp_le order_less_le_trans)
    moreover have pos: "0 < base * 2 ^ ?k" using b by simp
    moreover have "- (2 ^ 63) \<le> base * 2 ^ ?k" using pos by (rule order_trans[OF _ less_imp_le, rotated]) simp
    ultimately have "in_int64 (base * 2 ^ ?k)" by (simp add: in_int64_def)
    then have "backoff_delay attempt base maxDelay =
        (if base * 2 ^ ?k \<le> 0 \<or> base * 2 ^ ?k > maxDelay then maxDelay else base * 2 ^ ?k)"
      using b by (simp add: backoff_delay_def Let_def wrap64_id)
    with pos show ?thesis by (simp only: min_def) (auto split: if_splits)
  qed
  from backoffDuration_range[OF assms, of attempt base] backoff_delay_bounds[OF assms(1), of attempt base] exact
  show ?thesis by linarith
qed

theorem backoffDuration_bounds_witness:
  "backoffDuration (\<lambda>n. n - 1) 3 Second (30 * Second) \<le> 4 * Second"
proof -
  have "rand_ok (\<lambda>n. n - 1)" by (simp add: rand_ok_def)
  moreover have "in_int64 (30 * Second)" by (simp add: in_int64_def Second_def)
  ultimately show ?thesis
    using backoffDuration_bounds[of "30 * Second" "\<lambda>n. n - 1" 3 Second]
    by (simp add: Second_def)
qed

text \<open>The cap of 30 doublings does not keep the multiplication from overflowing: with a base just
  over 2^34 ns (17.2 s) the product wraps around to about one second, so the 31st attempt waits
  far less than the first although the cap (one hour) is never reached.\<close>
theorem backoff_overflow:
  assumes "rand_ok rnd"
  shows "backoff_delay 31 (2 ^ 34 + 1) Hour = 2 ^ 30 \<and> backoff_delay 1 (2 ^ 34 + 1) Hour = 2 ^ 34 + 1
   \<and> 8 * backoffDuration rnd 31 (2 ^ 34 + 1) Hour \<le> backoffDuration rnd 1 (2 ^ 34 + 1) Hour"
proof -
  have d: "backoff_delay 31 (2 ^ 34 + 1) Hour = 2 ^ 30" "backoff_delay 1 (2 ^ 34 + 1) Hour = 2 ^ 34 + 1"
    by (simp_all add: backoff_delay_def wrap64_def Hour_def)
  have "in_int64 Hour" by (simp add: in_int64_def Hour_def)
  from backoffDuration_range[OF this assms, of 31 "2 ^ 34 + 1"] backoffDuration_range[OF this assms, of 1 "2 ^ 34 + 1"] d
  show ?thesis by simp
qed

theorem backoff_overflow_witness:
  "8 * backoffDuration (\<lambda>n. n - 1) 31 (2 ^ 34 + 1) Hour \<le> backoffDuration (\<lambda>n. n - 1) 1 (2 ^ 34 + 1) Hour"
proof -
  have "rand_ok (\<lambda>n. n - 1)" by (simp add: rand_ok_def)
  from backoff_overflow[OF this] show ?thesis by blast
qed

section \<open>The store interface and its client\<close>

definition to_record :: "ItemEvent \<Rightarrow> EventRecord option" where
  "to_record event = map_option (handle_record event) (eventTypeNames (pe_EventType event))"

text \<open>The well-formed events a script delivers before the stream ends.\<close>

fun received_events :: "recv list \<Rightarrow> EventRecord list" where
  "received_events [] = []"
| "received_events (RecvEOF # rs) = []"
| "received_events (RecvError # rs) = []"
| "received_events (RecvEvent event as # rs) =
     (case to_record event of None \<Rightarrow> [] | Some ev \<Rightarrow> [ev]) @ received_events rs"

definition ingested_total :: "ingest_metrics \<Rightarrow> nat" where
  "ingested_total m = im_ingested m ''created'' + im_ingested m ''updated'' + im_ingested m ''deleted''"

definition acked_total :: "ingest_metrics \<Rightarrow> nat" where
  "acked_total m = ingested_total m + im_deduplicated m"

lemma to_record_type: "to_record event = Some ev \<Longrightarrow> event_type_ok (ev_EventType ev)"
  by (auto simp: to_record_def eventTypeNames_def handle_record_def event_type_ok_def split: if_splits)

lemma to_record_storable: "to_record event = Some ev \<Longrightarrow> event_storable ev \<longleftrightarrow> text_ok (pi_Name (pe_Item event))"
  using to_record_type by (auto simp: event_storable_def to_record_def handle_record_def)

lemma handleEvent_malformed:
  "to_record event = None \<Longrightarrow> handleEvent D f event sm = (Some (MalformedEvent (pe_EventType event)), sm)"
  by (simp add: handleEvent_def to_record_def)

lemma handleEvent_wellformed:
  assumes "to_record event = Some ev" "ds_IngestEvent D f ev s = (res, s')"
  shows "handleEvent D f event (s, m) =
     (case res of
        Inl e \<Rightarrow> (Some (PersistErr e), s', m)
      | Inr inserted \<Rightarrow> (None, s',
          if inserted then m\<lparr>im_ingested := (im_ingested m)(ev_EventType ev := im_ingested m (ev_EventType ev) + 1),
                          im_watermark := advanceLastEventTime (ev_EventTime ev) (im_watermark m)\<rparr>
          else m\<lparr>im_deduplicated := im_deduplicated m + 1\<rparr>))"
  using assms by (auto simp: handleEvent_def to_record_def handle_record_def Let_def split: sum.split)

lemma ingested_total_inc:
  "event_type_ok t \<Longrightarrow>
   ingested_total (m\<lparr>im_ingested := (im_ingested m)(t := Suc (im_ingested m t)), im_watermark := w\<rparr>) = Suc (ingested_total m)"
  by (auto simp: ingested_total_def event_type_ok_def)

lemma totals_dedup [simp]:
  "ingested_total (m\<lparr>im_deduplicated := d\<rparr>) = ingested_total m"
  by (simp add: ingested_total_def)

lemma totals_connected [simp]:
  "ingested_total (m\<lparr>im_streamConnected := v\<rparr>) = ingested_total m"
  "acked_total (m\<lparr>im_streamConnected := v\<rparr>) = acked_total m"
  by (simp_all add: ingested_total_def acked_total_def)

text \<open>Progress needs only this of a store: an event it can hold is ingested when no call fails.\<close>

locale live_store =
  fixes D :: "'s IngestDataStore"
  assumes ing_live: "event_storable ev \<Longrightarrow> \<exists>b s'. ds_IngestEvent D no_faults ev s = (Inr b, s')"
begin

lemma retry_malformed:
  "to_record event = None \<Longrightarrow>
   retry_event D event as sm = (if as = [] then Retrying else Handled, sm)"
  by (cases as) (simp_all add: handleEvent_malformed)

lemma retry_live:
  assumes "\<exists>a \<in> set as. at_faults a = no_faults" "\<forall>a \<in> set as. \<not> at_cancelled a"
    and name: "text_ok (pi_Name (pe_Item event))"
  shows "fst (retry_event D event as sm) = Handled"
proof (cases "to_record event")
  case None
  then show ?thesis using assms(1) by (auto simp: retry_malformed)
next
  case (Some ev)
  have ok: "event_storable ev" using name to_record_storable[OF Some] by simp
  from assms(1,2) show ?thesis
  proof (induction as arbitrary: sm)
    case (Cons a as)
    obtain s m where sm: "sm = (s, m)" by fastforce
    obtain res s1 where ing: "ds_IngestEvent D (at_faults a) ev s = (res, s1)" by fastforce
    note h = handleEvent_wellformed[OF Some ing, of m]
    show ?case
    proof (cases res)
      case (Inl e)
      then have "at_faults a \<noteq> no_faults"
        using ing ing_live[OF ok, of s] by fastforce
      with Cons sm h Inl show ?thesis by (simp del: no_faults_apply)
    qed (use sm h in simp)
  qed simp
qed

lemma recv_live:
  assumes "\<And>event as. RecvEvent event as \<in> set rs \<Longrightarrow>
      (\<exists>a \<in> set as. at_faults a = no_faults) \<and> (\<forall>a \<in> set as. \<not> at_cancelled a) \<and> text_ok (pi_Name (pe_Item event))"
    and "RecvEOF \<in> set rs \<or> RecvError \<in> set rs"
  shows "fst (recv_loop D rs sm) \<in> {Some StreamClosed, Some StreamRecvErr}"
  using assms
proof (induction rs arbitrary: sm)
  case (Cons r rs)
  show ?case
  proof (cases r)
    case (RecvEvent event as)
    then have "fst (retry_event D event as sm) = Handled" using Cons.prems(1) by (intro retry_live) (auto simp del: no_faults_apply)
    then obtain sm' where "retry_event D event as sm = (Handled, sm')" by (metis prod.collapse)
    moreover have "fst (recv_loop D rs sm') \<in> {Some StreamClosed, Some StreamRecvErr}"
      by (rule Cons.IH) (use Cons.prems RecvEvent in \<open>auto simp del: no_faults_apply\<close>)
    ultimately show ?thesis using RecvEvent by simp
  qed auto
qed simp

end

text \<open>What a store promises to a single client.\<close>

locale ingest_store = live_store D
  for D :: "'s IngestDataStore" +
  fixes apply_ev :: "EventRecord \<Rightarrow> 's \<Rightarrow> 's" and fresh :: "EventRecord \<Rightarrow> 's \<Rightarrow> bool"
    and rows :: "'s \<Rightarrow> nat"
    and apply_snap :: "SnapshotItem list \<Rightarrow> go_time \<Rightarrow> 's \<Rightarrow> 's"
  assumes ing_ok: "ds_IngestEvent D f ev s = (Inr b, s') \<Longrightarrow> s' = apply_ev ev s \<and> b = fresh ev s"
    and ing_err: "ds_IngestEvent D f ev s = (Inl e, s') \<Longrightarrow> s' = s \<or> s' = apply_ev ev s"
    and apply_idem: "apply_ev ev (apply_ev ev s) = apply_ev ev s"
    and apply_not_fresh: "\<not> fresh ev (apply_ev ev s)"
    and apply_rows: "rows (apply_ev ev s) = rows s + (if fresh ev s then 1 else 0)"
    and rec_ok: "ds_ReconcileSnapshot D f items now s = (Inr n, s') \<Longrightarrow> s' = apply_snap items now s"
    and rec_err: "ds_ReconcileSnapshot D f items now s = (Inl e, s') \<Longrightarrow> s' = s \<or> s' = apply_snap items now s"
begin

lemma retry_wellformed:
  assumes "to_record event = Some ev" "retry_event D event as (s, m) = (r, s', m')"
  shows "if r = Handled
    then s' = apply_ev ev s \<and> acked_total m' = acked_total m + 1 \<and>
         ingested_total m' \<le> ingested_total m + (if fresh ev s then 1 else 0)
    else m' = m \<and> (s' = s \<or> s' = apply_ev ev s)"
  using assms(2)
proof (induction as arbitrary: s)
  case (Cons a as)
  obtain res s1 where ing: "ds_IngestEvent D (at_faults a) ev s = (res, s1)" by fastforce
  note h = handleEvent_wellformed[OF assms(1) ing, of m]
  show ?case
  proof (cases res)
    case (Inr b)
    then have "r = Handled" "s' = apply_ev ev s" "b = fresh ev s"
      using Cons.prems h ing_ok[OF ing[unfolded Inr]] by (auto split: if_splits)
    with Cons.prems h Inr show ?thesis
      by (auto simp: ingested_total_inc[OF to_record_type[OF assms(1)]] acked_total_def split: if_splits)
  next
    case (Inl e)
    then have s1: "s1 = s \<or> s1 = apply_ev ev s" using ing_err ing by blast
    show ?thesis
    proof (cases "at_cancelled a")
      case True
      with Cons.prems h Inl s1 show ?thesis by auto
    next
      case False
      then have "retry_event D event as (s1, m) = (r, s', m')" using Cons.prems h Inl by simp
      from Cons.IH[OF this] s1 show ?thesis
        by (auto simp: apply_idem apply_not_fresh split: if_splits)
    qed
  qed
qed simp

lemma recv_prefix:
  assumes "recv_loop D rs (s, m) = (res, s', m')"
  shows "\<exists>n. s' = foldl (\<lambda>s ev. apply_ev ev s) s (take n (received_events rs))"
  using assms
proof (induction rs arbitrary: s m)
  case (Cons r rs)
  show ?case
  proof (cases r)
    case (RecvEvent event as)
    obtain q s1 m1 where q: "retry_event D event as (s, m) = (q, s1, m1)" by (meson prod_cases3)
    show ?thesis
    proof (cases "q = Handled")
      case True
      with Cons.prems RecvEvent q have "recv_loop D rs (s1, m1) = (res, s', m')" by simp
      from Cons.IH[OF this] obtain n where n: "s' = foldl (\<lambda>s ev. apply_ev ev s) s1 (take n (received_events rs))" by blast
      show ?thesis
      proof (cases "to_record event")
        case None
        with q have "s1 = s" by (simp add: retry_malformed)
        with n None RecvEvent show ?thesis by auto
      next
        case (Some ev)
        with retry_wellformed[OF Some q] True have "s1 = apply_ev ev s" by simp
        with n Some RecvEvent show ?thesis by (intro exI[of _ "Suc n"]) simp
      qed
    next
      case False
      with Cons.prems RecvEvent q have s': "s' = s1" by (cases q) auto
      show ?thesis
      proof (cases "to_record event")
        case None
        with q s' have "s' = s" by (simp add: retry_malformed)
        then show ?thesis by (intro exI[of _ 0]) simp
      next
        case (Some ev)
        with retry_wellformed[OF Some q] False s' have "s' = s \<or> s' = apply_ev ev s" by simp
        with Some RecvEvent show ?thesis by (auto intro: exI[of _ 0] exI[of _ 1])
      qed
    qed
  qed (use Cons.prems in auto)
qed auto

lemma recv_complete:
  assumes "recv_loop D rs (s, m) = (Some e, s', m')" "e \<noteq> CtxErr"
  shows "s' = foldl (\<lambda>s ev. apply_ev ev s) s (received_events rs)
    \<and> acked_total m' = acked_total m + length (received_events rs)
    \<and> ingested_total m' + rows s \<le> ingested_total m + rows s'"
  using assms(1)
proof (induction rs arbitrary: s m)
  case (Cons r rs)
  show ?case
  proof (cases r)
    case (RecvEvent event as)
    obtain q s1 m1 where q: "retry_event D event as (s, m) = (q, s1, m1)" by (meson prod_cases3)
    with Cons.prems RecvEvent assms(2) have "q = Handled" "recv_loop D rs (s1, m1) = (Some e, s', m')"
      by (cases q; simp)+
    with Cons.IH[OF this(2)] q RecvEvent show ?thesis
      by (cases "to_record event")
        (auto simp: retry_malformed apply_rows dest!: retry_wellformed split: if_splits)
  qed (use Cons.prems in auto)
qed simp

lemma snapshotReconcile_state:
  "snapshotReconcile D resp now f (s, m) = (r, s', m') \<Longrightarrow>
   (r \<noteq> None \<and> s' = s) \<or>
   (\<exists>its. resp = Some its \<and> s' = apply_snap (map (\<lambda>i. \<lparr>sn_ItemID = pi_Id i, sn_Name = pi_Name i\<rparr>) its) now s)"
  by (auto simp: snapshotReconcile_def Let_def split: option.splits sum.splits prod.splits
      dest!: rec_ok rec_err)

end

text \<open>What the store refuses: an event it cannot hold, and a snapshot with such a name, whatever happens in the database.\<close>

locale strict_store =
  fixes D :: "'s IngestDataStore"
  assumes ing_reject: "\<not> event_storable ev \<Longrightarrow> \<exists>e. ds_IngestEvent D f ev s = (Inl e, s)"
    and rec_reject: "\<exists>it \<in> set items. \<not> text_ok (sn_Name it) \<Longrightarrow> \<exists>e. ds_ReconcileSnapshot D f items now s = (Inl e, s)"
begin

lemma retry_rejected:
  assumes "to_record event = Some ev" "\<not> event_storable ev"
  shows "retry_event D event as sm = (if \<exists>a \<in> set as. at_cancelled a then Cancelled else Retrying, sm)"
proof (induction as)
  case (Cons a as)
  obtain s m where sm: "sm = (s, m)" by fastforce
  obtain e where "ds_IngestEvent D (at_faults a) ev s = (Inl e, s)" using ing_reject[OF assms(2)] by blast
  from handleEvent_wellformed[OF assms(1) this, of m] Cons sm show ?case by simp
qed simp

lemma recv_rejected:
  assumes "to_record event = Some ev" "\<not> event_storable ev"
  shows "recv_loop D (RecvEvent event as # rs) sm = (if \<exists>a \<in> set as. at_cancelled a then Some CtxErr else None, sm)"
  by (simp add: retry_rejected[OF assms])

lemma recv_rejected_rest:
  assumes "to_record event = Some ev" "\<not> event_storable ev"
  shows "recv_loop D (pre @ RecvEvent event as # rs) sm = recv_loop D (pre @ [RecvEvent event as]) sm"
proof (induction pre arbitrary: sm)
  case Nil
  then show ?case by (simp only: append_Nil recv_rejected[OF assms])
next
  case (Cons r pre)
  then show ?case by (cases r) (auto split: prod.splits retry_result.splits)
qed

lemma cycle_rejected:
  assumes "\<forall>its. cy_list c = Some its \<longrightarrow> (\<exists>i \<in> set its. \<not> text_ok (pi_Name i))"
  shows "\<exists>e. cycle D c sm = (CycleRet False e, set_connected 0 sm)"
proof -
  obtain s m where sm: "sm = (s, m)" by fastforce
  have "\<exists>e. snapshotReconcile D (cy_list c) (cy_now c) (cy_faults c) sm = (Some e, sm)"
  proof (cases "cy_list c")
    case (Some its)
    let ?items = "map (\<lambda>i. \<lparr>sn_ItemID = pi_Id i, sn_Name = pi_Name i\<rparr>) its"
    have "\<exists>it \<in> set ?items. \<not> text_ok (sn_Name it)" using assms Some by auto
    from rec_reject[OF this] obtain e where "ds_ReconcileSnapshot D (cy_faults c) ?items (cy_now c) s = (Inl e, s)" by blast
    with Some sm show ?thesis by (simp add: snapshotReconcile_def)
  qed (simp add: snapshotReconcile_def)
  then show ?thesis by (auto simp: cycle_def)
qed

lemma ingest_loop_rejected:
  assumes "\<forall>r \<in> set rs. \<forall>its. cy_list (ro_cycle r) = Some its \<longrightarrow> (\<exists>i \<in> set its. \<not> text_ok (pi_Name i))"
  shows "fst (snd (snd (ingest_loop D cfg n rs waits sm))) = fst sm"
  using assms
proof (induction rs arbitrary: n waits sm)
  case (Cons r rs)
  let ?sm0 = "if n > 0 then (fst sm, (snd sm)\<lparr>im_reconnects := im_reconnects (snd sm) + 1\<rparr>) else sm"
  obtain e where "cycle D (ro_cycle r) ?sm0 = (CycleRet False e, set_connected 0 ?sm0)"
    using cycle_rejected Cons.prems by (metis list.set_intros(1))
  then show ?case using Cons by (simp add: Let_def set_connected_def)
qed simp

end

text \<open>The store provides the interface.\<close>

definition store_ds :: "pgx \<Rightarrow> db IngestDataStore" where
  "store_ds P = \<lparr>ds_ReconcileSnapshot = ReconcileSnapshot P, ds_IngestEvent = IngestEvent P\<rparr>"

lemma store_ds_sel [simp]:
  "ds_ReconcileSnapshot (store_ds P) = ReconcileSnapshot P" "ds_IngestEvent (store_ds P) = IngestEvent P"
  by (simp_all add: store_ds_def)

interpretation store_ing: ingest_store "store_ds P" "event_effect P" "event_fresh P" "\<lambda>db. length (item_events db)"
  "reconcile_effect P" for P
proof unfold_locales
  show "length (item_events (event_effect P ev s)) = length (item_events s) + (if event_fresh P ev s then 1 else 0)" for ev s
    by (simp add: event_effect_def)
qed (auto simp: event_effect_idem not_fresh_effect IngestEvent_no_faults
    elim!: IngestEvent_cases ReconcileSnapshot_cases)

lemma reconcile_upserts_rejected:
  "\<exists>it \<in> set its. \<not> text_ok (sn_Name it) \<Longrightarrow> \<exists>e. reconcile_upserts P f i now its rows n = Inl e"
  by (induction its arbitrary: i rows n) auto

interpretation store_strict: strict_store "store_ds P" for P
proof unfold_locales
  show "\<exists>e. ds_IngestEvent (store_ds P) f ev s = (Inl e, s)" if "\<not> event_storable ev" for ev f s
    using IngestEvent_unstorable[OF that] by simp
  show "\<exists>e. ds_ReconcileSnapshot (store_ds P) f items now s = (Inl e, s)"
    if bad: "\<exists>it \<in> set items. \<not> text_ok (sn_Name it)" for items f now s
  proof -
    obtain e where "reconcile_upserts P f 1 now items (current_items s) 0 = Inl e"
      using reconcile_upserts_rejected[OF bad] by blast
    then show ?thesis by (simp add: ReconcileSnapshot_def)
  qed
qed

section \<open>Properties\<close>

text \<open>C3: exactly-once ingestion over the real store. A stream that ends (EOF or error) leaves the database that
  one successful ingestion per received well-formed event leaves, in order, no matter how many
  times each event was retried, which statements failed and which commit acknowledgements were lost;
  malformed events are dropped without effect; every well-formed event is counted once, as ingested or as
  deduplicated, and the ingested counter never exceeds the rows that were added.\<close>
theorem stream_exactly_once:
  assumes "recv_loop (store_ds P) rs (db, m) = (Some e, db', m')" "e \<noteq> CtxErr"
  shows "db' = serial_effect P (received_events rs) db
    \<and> acked_total m' = acked_total m + length (received_events rs)
    \<and> ingested_total m' + length (item_events db) \<le> ingested_total m + length (item_events db')"
  using store_ing.recv_complete[OF assms] unfolding serial_effect_def by blast

definition zero_metrics :: ingest_metrics where
  "zero_metrics = \<lparr>im_streamConnected = 0, im_watermark = \<lparr>wm_unix = 0, wm_gauge = 0\<rparr>, im_ingested = (\<lambda>_. 0),
     im_deduplicated = 0, im_reconnects = 0, im_reconciles = 0, im_snapshotItems = 0\<rparr>"

definition lost_commit :: faults where
  "lost_commit n = (if n = 4 then Lost else Done)"

definition created_widget :: ItemEvent where
  "created_widget = \<lparr>pe_EventType = 1, pe_Item = \<lparr>pi_Id = 7, pi_Name = ''widget''\<rparr>, pe_EventTime = 90 * Second\<rparr>"

definition sample_stream :: "recv list" where
  "sample_stream =
     [RecvEvent created_widget [\<lparr>at_faults = lost_commit, at_cancelled = False\<rparr>, \<lparr>at_faults = no_faults, at_cancelled = False\<rparr>],
      RecvEvent (created_widget\<lparr>pe_EventType := 9\<rparr>) [\<lparr>at_faults = no_faults, at_cancelled = False\<rparr>],
      RecvEOF]"

lemma sample_stream_received:
  "received_events sample_stream = [\<lparr>ev_ItemID = 7, ev_ItemName = ''widget'', ev_EventType = ''created'', ev_EventTime = 90 * Second\<rparr>]"
  by (simp add: sample_stream_def to_record_def created_widget_def eventTypeNames_def handle_record_def)

text \<open>C16: progress. If every received event has a name that PostgreSQL can hold and meets a fault-free attempt before
  the context is cancelled, and the stream then ends, the receive loop does end and has delivered every well-formed event, in order.\<close>
theorem stream_delivers_all:
  assumes "\<forall>event as. RecvEvent event as \<in> set rs \<longrightarrow>
      (\<exists>a \<in> set as. at_faults a = no_faults) \<and> (\<forall>a \<in> set as. \<not> at_cancelled a) \<and> text_ok (pi_Name (pe_Item event))"
    and "RecvEOF \<in> set rs \<or> RecvError \<in> set rs"
  shows "\<exists>e db' m'. recv_loop (store_ds P) rs (db, m) = (Some e, db', m') \<and> e \<in> {StreamClosed, StreamRecvErr}
     \<and> db' = serial_effect P (received_events rs) db"
proof -
  obtain res db' m' where run: "recv_loop (store_ds P) rs (db, m) = (res, db', m')" by (meson prod_cases3)
  have "res \<in> {Some StreamClosed, Some StreamRecvErr}"
    using store_ing.recv_live[of rs P "(db, m)"] assms run by (simp del: no_faults_apply)
  then obtain e where e: "res = Some e" "e \<in> {StreamClosed, StreamRecvErr}" by blast
  then have "e \<noteq> CtxErr" by auto
  from store_ing.recv_complete[OF run[unfolded e(1)] this] e run
  show ?thesis by (auto simp: serial_effect_def)
qed

lemma sample_stream_attempts:
  "\<forall>event as. RecvEvent event as \<in> set sample_stream \<longrightarrow>
      (\<exists>a \<in> set as. at_faults a = no_faults) \<and> (\<forall>a \<in> set as. \<not> at_cancelled a) \<and> text_ok (pi_Name (pe_Item event))"
  by (auto simp: sample_stream_def created_widget_def text_ok_def simp del: no_faults_apply)

theorem stream_delivers_all_witness:
  "\<exists>e db' m'. recv_loop (store_ds pgx_us) sample_stream (empty_db, zero_metrics) = (Some e, db', m')
     \<and> length (item_events db') = 1"
proof -
  have "RecvEOF \<in> set sample_stream \<or> RecvError \<in> set sample_stream" by (simp add: sample_stream_def)
  from stream_delivers_all[OF sample_stream_attempts this, of pgx_us empty_db zero_metrics]
  obtain e db' m' where "recv_loop (store_ds pgx_us) sample_stream (empty_db, zero_metrics) = (Some e, db', m')"
    "db' = serial_effect pgx_us (received_events sample_stream) empty_db" by blast
  then show ?thesis
    by (simp add: sample_stream_received serial_effect_def item_events_effect insert_do_nothing_cases empty_db_def)
qed

theorem stream_exactly_once_witness:
  "\<exists>db' m'. recv_loop (store_ds pgx_us) sample_stream (empty_db, zero_metrics) = (Some StreamClosed, db', m')
     \<and> acked_total m' = 1 \<and> length (item_events db') = 1"
proof -
  let ?r = "recv_loop (store_ds pgx_us) sample_stream (empty_db, zero_metrics)"
  have "fst ?r = Some StreamClosed"
    by (simp add: sample_stream_def handleEvent_def created_widget_def eventTypeNames_def Let_def IngestEvent_unfold
        lost_commit_def storable_defs handle_record_def split: prod.splits)
  then have run: "?r = (Some StreamClosed, fst (snd ?r), snd (snd ?r))" by (metis prod.collapse)
  from stream_exactly_once[OF run] run show ?thesis
    by (intro exI[of _ "fst (snd ?r)"] exI[of _ "snd (snd ?r)"])
      (simp add: sample_stream_received serial_effect_def item_events_effect insert_do_nothing_cases empty_db_def
        acked_total_def ingested_total_def zero_metrics_def)
qed

text \<open>C36: a name that PostgreSQL cannot hold stops the client for good, although the code takes every error of
  the store for a passing one. An event with such a name is retried until the context is cancelled, changes nothing and is
  never counted; no later event of the stream is ever consumed. And while the backend's snapshot contains such an item,
  no round of the reconnect loop gets past the reconcile: the tables stay as they are.\<close>
theorem unstorable_name_blocks:
  assumes "to_record event = Some ev" "\<not> text_ok (ev_ItemName ev)"
  shows "recv_loop (store_ds P) (pre @ RecvEvent event as # rest) (db, m) = recv_loop (store_ds P) (pre @ [RecvEvent event as]) (db, m)
    \<and> recv_loop (store_ds P) (RecvEvent event as # rest) (db, m)
        = (if \<exists>a \<in> set as. at_cancelled a then Some CtxErr else None, db, m)
    \<and> (\<forall>cfg rs. (\<forall>r \<in> set rs. \<forall>its. cy_list (ro_cycle r) = Some its \<longrightarrow> (\<exists>i \<in> set its. \<not> text_ok (pi_Name i))) \<longrightarrow>
        fst (snd (snd (IngestRun (store_ds P) cfg rs (db, m)))) = db)"
proof -
  have bad: "\<not> event_storable ev" using assms(2) by (simp add: event_storable_def)
  show ?thesis
    using store_strict.recv_rejected_rest[OF assms(1) bad] store_strict.recv_rejected[OF assms(1) bad]
      store_strict.ingest_loop_rejected by (simp add: IngestRun_def del: recv_loop.simps)
qed

theorem unstorable_name_blocks_witness:
  "recv_loop (store_ds pgx_us)
     (RecvEvent (created_widget\<lparr>pe_Item := \<lparr>pi_Id = 8, pi_Name = [CHR 0x00]\<rparr>\<rparr>) (replicate 1000 \<lparr>at_faults = no_faults, at_cancelled = False\<rparr>)
       # sample_stream) (empty_db, zero_metrics) = (None, empty_db, zero_metrics)"
proof -
  let ?e = "created_widget\<lparr>pe_Item := \<lparr>pi_Id = 8, pi_Name = [CHR 0x00]\<rparr>\<rparr>"
  have "to_record ?e = Some (handle_record ?e ''created'')" "\<not> text_ok (ev_ItemName (handle_record ?e ''created''))"
    by (simp_all add: to_record_def created_widget_def eventTypeNames_def handle_record_def text_ok_def)
  from unstorable_name_blocks[OF this] show ?thesis by (simp del: recv_loop.simps no_faults_apply)
qed

text \<open>An event whose commit succeeded but whose acknowledgement was lost is in the database after the retry, yet
  it is reported as a duplicate: the ingested counter and the event-time watermark do not move.\<close>
theorem lost_ack_counted_as_duplicate:
  assumes "to_record event = Some ev" "event_storable ev" "event_fresh P ev db"
  shows "retry_event (store_ds P) event [\<lparr>at_faults = lost_commit, at_cancelled = False\<rparr>, \<lparr>at_faults = no_faults, at_cancelled = False\<rparr>] (db, m)
      = (Handled, event_effect P ev db, m\<lparr>im_deduplicated := im_deduplicated m + 1\<rparr>)
    \<and> length (item_events (event_effect P ev db)) = length (item_events db) + 1"
proof -
  note ok = assms(2)
  have 1: "IngestEvent P lost_commit ev db = (Inl CommitIngest, event_effect P ev db)"
    using ok by (simp add: IngestEvent_unfold lost_commit_def)
  have 2: "IngestEvent P no_faults ev (event_effect P ev db) = (Inr False, event_effect P ev db)"
    using ok by (simp add: IngestEvent_no_faults not_fresh_effect event_effect_idem)
  have "handleEvent (store_ds P) lost_commit event (db, m) = (Some (PersistErr CommitIngest), event_effect P ev db, m)"
    using handleEvent_wellformed[OF assms(1), of "store_ds P" lost_commit db] 1 by simp
  moreover have "handleEvent (store_ds P) no_faults event (event_effect P ev db, m) =
      (None, event_effect P ev db, m\<lparr>im_deduplicated := im_deduplicated m + 1\<rparr>)"
    using handleEvent_wellformed[OF assms(1), of "store_ds P" no_faults "event_effect P ev db"] 2 by simp
  ultimately show ?thesis using assms(3) by (simp add: event_effect_def)
qed

theorem lost_ack_counted_as_duplicate_witness:
  "\<exists>db'. retry_event (store_ds pgx_us) created_widget
       [\<lparr>at_faults = lost_commit, at_cancelled = False\<rparr>, \<lparr>at_faults = no_faults, at_cancelled = False\<rparr>] (empty_db, zero_metrics)
     = (Handled, db', zero_metrics\<lparr>im_deduplicated := 1\<rparr>) \<and> length (item_events db') = 1"
proof -
  have r: "to_record created_widget = Some (handle_record created_widget ''created'')"
    by (simp add: to_record_def created_widget_def eventTypeNames_def)
  have f: "event_fresh pgx_us (handle_record created_widget ''created'') empty_db"
    by (simp add: event_fresh_def empty_db_def)
  have "event_storable (handle_record created_widget ''created'')"
    by (simp add: handle_record_def created_widget_def storable_defs)
  from lost_ack_counted_as_duplicate[OF r this f, of zero_metrics] show ?thesis
    by (simp add: zero_metrics_def empty_db_def)
qed

text \<open>Counters that only some of the code touches.\<close>

lemma handleEvent_frame:
  "handleEvent D f event sm = (r, s', m') \<Longrightarrow>
   im_streamConnected m' = im_streamConnected (snd sm) \<and> im_reconnects m' = im_reconnects (snd sm)"
  by (auto simp: handleEvent_def Let_def split: option.splits prod.splits sum.splits if_splits)

lemma retry_event_Cons:
  "handleEvent D (at_faults a) event sm = (q, sm') \<Longrightarrow>
   retry_event D event (a # as) sm =
     (if q = None \<or> (\<exists>t. q = Some (MalformedEvent t)) then (Handled, sm')
      else if at_cancelled a then (Cancelled, sm') else retry_event D event as sm')"
  by (auto split: option.splits ingest_error.splits)

lemma retry_event_frame:
  "retry_event D event as sm = (r, s', m') \<Longrightarrow>
   im_streamConnected m' = im_streamConnected (snd sm) \<and> im_reconnects m' = im_reconnects (snd sm)"
proof (induction as arbitrary: sm)
  case (Cons a as)
  obtain q s1 m1 where h: "handleEvent D (at_faults a) event sm = (q, s1, m1)" by (meson prod_cases3)
  with handleEvent_frame[OF h] Cons show ?case
    by (auto simp: retry_event_Cons[OF h] simp del: retry_event.simps split: if_splits)
qed simp

lemma recv_loop_frame:
  "recv_loop D rs sm = (r, s', m') \<Longrightarrow>
   im_streamConnected m' = im_streamConnected (snd sm) \<and> im_reconnects m' = im_reconnects (snd sm)"
proof (induction D rs sm rule: recv_loop.induct)
  case (4 D event as rs sm)
  obtain q s1 m1 where "retry_event D event as sm = (q, s1, m1)" by (meson prod_cases3)
  with 4 retry_event_frame[OF this] show ?case by (cases q) auto
qed auto

lemma snapshotReconcile_frame:
  "snapshotReconcile D resp now f sm = (r, s', m') \<Longrightarrow> im_reconnects m' = im_reconnects (snd sm)"
  by (auto simp: snapshotReconcile_def Let_def split: option.splits prod.splits sum.splits)

lemma set_connected_sel [simp]:
  "fst (set_connected v sm) = fst sm" "im_streamConnected (snd (set_connected v sm)) = v"
  "im_reconnects (snd (set_connected v sm)) = im_reconnects (snd sm)"
  by (simp_all add: set_connected_def)

text \<open>The liveness gauge tells the truth about every cycle, whatever store it runs on: a cycle that has
  returned (for whichever reason) leaves the stream-connected gauge at 0, and one that is still
  waiting on its open stream leaves it at 1.\<close>
theorem cycle_connected_gauge:
  "case cycle D c sm of
     (Blocked, sm') \<Rightarrow> im_streamConnected (snd sm') = 1
   | (CycleRet wasConnected e, sm') \<Rightarrow> im_streamConnected (snd sm') = 0"
  by (auto simp: cycle_def set_connected_def split: prod.splits option.splits dest!: recv_loop_frame)

lemma cycle_reconnects: "cycle D c sm = (r, s', m') \<Longrightarrow> im_reconnects m' = im_reconnects (snd sm)"
  by (auto simp: cycle_def set_connected_def split: prod.splits option.splits if_splits
      dest!: recv_loop_frame snapshotReconcile_frame)

definition snap_items :: "proto_item list \<Rightarrow> SnapshotItem list" where
  "snap_items its = map (\<lambda>i. \<lparr>sn_ItemID = pi_Id i, sn_Name = pi_Name i\<rparr>) its"

lemma snapshotReconcile_ok:
  "snapshotReconcile (store_ds P) resp now f (db, m) = (None, db', m') \<Longrightarrow>
   \<exists>its. resp = Some its \<and> db' = reconcile_effect P (snap_items its) now db"
  using store_ing.snapshotReconcile_state[of P resp now f db m None db' m'] by (auto simp: snap_items_def)

text \<open>C31: the order of a cycle over the real store. The stream is never consumed before the snapshot has been
  reconciled: a cycle that got a stream leaves the tables of the reconciled snapshot followed by a
  prefix of the received events (all of them unless the cycle was cancelled), and a cycle that did not
  get one leaves the tables unchanged or, when only the acknowledgement or the stream failed,
  reconciled.\<close>
theorem cycle_reconciles_first:
  assumes "cycle (store_ds P) c (db, m) = (CycleRet wasConnected e, db', m')"
  shows "(wasConnected \<longrightarrow> (\<exists>its n. cy_list c = Some its
           \<and> db' = serial_effect P (take n (received_events (cy_recvs c))) (reconcile_effect P (snap_items its) (cy_now c) db)
           \<and> (e \<noteq> CtxErr \<longrightarrow> take n (received_events (cy_recvs c)) = received_events (cy_recvs c))))
    \<and> (\<not> wasConnected \<longrightarrow> db' = db \<or> (\<exists>its. cy_list c = Some its
           \<and> db' = reconcile_effect P (snap_items its) (cy_now c) db))"
proof -
  obtain r1 db1 m1 where sr: "snapshotReconcile (store_ds P) (cy_list c) (cy_now c) (cy_faults c) (db, m) = (r1, db1, m1)"
    by (meson prod_cases3)
  obtain r2 db2 m2 where rl: "recv_loop (store_ds P) (cy_recvs c) (set_connected 1 (db1, m1)) = (r2, db2, m2)"
    by (meson prod_cases3)
  show ?thesis
  proof (cases wasConnected)
    case True
    then have "r1 = None" "r2 = Some e" "db' = db2"
      using assms sr rl by (auto simp: cycle_def set_connected_def split: if_splits option.splits)
    moreover obtain its where its: "cy_list c = Some its" "db1 = reconcile_effect P (snap_items its) (cy_now c) db"
      using snapshotReconcile_ok sr \<open>r1 = None\<close> by blast
    note rl' = rl[unfolded set_connected_def fst_conv snd_conv]
    moreover obtain n where n: "db2 = serial_effect P (take n (received_events (cy_recvs c))) db1"
      using store_ing.recv_prefix[OF rl'] unfolding serial_effect_def by blast
    have "e \<noteq> CtxErr \<Longrightarrow> db2 = serial_effect P (take (length (received_events (cy_recvs c))) (received_events (cy_recvs c))) db1"
      using store_ing.recv_complete[OF rl'[unfolded \<open>r2 = Some e\<close>]] unfolding serial_effect_def by simp
    ultimately show ?thesis using True its n by (metis order_refl take_all_iff)
  next
    case False
    then have "db' = db \<or> db' = db1 \<and> cy_dial c"
      using assms sr rl by (auto simp: cycle_def set_connected_def split: if_splits option.splits)
    moreover have "db1 = db \<or> (\<exists>its. cy_list c = Some its \<and> db1 = reconcile_effect P (snap_items its) (cy_now c) db)"
      using store_ing.snapshotReconcile_state[OF sr] by (auto simp: snap_items_def)
    ultimately show ?thesis using False by blast
  qed
qed

definition sample_cycle :: cycle_script where
  "sample_cycle = \<lparr>cy_dial = True, cy_list = Some [\<lparr>pi_Id = 3, pi_Name = ''lamp''\<rparr>], cy_now = 80 * Second,
     cy_faults = no_faults, cy_open = True, cy_recvs = sample_stream\<rparr>"

lemma sample_cycle_run:
  "\<exists>db' m'. cycle (store_ds pgx_us) sample_cycle (empty_db, zero_metrics) = (CycleRet True StreamClosed, db', m')"
  by (simp add: cycle_def sample_cycle_def snapshotReconcile_def ReconcileSnapshot_def sample_stream_def
      handleEvent_def created_widget_def eventTypeNames_def IngestEvent_unfold lost_commit_def storable_defs
      handle_record_def update_where_def set_connected_def Let_def split: prod.splits)

theorem cycle_reconciles_first_witness:
  "\<exists>db' m'. cycle (store_ds pgx_us) sample_cycle (empty_db, zero_metrics) = (CycleRet True StreamClosed, db', m')
     \<and> db' = serial_effect pgx_us (received_events sample_stream)
         (reconcile_effect pgx_us [\<lparr>sn_ItemID = 3, sn_Name = ''lamp''\<rparr>] (80 * Second) empty_db)"
proof -
  obtain db' m' where run: "cycle (store_ds pgx_us) sample_cycle (empty_db, zero_metrics) = (CycleRet True StreamClosed, db', m')"
    using sample_cycle_run by blast
  from cycle_reconciles_first[OF run] run show ?thesis
    by (auto simp: sample_cycle_def snap_items_def)
qed

section \<open>Invariants of a run\<close>

text \<open>What a script brings: the snapshot items of a cycle and the events of its stream.\<close>

definition cycle_inputs :: "(EventRecord \<Rightarrow> bool) \<Rightarrow> (SnapshotItem \<Rightarrow> bool) \<Rightarrow> cycle_script \<Rightarrow> bool" where
  "cycle_inputs Q S c \<longleftrightarrow> (\<forall>ev \<in> set (received_events (cy_recvs c)). Q ev)
     \<and> (\<forall>its. cy_list c = Some its \<longrightarrow> (\<forall>it \<in> set (snap_items its). S it))"

lemma cycle_inputs_True [simp]: "cycle_inputs (\<lambda>_. True) (\<lambda>_. True) c"
  by (simp add: cycle_inputs_def)

text \<open>Whatever the store operations preserve for such inputs, the client preserves.\<close>

locale ingest_invariant =
  fixes D :: "'s IngestDataStore" and I :: "'s \<Rightarrow> bool"
    and Q :: "EventRecord \<Rightarrow> bool" and S :: "SnapshotItem \<Rightarrow> bool"
  assumes ing_keeps: "Q ev \<Longrightarrow> I s \<Longrightarrow> I (snd (ds_IngestEvent D f ev s))"
    and rec_keeps: "\<forall>it \<in> set items. S it \<Longrightarrow> I s \<Longrightarrow> I (snd (ds_ReconcileSnapshot D f items now s))"
begin

lemma handle_keeps:
  assumes "\<And>ev. to_record event = Some ev \<Longrightarrow> Q ev" "I (fst sm)"
  shows "I (fst (snd (handleEvent D f event sm)))"
proof -
  obtain s m where sm: "sm = (s, m)" by fastforce
  show ?thesis
  proof (cases "to_record event")
    case (Some ev)
    obtain res s' where i: "ds_IngestEvent D f ev s = (res, s')" by fastforce
    then have "I s'" using ing_keeps[OF assms(1)[OF Some], of s f] assms(2) sm by simp
    with sm handleEvent_wellformed[OF Some i, of m] show ?thesis by (auto split: sum.splits)
  qed (use assms sm in \<open>simp add: handleEvent_malformed\<close>)
qed

lemma retry_keeps:
  assumes "\<And>ev. to_record event = Some ev \<Longrightarrow> Q ev" "I (fst sm)"
  shows "I (fst (snd (retry_event D event as sm)))"
  using assms(2)
proof (induction as arbitrary: sm)
  case (Cons a as)
  obtain q sm1 where h: "handleEvent D (at_faults a) event sm = (q, sm1)" by (meson surj_pair)
  have "I (fst sm1)" using handle_keeps[OF assms(1) Cons.prems] h by (metis snd_conv)
  with Cons.IH show ?case by (simp add: retry_event_Cons[OF h] del: retry_event.simps)
qed simp

lemma recv_keeps:
  assumes "\<forall>ev \<in> set (received_events rs). Q ev" "I (fst sm)"
  shows "I (fst (snd (recv_loop D rs sm)))"
  using assms
proof (induction rs arbitrary: sm)
  case (Cons r rs)
  show ?case
  proof (cases r)
    case (RecvEvent event as)
    obtain q sm1 where h: "retry_event D event as sm = (q, sm1)" by (meson surj_pair)
    have "Q ev" if "to_record event = Some ev" for ev using Cons.prems(1) RecvEvent that by simp
    then have "I (fst sm1)" using retry_keeps[of event sm as] Cons.prems(2) h by simp
    with Cons h RecvEvent show ?thesis by (cases q) auto
  qed (use Cons.prems in simp_all)
qed simp

lemma cycle_keeps:
  assumes "cycle_inputs Q S c" "I (fst sm)"
  shows "I (fst (snd (cycle D c sm)))"
proof -
  obtain r1 sm1 where sr: "snapshotReconcile D (cy_list c) (cy_now c) (cy_faults c) sm = (r1, sm1)" by (meson surj_pair)
  obtain r2 sm2 where rl: "recv_loop D (cy_recvs c) (set_connected 1 sm1) = (r2, sm2)" by (meson surj_pair)
  have 1: "I (fst sm1)"
  proof (cases "cy_list c")
    case (Some its)
    have "I (snd (ds_ReconcileSnapshot D (cy_faults c) (snap_items its) (cy_now c) (fst sm)))"
      using assms Some by (intro rec_keeps) (simp_all add: cycle_inputs_def)
    with Some sr show ?thesis
      by (auto simp: snapshotReconcile_def snap_items_def Let_def split: prod.splits sum.splits)
  qed (use sr assms(2) in \<open>auto simp: snapshotReconcile_def\<close>)
  have "I (fst sm2)"
    using recv_keeps[of "cy_recvs c" "set_connected 1 sm1"] 1 rl assms(1) by (simp add: cycle_inputs_def)
  with 1 sr rl assms(2) show ?thesis by (auto simp: cycle_def split: option.splits)
qed

lemma run_keeps:
  assumes "ingest_loop D cfg n rs waits sm = (res, waits', s', m')" "I (fst sm)"
    and "\<forall>r \<in> set rs. cycle_inputs Q S (ro_cycle r)"
  shows "I s'"
  using assms
proof (induction rs arbitrary: n waits sm)
  case (Cons r rs)
  let ?sm0 = "if n > 0 then (fst sm, (snd sm)\<lparr>im_reconnects := im_reconnects (snd sm) + 1\<rparr>) else sm"
  obtain q sm1 where c: "cycle D (ro_cycle r) ?sm0 = (q, sm1)" by (meson surj_pair)
  have "I (fst ?sm0)" using Cons.prems by auto
  then have "I (fst sm1)" using cycle_keeps[of "ro_cycle r" ?sm0] c Cons.prems(3) by simp
  with Cons c show ?case
    by (auto simp: Let_def split: if_splits cycle_result.splits prod.splits)
qed simp

end

interpretation ingest_reach: ingest_invariant "store_ds P" "\<lambda>db. store_reachable P (s\<lparr>m_db := db\<rparr>)" "\<lambda>_. True" "\<lambda>_. True" for P s
proof
  fix f db assume r: "store_reachable P (s\<lparr>m_db := db\<rparr>)"
  show "store_reachable P (s\<lparr>m_db := snd (ds_IngestEvent (store_ds P) f ev db)\<rparr>)" for ev
    using store_reachable.step[OF r store_step.ingest[of P f ev _ "fst (IngestEvent P f ev db)" "snd (IngestEvent P f ev db)"]]
    by simp
  show "store_reachable P (s\<lparr>m_db := snd (ds_ReconcileSnapshot (store_ds P) f items now db)\<rparr>)" for items now
    using store_reachable.step[OF r store_step.reconcile[of P f items now _ "fst (ReconcileSnapshot P f items now db)"
          "snd (ReconcileSnapshot P f items now db)"]]
    by simp
qed

lemma IngestRun_reachable:
  assumes "store_reachable P s" "IngestRun (store_ds P) cfg rs (m_db s, m) = (res, waits, db', m')"
  shows "store_reachable P (s\<lparr>m_db := db'\<rparr>)"
  using ingest_reach.run_keeps[OF assms(2)[unfolded IngestRun_def]] assms(1) by simp

lemma ingest_loop_trace:
  assumes "in_int64 (ic_BackoffMax cfg)" "\<forall>r \<in> set rs. rand_ok (ro_rand r)"
    and "ingest_loop D cfg n rs waits sm = (res, waits', s', m')"
    and "\<forall>w \<in> set waits. 0 \<le> w \<and> w \<le> (if ic_BackoffMax cfg \<le> 0 then 30 * Second else ic_BackoffMax cfg)"
  shows "(res = RunReturned \<longrightarrow> (\<exists>r \<in> set rs. ro_ctxErr r \<or> ro_waitCancelled r \<or> ro_ctxErrAfter r))
    \<and> (\<forall>w \<in> set waits'. 0 \<le> w \<and> w \<le> (if ic_BackoffMax cfg \<le> 0 then 30 * Second else ic_BackoffMax cfg))
    \<and> im_reconnects m' + length waits = im_reconnects (snd sm) + length waits'"
  using assms(2-)
proof (induction rs arbitrary: n waits sm)
  case (Cons r rs)
  let ?cap = "if ic_BackoffMax cfg \<le> 0 then 30 * Second else ic_BackoffMax cfg"
  let ?w = "backoffDuration (ro_rand r) n (ic_BackoffBase cfg) (ic_BackoffMax cfg)"
  let ?sm0 = "if n > 0 then (fst sm, (snd sm)\<lparr>im_reconnects := im_reconnects (snd sm) + 1\<rparr>) else sm"
  let ?waits = "if n > 0 then waits @ [?w] else waits"
  have rnd: "rand_ok (ro_rand r)" using Cons.prems(1) by simp
  have w: "0 \<le> ?w \<and> ?w \<le> ?cap"
    using backoffDuration_range[OF assms(1) rnd, of n "ic_BackoffBase cfg"]
      backoff_delay_bounds(1,2)[OF assms(1), of n "ic_BackoffBase cfg"] by linarith
  then have ws: "\<forall>w \<in> set ?waits. 0 \<le> w \<and> w \<le> ?cap" using Cons.prems(3) by auto
  have len: "im_reconnects (snd ?sm0) + length waits = im_reconnects (snd sm) + length ?waits" by auto
  obtain q s1 m1 where c: "cycle D (ro_cycle r) ?sm0 = (q, s1, m1)" by (meson prod_cases3)
  have rc: "im_reconnects m1 = im_reconnects (snd ?sm0)" using cycle_reconnects[OF c] .
  consider "ro_ctxErr r" | "\<not> ro_ctxErr r" "n > 0 \<and> ro_waitCancelled r"
    | "\<not> ro_ctxErr r" "\<not> (n > 0 \<and> ro_waitCancelled r)" "q = Blocked"
    | b e where "\<not> ro_ctxErr r" "\<not> (n > 0 \<and> ro_waitCancelled r)" "q = CycleRet b e" "ro_ctxErrAfter r"
    | b e where "\<not> ro_ctxErr r" "\<not> (n > 0 \<and> ro_waitCancelled r)" "q = CycleRet b e" "\<not> ro_ctxErrAfter r"
    by (cases q) auto
  then show ?case
  proof cases
    case 5
    then have "ingest_loop D cfg (wrap64 ((if b then 0 else n) + 1)) rs ?waits (s1, m1) = (res, waits', s', m')"
      using Cons.prems(2) c by (auto simp: Let_def)
    from Cons.IH[OF _ this ws] Cons.prems(1) len rc show ?thesis by auto
  qed (use Cons.prems c ws len rc in \<open>auto simp: Let_def split: if_splits\<close>)
qed simp

text \<open>The reconnect loop never gives up on its own: it returns only when the context was cancelled; every
  pause between two cycles is between zero and the configured cap (30s when the cap is not
  positive); and the reconnect counter counts exactly the pauses.\<close>
theorem IngestRun_resilient:
  assumes "in_int64 (ic_BackoffMax cfg)" "\<forall>r \<in> set rs. rand_ok (ro_rand r)"
    and "IngestRun D cfg rs (s, m) = (res, waits, s', m')"
  shows "(res = RunReturned \<longrightarrow> (\<exists>r \<in> set rs. ro_ctxErr r \<or> ro_waitCancelled r \<or> ro_ctxErrAfter r))
    \<and> (\<forall>w \<in> set waits. 0 \<le> w \<and> w \<le> (if ic_BackoffMax cfg \<le> 0 then 30 * Second else ic_BackoffMax cfg))
    \<and> im_reconnects m' = im_reconnects m + length waits"
  using ingest_loop_trace[OF assms(1,2) assms(3)[unfolded IngestRun_def]] by simp

definition failing_round :: round where
  "failing_round = \<lparr>ro_ctxErr = False, ro_rand = (\<lambda>n. n - 1), ro_waitCancelled = False,
     ro_cycle = sample_cycle\<lparr>cy_dial := False\<rparr>, ro_ctxErrAfter = False\<rparr>"

theorem IngestRun_resilient_witness:
  "\<exists>m'. IngestRun (store_ds pgx_us) (IngestConfigFromEnv (\<lambda>_. None) (\<lambda>_. [])) [failing_round, failing_round, failing_round\<lparr>ro_ctxErr := True\<rparr>]
       (empty_db, zero_metrics) = (RunReturned, [Second], empty_db, m') \<and> im_reconnects m' = 1"
proof -
  let ?cfg = "IngestConfigFromEnv (\<lambda>_. None) (\<lambda>_. [])"
  let ?rs = "[failing_round, failing_round, failing_round\<lparr>ro_ctxErr := True\<rparr>]"
  let ?r = "IngestRun (store_ds pgx_us) ?cfg ?rs (empty_db, zero_metrics)"
  have cap: "ic_BackoffMax ?cfg = 30 * Second" "ic_BackoffBase ?cfg = Second"
    by (simp_all add: IngestConfigFromEnv_def ingest_envDuration_def)
  then have c: "in_int64 (ic_BackoffMax ?cfg)" by (simp add: in_int64_def Second_def)
  have r: "\<forall>r \<in> set ?rs. rand_ok (ro_rand r)" by (simp add: failing_round_def rand_ok_def)
  have "?r = (RunReturned, [Second], empty_db, snd (snd (snd ?r)))"
    by (simp add: IngestRun_def failing_round_def cycle_def set_connected_def sample_cycle_def cap Let_def
        backoffDuration_def backoff_delay_def wrap64_def Second_def go_div_def)
  from IngestRun_resilient[OF c r this] this show ?thesis
    by (intro exI[of _ "snd (snd (snd ?r))"]) (simp add: zero_metrics_def)
qed

end
