(* ===== verification/Interference.thy ===== *)
theory Interference
  imports Ingest
begin

text \<open>
  The ingest client beside other writers. In \<^verbatim>\<open>serve\<close> the stream consumer shares the database with the retention job, and
  a seed command may run against the same database. The store \<open>shared_ds\<close> lets any list of store calls by others happen
  before each call of the client; since the client is a function of its \<^verbatim>\<open>DataStore\<close>, running it on \<open>shared_ds\<close> is
  running it in that interleaving. The locale \<open>growing_store\<close> is what the client needs of a store for its events to
  survive; it is interpreted on \<open>shared_ds\<close>.
\<close>

section \<open>Calls of others\<close>

definition others :: "pgx \<Rightarrow> db \<times> store_call list list \<Rightarrow> db \<times> store_call list list" where
  "others P s = (case snd s of [] \<Rightarrow> s | cs # rest \<Rightarrow> (foldl (run_call P) (fst s) cs, rest))"

definition shared_ds :: "pgx \<Rightarrow> (db \<times> store_call list list) IngestDataStore" where
  "shared_ds P = \<lparr>
     ds_ReconcileSnapshot = (\<lambda>f items now s.
       let (db, rest) = others P s; (r, db') = ReconcileSnapshot P f items now db in (r, db', rest)),
     ds_IngestEvent = (\<lambda>f ev s.
       let (db, rest) = others P s; (r, db') = IngestEvent P f ev db in (r, db', rest))\<rparr>"

section \<open>What never gets lost\<close>

text \<open>From one database to a later one: no raw event from \<open>c\<close> on disappears and no item moves back.\<close>

definition db_grows :: "pg_time \<Rightarrow> db \<Rightarrow> db \<Rightarrow> bool" where
  "db_grows c db db' \<longleftrightarrow>
     (\<forall>r \<in> set (item_events db). c \<le> ie_time r \<longrightarrow> ie_key r \<in> ie_key ` set (item_events db')) \<and>
     (\<forall>i r. lookup ci_id (current_items db) i = Some r \<longrightarrow>
        (\<exists>r'. lookup ci_id (current_items db') i = Some r' \<and> ci_last r \<le> ci_last r'))"

lemma db_grows_refl: "db_grows c db db"
  by (auto simp: db_grows_def)

lemma db_grows_trans: "db_grows c a b \<Longrightarrow> db_grows c b d \<Longrightarrow> db_grows c a d"
proof -
  assume ab: "db_grows c a b" and bd: "db_grows c b d"
  have "ie_key r \<in> ie_key ` set (item_events d)" if r: "r \<in> set (item_events a)" "c \<le> ie_time r" for r
  proof -
    obtain q where q: "q \<in> set (item_events b)" "ie_key q = ie_key r" using ab r by (force simp: db_grows_def)
    then have "c \<le> ie_time q" using r(2) by (simp add: ie_key_def)
    with bd q(1) have "ie_key q \<in> ie_key ` set (item_events d)" by (simp add: db_grows_def)
    with q(2) show ?thesis by simp
  qed
  moreover have "\<exists>r'. lookup ci_id (current_items d) i = Some r' \<and> ci_last r \<le> ci_last r'"
    if "lookup ci_id (current_items a) i = Some r" for i r
    using ab bd that unfolding db_grows_def by (meson order_trans)
  ultimately show ?thesis by (auto simp: db_grows_def)
qed

context upsert_table
begin

lemma foldl_upsert_grows:
  fixes m :: "'r \<Rightarrow> int"
  assumes "\<And>a b. m a \<le> m (upd a b)" "lookup key rs k = Some r"
  shows "\<exists>r'. lookup key (foldl (upsert key upd) rs news) k = Some r' \<and> m r \<le> m r'"
  using assms(2)
proof (induction news arbitrary: rs r)
  case (Cons n news)
  obtain r1 where "lookup key (upsert key upd rs n) k = Some r1" "m r \<le> m r1"
    using Cons.prems assms(1)[of r n] by (cases "k = key n") (simp_all add: lookup_upsert)
  with Cons.IH[OF this(1)] show ?case by (auto intro: order_trans)
qed simp

end

lemma event_effect_grows: "db_grows c db (event_effect P ev db)"
  using items_ev.foldl_upsert_grows[of ci_last "current_items db" _ _ "[event_item P ev]"]
  by (auto simp: db_grows_def event_effect_def ci_upd_event_def)

lemma batch_effect_grows: "db_grows c db (batch_effect P evs db)"
  using items_ev.foldl_upsert_grows[of ci_last "current_items db"]
  by (auto simp: db_grows_def batch_effect_def ci_upd_event_def)

lemma reconcile_effect_grows: "db_grows c db (reconcile_effect P items now db)"
proof -
  have "\<exists>r'. lookup ci_id (current_items (reconcile_effect P items now db)) i = Some r' \<and> ci_last r \<le> ci_last r'"
    if r: "lookup ci_id (current_items db) i = Some r" for i r
  proof -
    obtain q where "lookup ci_id (foldl (upsert ci_id ci_upd_snapshot) (current_items db) (map (snapshot_row P now) items)) i = Some q"
      "ci_last r \<le> ci_last q"
      using items_snap.foldl_upsert_grows[of ci_last, OF _ r] by (auto simp: ci_upd_snapshot_def)
    then show ?thesis by (auto simp: reconcile_effect_def lookup_map)
  qed
  moreover have "item_events (reconcile_effect P items now db) = item_events db" by (simp add: reconcile_effect_def)
  ultimately show ?thesis by (auto simp: db_grows_def)
qed

text \<open>Calls whose retention cutoffs do not pass \<open>c\<close>.\<close>

fun spares :: "pgx \<Rightarrow> pg_time \<Rightarrow> store_call \<Rightarrow> bool" where
  "spares P c (CallRetain f cutoff) = (pg_enc P cutoff \<le> c)"
| "spares P c call = True"

lemma run_call_grows:
  assumes "spares P c call"
  shows "db_grows c db (run_call P db call)"
proof (cases call)
  case (CallIngest f ev)
  obtain r db' where "IngestEvent P f ev db = (r, db')" by fastforce
  with CallIngest show ?thesis by (auto elim!: IngestEvent_cases simp: db_grows_refl event_effect_grows)
next
  case (CallBatch f evs)
  obtain r db' where "IngestEventsBatch P f evs db = (r, db')" by fastforce
  with CallBatch show ?thesis by (auto elim!: IngestEventsBatch_cases simp: db_grows_refl batch_effect_grows)
next
  case (CallReconcile f items now)
  obtain r db' where "ReconcileSnapshot P f items now db = (r, db')" by fastforce
  with CallReconcile show ?thesis by (auto elim!: ReconcileSnapshot_cases simp: db_grows_refl reconcile_effect_grows)
next
  case (CallMarker f m)
  obtain r db' where "UpsertSeedMarker P f m db = (r, db')" by fastforce
  with CallMarker show ?thesis by (auto elim!: UpsertSeedMarker_cases simp: db_grows_def)
next
  case (CallRetain f cutoff)
  obtain r db' where "DeleteEventsOlderThan P f cutoff db = (r, db')" by fastforce
  with CallRetain assms show ?thesis by (auto elim!: DeleteEventsOlderThan_cases simp: db_grows_def)
qed

lemma run_calls_grow: "\<forall>call \<in> set cs. spares P c call \<Longrightarrow> db_grows c db (foldl (run_call P) db cs)"
  by (induction cs arbitrary: db) (auto simp: db_grows_refl intro: db_grows_trans run_call_grows)

section \<open>The client on a growing store\<close>

text \<open>What the client needs for its events to survive: under an invariant that its own calls keep, an ingestion that
  succeeds makes the event known, and no call makes an event unknown.\<close>

locale growing_store = live_store D
  for D :: "'s IngestDataStore" +
  fixes inv :: "'s \<Rightarrow> bool" and known :: "EventRecord \<Rightarrow> 's \<Rightarrow> bool"
  assumes ing_inv: "inv s \<Longrightarrow> ds_IngestEvent D f ev s = (r, s') \<Longrightarrow> inv s'"
    and ing_known: "inv s \<Longrightarrow> ds_IngestEvent D f ev s = (Inr b, s') \<Longrightarrow> known ev s'"
    and ing_keep: "inv s \<Longrightarrow> ds_IngestEvent D f ev s = (r, s') \<Longrightarrow> known x s \<Longrightarrow> known x s'"
    and rec_inv: "inv s \<Longrightarrow> ds_ReconcileSnapshot D f items now s = (r', s') \<Longrightarrow> inv s'"
    and rec_keep: "inv s \<Longrightarrow> ds_ReconcileSnapshot D f items now s = (r', s') \<Longrightarrow> known x s \<Longrightarrow> known x s'"
begin

lemma retry_grows:
  assumes "inv s" "retry_event D event as (s, m) = (q, s', m')"
  shows "inv s' \<and> (\<forall>x. known x s \<longrightarrow> known x s') \<and>
    (\<forall>ev. q = Handled \<and> to_record event = Some ev \<longrightarrow> known ev s' \<and> acked_total m' = acked_total m + 1) \<and>
    (to_record event = None \<longrightarrow> m' = m)"
  using assms
proof (induction as arbitrary: s)
  case (Cons a as)
  show ?case
  proof (cases "to_record event")
    case None
    then show ?thesis using Cons.prems by (simp add: handleEvent_malformed)
  next
    case (Some ev)
    obtain res s1 where ing: "ds_IngestEvent D (at_faults a) ev s = (res, s1)" by fastforce
    note h = handleEvent_wellformed[OF Some ing, of m]
    have s1: "inv s1" "\<forall>x. known x s \<longrightarrow> known x s1"
      using ing_inv[OF Cons.prems(1) ing] ing_keep[OF Cons.prems(1) ing] by blast+
    show ?thesis
    proof (cases res)
      case (Inr b)
      then have "s' = s1" "q = Handled" "acked_total m' = acked_total m + 1"
        using Cons.prems(2) h ingested_total_inc[OF to_record_type[OF Some]]
        by (auto simp: acked_total_def split: if_splits)
      with s1 Some ing_known[OF Cons.prems(1) ing[unfolded Inr]] show ?thesis by simp
    next
      case (Inl e)
      show ?thesis
      proof (cases "at_cancelled a")
        case True
        then show ?thesis using Cons.prems(2) h Inl s1 by auto
      next
        case False
        then have "retry_event D event as (s1, m) = (q, s', m')" using Cons.prems(2) h Inl by simp
        from Cons.IH[OF s1(1) this] s1(2) show ?thesis by auto
      qed
    qed
  qed
qed simp

lemma recv_grows:
  assumes "inv s" "recv_loop D rs (s, m) = (Some e, s', m')" "e \<noteq> CtxErr"
  shows "inv s' \<and> (\<forall>x. known x s \<longrightarrow> known x s') \<and> (\<forall>ev \<in> set (received_events rs). known ev s')
    \<and> acked_total m' = acked_total m + length (received_events rs)"
  using assms(1,2)
proof (induction rs arbitrary: s m)
  case (Cons r rs)
  show ?case
  proof (cases r)
    case (RecvEvent event as)
    obtain q s1 m1 where q: "retry_event D event as (s, m) = (q, s1, m1)" by (meson prod_cases3)
    with Cons.prems(2) RecvEvent assms(3) have h: "q = Handled" "recv_loop D rs (s1, m1) = (Some e, s', m')"
      by (cases q; simp)+
    note g = retry_grows[OF Cons.prems(1) q]
    from Cons.IH[OF conjunct1[OF g] h(2)] g h(1) RecvEvent show ?thesis by (cases "to_record event") auto
  qed (use Cons.prems in auto)
qed simp

text \<open>A whole cycle, whatever ends it, loses nothing, and a stream that ended has delivered everything it received.\<close>

lemma cycle_grows:
  assumes "inv s" "cycle D c (s, m) = (q, s', m')"
  shows "inv s' \<and> (\<forall>x. known x s \<longrightarrow> known x s') \<and>
    (\<forall>e ev. q = CycleRet True e \<and> e \<noteq> CtxErr \<and> ev \<in> set (received_events (cy_recvs c)) \<longrightarrow> known ev s')"
proof -
  have fst: "s' = fst (snd (cycle D c (s, m)))" using assms(2) by simp
  have ci: "I s'" if "I s" "\<And>f ev t. I t \<Longrightarrow> I (snd (ds_IngestEvent D f ev t))"
      "\<And>f items now t. I t \<Longrightarrow> I (snd (ds_ReconcileSnapshot D f items now t))" for I
    unfolding fst using ingest_invariant.cycle_keeps[of D I "\<lambda>_. True" "\<lambda>_. True" c "(s, m)"] that
    by (simp add: ingest_invariant_def)
  have inv': "inv s'"
    by (rule ci[where I = inv]) (use assms(1) ing_inv rec_inv in \<open>metis prod.collapse\<close>)+
  have keep: "known x s'" if "known x s" for x
  proof -
    have "inv s' \<and> known x s'"
      by (rule ci[where I = "\<lambda>t. inv t \<and> known x t"])
        (use assms(1) that ing_inv rec_inv ing_keep rec_keep in \<open>metis prod.collapse\<close>)+
    then show ?thesis by simp
  qed
  have "known ev s'" if q: "q = CycleRet True e" "e \<noteq> CtxErr" "ev \<in> set (received_events (cy_recvs c))" for e ev
  proof -
    obtain s1 m1 where sr: "snapshotReconcile D (cy_list c) (cy_now c) (cy_faults c) (s, m) = (None, s1, m1)"
      and rl: "recv_loop D (cy_recvs c) (s1, m1\<lparr>im_streamConnected := 1\<rparr>) = (Some e, s', snd (snd (recv_loop D (cy_recvs c) (s1, m1\<lparr>im_streamConnected := 1\<rparr>))))"
      using assms(2) q(1) by (auto simp: cycle_def set_connected_def split: if_splits prod.splits option.splits)
    have "inv s1"
      using sr assms(1) rec_inv by (auto simp: snapshotReconcile_def Let_def split: option.splits prod.splits sum.splits)
    from recv_grows[OF this rl q(2)] q(3) show ?thesis by blast
  qed
  with inv' keep show ?thesis by blast
qed

end

text \<open>An event is known: its raw row is stored unless it is older than \<open>c\<close>, and its item is no older than it.\<close>

definition event_known :: "pgx \<Rightarrow> pg_time \<Rightarrow> EventRecord \<Rightarrow> db \<Rightarrow> bool" where
  "event_known P c ev db \<longleftrightarrow>
     (c \<le> pg_enc P (ev_EventTime ev) \<longrightarrow> event_key P ev \<in> ie_key ` set (item_events db)) \<and>
     (\<exists>r. lookup ci_id (current_items db) (ev_ItemID ev) = Some r \<and> pg_enc P (ev_EventTime ev) \<le> ci_last r)"

lemma event_known_grows: "event_known P c ev db \<Longrightarrow> db_grows c db db' \<Longrightarrow> event_known P c ev db'"
proof -
  assume k: "event_known P c ev db" and g: "db_grows c db db'"
  have "event_key P ev \<in> ie_key ` set (item_events db')" if c: "c \<le> pg_enc P (ev_EventTime ev)"
  proof -
    have "event_key P ev \<in> ie_key ` set (item_events db)" using k c by (simp add: event_known_def)
    then obtain r where r: "r \<in> set (item_events db)" "ie_key r = event_key P ev" by (metis imageE)
    then have "ie_time r = pg_enc P (ev_EventTime ev)" by (simp add: ie_key_def event_key_def event_row_def)
    then have "ie_key r \<in> ie_key ` set (item_events db')" using g r(1) c by (simp add: db_grows_def)
    with r(2) show ?thesis by simp
  qed
  moreover have "\<exists>r. lookup ci_id (current_items db') (ev_ItemID ev) = Some r \<and> pg_enc P (ev_EventTime ev) \<le> ci_last r"
    using k g unfolding event_known_def db_grows_def by (meson order_trans)
  ultimately show ?thesis by (simp add: event_known_def)
qed

lemma event_known_effect: "event_known P c ev (event_effect P ev db)"
proof -
  have "event_key P ev \<in> ie_key ` set (item_events (event_effect P ev db))"
    using not_fresh_effect[of P ev db] by (simp add: event_fresh_def lookup_None_iff)
  moreover have "ci_id (event_item P ev) = ev_ItemID ev" "ci_last (event_item P ev) = pg_enc P (ev_EventTime ev)"
    by (simp_all add: event_item_def Let_def)
  ultimately show ?thesis
    by (auto simp: event_known_def items_ev.lookup_upsert ci_upd_event_def split: option.split)
qed

definition all_spare :: "pgx \<Rightarrow> pg_time \<Rightarrow> db \<times> store_call list list \<Rightarrow> bool" where
  "all_spare P c s \<longleftrightarrow> (\<forall>cs \<in> set (snd s). \<forall>call \<in> set cs. spares P c call)"

lemma others_grow: "all_spare P c s \<Longrightarrow> others P s = (db, rest) \<Longrightarrow> db_grows c (fst s) db \<and> all_spare P c (db, rest)"
  by (auto simp: others_def all_spare_def db_grows_refl split: list.splits intro: run_calls_grow)

lemma shared_ingest:
  assumes "ds_IngestEvent (shared_ds P) f ev s = (r, s')"
  obtains db where "others P s = (db, snd s')" "IngestEvent P f ev db = (r, fst s')"
  using assms by (auto simp: shared_ds_def Let_def split: prod.splits)

interpretation store_shared: growing_store "shared_ds P" "all_spare P c" "\<lambda>ev s. event_known P c ev (fst s)" for P c
proof unfold_locales
  fix s f ev r s'
  assume inv: "all_spare P c s" and run: "ds_IngestEvent (shared_ds P) f ev s = (r, s')"
  obtain db where o: "others P s = (db, snd s')" and i: "IngestEvent P f ev db = (r, fst s')" using run by (rule shared_ingest)
  note g = others_grow[OF inv o]
  show "all_spare P c s'" using g by (simp add: all_spare_def)
  have "db_grows c db (fst s')" using i by (auto elim!: IngestEvent_cases simp: db_grows_refl event_effect_grows)
  then show "event_known P c x (fst s')" if "event_known P c x (fst s)" for x
    using event_known_grows[OF event_known_grows[OF that]] g by blast
next
  fix s f ev b s'
  assume "all_spare P c s" "ds_IngestEvent (shared_ds P) f ev s = (Inr b, s')"
  then obtain db where "IngestEvent P f ev db = (Inr b, fst s')" by (auto elim: shared_ingest)
  then show "event_known P c ev (fst s')" by (auto elim!: IngestEvent_cases simp: event_known_effect)
next
  show "\<exists>b s'. ds_IngestEvent (shared_ds P) no_faults ev s = (Inr b, s')" if "event_storable ev" for ev s
    using that by (auto simp: shared_ds_def Let_def IngestEvent_no_faults split: prod.splits)
next
  fix s f items now r s'
  assume inv: "all_spare P c s" and run: "ds_ReconcileSnapshot (shared_ds P) f items now s = (r, s')"
  obtain db where o: "others P s = (db, snd s')" and i: "ReconcileSnapshot P f items now db = (r, fst s')"
    using run by (auto simp: shared_ds_def Let_def split: prod.splits)
  note g = others_grow[OF inv o]
  show "all_spare P c s'" using g by (simp add: all_spare_def)
  have "db_grows c db (fst s')" using i by (auto elim!: ReconcileSnapshot_cases simp: db_grows_refl reconcile_effect_grows)
  then show "event_known P c x (fst s')" if "event_known P c x (fst s)" for x
    using event_known_grows[OF event_known_grows[OF that]] g by blast
qed

section \<open>Properties\<close>

text \<open>No event is lost beside other writers. Let any other store calls (seed batches, reconciles, ingestions,
  marker writes, retention passes) happen between the calls of the receive loop, with any faults. When the stream has
  ended, every well-formed event received is known: its raw row is stored unless a retention pass of the run
  may have reached it, its item exists with a last-seen time not before it, and it was counted once. And if every event
  has a name PostgreSQL can hold and meets a fault-free attempt before a cancellation, the loop does end, whatever the others do.\<close>
theorem concurrent_stream_no_loss:
  assumes "\<forall>cs \<in> set calls. \<forall>call \<in> set cs. spares P c call"
  shows "(\<forall>e db' calls' m'. recv_loop (shared_ds P) rs ((db, calls), m) = (Some e, (db', calls'), m') \<and> e \<noteq> CtxErr \<longrightarrow>
       (\<forall>ev \<in> set (received_events rs). event_known P c ev db')
       \<and> acked_total m' = acked_total m + length (received_events rs))
    \<and> ((\<forall>event as. RecvEvent event as \<in> set rs \<longrightarrow>
          (\<exists>a \<in> set as. at_faults a = no_faults) \<and> (\<forall>a \<in> set as. \<not> at_cancelled a) \<and> text_ok (pi_Name (pe_Item event)))
       \<and> (RecvEOF \<in> set rs \<or> RecvError \<in> set rs)
       \<longrightarrow> fst (recv_loop (shared_ds P) rs ((db, calls), m)) \<in> {Some StreamClosed, Some StreamRecvErr})"
proof -
  have inv: "all_spare P c (db, calls)" using assms by (simp add: all_spare_def)
  have "(\<forall>ev \<in> set (received_events rs). event_known P c ev db') \<and> acked_total m' = acked_total m + length (received_events rs)"
    if "recv_loop (shared_ds P) rs ((db, calls), m) = (Some e, (db', calls'), m')" "e \<noteq> CtxErr" for e db' calls' m'
    using store_shared.recv_grows[OF inv that] by simp
  then show ?thesis using store_shared.recv_live[of rs P "((db, calls), m)"] by (simp del: no_faults_apply)
qed

text \<open>An event whose first acknowledgement is lost.\<close>

definition stale_stream :: "recv list" where
  "stale_stream =
     [RecvEvent created_widget [\<lparr>at_faults = lost_commit, at_cancelled = False\<rparr>, \<lparr>at_faults = no_faults, at_cancelled = False\<rparr>],
      RecvEOF]"

theorem concurrent_stream_no_loss_witness:
  "\<exists>e db' calls' m'. recv_loop (shared_ds pgx_us) stale_stream ((empty_db, [[], [CallRetain no_faults (80 * Second)]]), zero_metrics)
       = (Some e, (db', calls'), m')
     \<and> event_known pgx_us (80 * 1000000) \<lparr>ev_ItemID = 7, ev_ItemName = ''widget'', ev_EventType = ''created'', ev_EventTime = 90 * Second\<rparr> db'"
proof -
  let ?calls = "[[], [CallRetain no_faults (80 * Second)]]"
  obtain q db' calls' m' where run: "recv_loop (shared_ds pgx_us) stale_stream ((empty_db, ?calls), zero_metrics) = (q, (db', calls'), m')"
    by (metis prod_cases3 surj_pair)
  have sp: "\<forall>cs \<in> set ?calls. \<forall>call \<in> set cs. spares pgx_us (80 * 1000000) call" by (simp add: Second_def)
  have rec: "received_events stale_stream = [\<lparr>ev_ItemID = 7, ev_ItemName = ''widget'', ev_EventType = ''created'', ev_EventTime = 90 * Second\<rparr>]"
    by (simp add: stale_stream_def to_record_def created_widget_def eventTypeNames_def handle_record_def)
  have live: "\<forall>event as. RecvEvent event as \<in> set stale_stream \<longrightarrow>
      (\<exists>a \<in> set as. at_faults a = no_faults) \<and> (\<forall>a \<in> set as. \<not> at_cancelled a) \<and> text_ok (pi_Name (pe_Item event))" "RecvEOF \<in> set stale_stream"
    by (auto simp: stale_stream_def created_widget_def text_ok_def simp del: no_faults_apply)
  note nl = concurrent_stream_no_loss[OF sp, of stale_stream empty_db zero_metrics]
  from nl live run have "q = Some StreamClosed \<or> q = Some StreamRecvErr" by auto
  with nl run rec show ?thesis by auto
qed

text \<open>Retries beside retention can count an event twice. An event older than the horizon is committed, its acknowledgement is
  lost, the retention job removes its raw row, and the same-event retry inserts it again: one event was delivered, and
  its hourly bucket grows by two.\<close>
theorem retry_beside_retention_counts_twice:
  assumes "to_record event = Some ev" "event_storable ev" "event_fresh P ev db" "pg_enc P (ev_EventTime ev) < pg_enc P cutoff"
  shows "\<exists>db' m'. retry_event (shared_ds P) event
       [\<lparr>at_faults = lost_commit, at_cancelled = False\<rparr>, \<lparr>at_faults = no_faults, at_cancelled = False\<rparr>]
       ((db, [[], [CallRetain no_faults cutoff]]), m) = (Handled, (db', []), m')
     \<and> acked_total m' = acked_total m + 1
     \<and> bucket_count (event_buckets db') (row_bucket (event_row P ev))
         = bucket_count (event_buckets db) (row_bucket (event_row P ev)) + 2"
proof -
  note ok = assms(2)
  define db1 where "db1 = event_effect P ev db"
  define db2 where "db2 = run_call P db1 (CallRetain no_faults cutoff)"
  have db2: "db2 = db1\<lparr>item_events := filter (\<lambda>r. \<not> ie_time r < pg_enc P cutoff) (item_events db1)\<rparr>"
    by (simp add: db2_def DeleteEventsOlderThan_def delete_where_def)
  have fresh: "event_fresh P ev db2"
    using assms(4) by (auto simp: event_fresh_def lookup_None_iff db2 event_key_def ie_key_def event_row_def)
  have 1: "ds_IngestEvent (shared_ds P) lost_commit ev (db, [[], [CallRetain no_faults cutoff]])
      = (Inl CommitIngest, (db1, [[CallRetain no_faults cutoff]]))"
    using ok by (simp add: shared_ds_def others_def IngestEvent_unfold lost_commit_def db1_def)
  have 2: "ds_IngestEvent (shared_ds P) no_faults ev (db1, [[CallRetain no_faults cutoff]])
      = (Inr True, (event_effect P ev db2, []))"
    using ok fresh by (simp add: shared_ds_def others_def IngestEvent_no_faults db2_def[symmetric] del: run_call.simps)
  have "bucket_count (event_buckets (event_effect P ev db2)) (row_bucket (event_row P ev))
      = bucket_count (event_buckets db) (row_bucket (event_row P ev)) + 2"
    using assms(3) fresh bucket_count_effect[of P ev db2] bucket_count_effect[of P ev db] by (simp add: db2 db1_def)
  then show ?thesis
    using handleEvent_wellformed[OF assms(1) 1, of m] handleEvent_wellformed[OF assms(1) 2, of m]
      ingested_total_inc[OF to_record_type[OF assms(1)]] by (simp add: acked_total_def)
qed

theorem retry_beside_retention_counts_twice_witness:
  "\<exists>db' m'. retry_event (shared_ds pgx_us) created_widget
       [\<lparr>at_faults = lost_commit, at_cancelled = False\<rparr>, \<lparr>at_faults = no_faults, at_cancelled = False\<rparr>]
       ((empty_db, [[], [CallRetain no_faults (100 * Second)]]), zero_metrics) = (Handled, (db', []), m')
     \<and> bucket_count (event_buckets db') (0, ''created'') = 2"
proof -
  let ?ev = "handle_record created_widget ''created''"
  have r: "to_record created_widget = Some ?ev"
    by (simp add: to_record_def created_widget_def eventTypeNames_def)
  have f: "event_fresh pgx_us ?ev empty_db" by (simp add: event_fresh_def empty_db_def)
  have t: "pg_enc pgx_us (ev_EventTime ?ev) < pg_enc pgx_us (100 * Second)"
    by (simp add: handle_record_def created_widget_def Second_def)
  have k: "row_bucket (event_row pgx_us ?ev) = (0, ''created'')"
    by (simp add: row_bucket_def event_row_def handle_record_def created_widget_def Second_def date_trunc_hour_def hour_us_def)
  have "event_storable ?ev" by (simp add: handle_record_def created_widget_def storable_defs)
  from retry_beside_retention_counts_twice[OF r this f t, of zero_metrics] show ?thesis
    by (simp only: k) (auto simp: bucket_count_def empty_db_def)
qed

section \<open>Reachability\<close>

text \<open>An invariant of the database that the calls of others and the client's own calls keep is kept by a whole run.\<close>

lemma shared_run_inv:
  assumes "IngestRun (shared_ds P) cfg rs (s, m) = (res, waits, s', m')" "I (fst s)"
    and "\<forall>cs \<in> set (snd s). \<forall>call \<in> set cs. K call"
    and calls: "\<And>db call. I db \<Longrightarrow> K call \<Longrightarrow> I (run_call P db call)"
    and own: "\<And>f ev. Q ev \<Longrightarrow> K (CallIngest f ev)" "\<And>f items now. \<forall>it \<in> set items. S it \<Longrightarrow> K (CallReconcile f items now)"
    and inputs: "\<forall>r \<in> set rs. cycle_inputs Q S (ro_cycle r)"
  shows "I (fst s')"
proof -
  define J where "J s \<longleftrightarrow> I (fst s) \<and> (\<forall>cs \<in> set (snd s). \<forall>call \<in> set cs. K call)" for s
  have fold: "I db \<Longrightarrow> \<forall>call \<in> set cs. K call \<Longrightarrow> I (foldl (run_call P) db cs)" for db cs
    by (induction cs arbitrary: db) (auto intro: calls)
  have others: "J (others P s)" if "J s" for s
    using that fold by (cases "snd s") (simp_all add: others_def J_def)
  have "ingest_invariant (shared_ds P) J Q S"
  proof
    show "J (snd (ds_IngestEvent (shared_ds P) f ev s))" if "Q ev" "J s" for f ev s
      using others[OF that(2)] calls[OF _ own(1)[OF that(1)], of "fst (others P s)" f]
      by (simp add: J_def shared_ds_def Let_def case_prod_beta)
    show "J (snd (ds_ReconcileSnapshot (shared_ds P) f items now s))" if "\<forall>it \<in> set items. S it" "J s" for f items now s
      using others[OF that(2)] calls[OF _ own(2)[OF that(1)], of "fst (others P s)" f now]
      by (simp add: J_def shared_ds_def Let_def case_prod_beta)
  qed
  moreover have "J s" using assms(2,3) by (simp add: J_def)
  ultimately have "J s'"
    using ingest_invariant.run_keeps[OF _ assms(1)[unfolded IngestRun_def]] inputs by simp
  then show ?thesis by (simp add: J_def)
qed

lemma shared_run_reachable:
  assumes "IngestRun (shared_ds P) cfg rs (s, m) = (res, waits, s', m')" "db_reachable P (fst s)"
  shows "db_reachable P (fst s')"
  by (rule shared_run_inv[where I = "db_reachable P" and K = "\<lambda>_. True" and Q = "\<lambda>_. True" and S = "\<lambda>_. True", OF assms]) (simp_all add: run_call_reachable)

fun expires :: "store_call \<Rightarrow> bool" where
  "expires (CallRetain f cutoff) = True"
| "expires call = False"

lemma shared_run_exact:
  assumes "IngestRun (shared_ds P) cfg rs (s, m) = (res, waits, s', m')" "db_exact P (fst s)"
    and "\<forall>cs \<in> set (snd s). \<forall>call \<in> set cs. \<not> expires call"
  shows "db_exact P (fst s')"
proof (rule shared_run_inv[where I = "db_exact P" and K = "\<lambda>call. \<not> expires call" and Q = "\<lambda>_. True" and S = "\<lambda>_. True", OF assms])
  show "db_exact P (run_call P db call)" if "db_exact P db" "\<not> expires call" for db call
    using db_exact_ops[OF that(1)] that(2) by (cases call) simp_all
qed simp_all

end
