(* ===== verification/Float64.thy ===== *)
theory Float64
  imports Analytics_Prelude
begin

text \<open>
  IEEE 754 binary64 as Go's \<^verbatim>\<open>float64\<close> on amd64 evaluates it (every operation rounded on its own, no
  fused multiply-add), with real numbers for the values: an operation is the exact real result
  rounded by \<open>fl\<close>, to nearest with ties to even, 53 bits of significand and gradual underflow
  below 2^-1022. The overflow to an infinity is outside the model (no quantity of the program comes near
  2^1024), and so are NaN and the sign of zero. Conversion to \<^verbatim>\<open>int64\<close> truncates; out of range it
  gives the value amd64 gives.

  The lemmas are those the components need: rounding is monotone, odd, exact on the integers up to
  2^53, and has relative error at most 2^-53 in the normal range.
\<close>

section \<open>Definitions\<close>

definition round_even :: "real \<Rightarrow> int" where
  "round_even x =
     (let n = \<lfloor>x\<rfloor>; d = x - of_int n
      in if d < 1 / 2 then n else if d > 1 / 2 then n + 1 else if even n then n else n + 1)"

text \<open>The exponent of the binade of a number, clamped at the least normal one.\<close>

definition fl_exp :: "real \<Rightarrow> int" where
  "fl_exp x = max \<lfloor>log 2 \<bar>x\<bar>\<rfloor> (- 1022)"

definition fl :: "real \<Rightarrow> real" where
  "fl x = (if x = 0 then 0
           else of_int (round_even (x / 2 powi (fl_exp x - 52))) * 2 powi (fl_exp x - 52))"

definition fadd :: "real \<Rightarrow> real \<Rightarrow> real" where "fadd x y = fl (x + y)"
definition fsub :: "real \<Rightarrow> real \<Rightarrow> real" where "fsub x y = fl (x - y)"
definition fmul :: "real \<Rightarrow> real \<Rightarrow> real" where "fmul x y = fl (x * y)"
definition fdiv :: "real \<Rightarrow> real \<Rightarrow> real" where "fdiv x y = fl (x / y)"

lemmas flops = fadd_def fsub_def fmul_def fdiv_def

text \<open>\<^verbatim>\<open>int64(x)\<close>\<close>

definition float_to_int64 :: "real \<Rightarrow> int" where
  "float_to_int64 x =
     (let n = (if x \<ge> 0 then \<lfloor>x\<rfloor> else \<lceil>x\<rceil>) in if in_int64 n then n else - (2 ^ 63))"

text \<open>\<^verbatim>\<open>math.Floor\<close> (exact: the floor of a binary64 number is one).\<close>

definition ffloor :: "real \<Rightarrow> real" where
  "ffloor x = of_int \<lfloor>x\<rfloor>"

text \<open>\<^verbatim>\<open>math.Round\<close> rounds half away from zero.\<close>

definition fround :: "real \<Rightarrow> real" where
  "fround x = (if x \<ge> 0 then of_int \<lfloor>x + 1 / 2\<rfloor> else of_int \<lceil>x - 1 / 2\<rceil>)"

section \<open>Rounding to an integer\<close>

lemma round_even_of_int [simp]: "round_even (of_int n) = n"
  by (simp add: round_even_def)

lemma round_even_err: "\<bar>of_int (round_even x) - x\<bar> \<le> 1 / 2"
  unfolding round_even_def Let_def by (auto simp: abs_if) linarith+

lemma round_even_floor: "\<lfloor>x\<rfloor> \<le> round_even x" "round_even x \<le> \<lfloor>x\<rfloor> + 1"
  by (auto simp: round_even_def Let_def)

lemma round_even_mono: "x \<le> y \<Longrightarrow> round_even x \<le> round_even y"
proof (cases "\<lfloor>x\<rfloor> = \<lfloor>y\<rfloor>")
  case True
  moreover assume "x \<le> y"
  ultimately show ?thesis unfolding round_even_def Let_def by auto
next
  case False
  moreover assume "x \<le> y"
  ultimately have "\<lfloor>x\<rfloor> + 1 \<le> \<lfloor>y\<rfloor>" using floor_mono[of x y] by linarith
  then show ?thesis using round_even_floor[of x] round_even_floor[of y] by linarith
qed

lemma round_even_minus: "round_even (- x) = - round_even x"
proof (cases "x \<in> \<int>")
  case True
  then obtain n where "x = of_int n" by (auto elim: Ints_cases)
  then show ?thesis by (metis of_int_minus round_even_of_int)
next
  case False
  then have "\<lceil>x\<rceil> = \<lfloor>x\<rfloor> + 1" by (metis Ints_of_int ceiling_altdef)
  then have fl: "\<lfloor>- x\<rfloor> = - \<lfloor>x\<rfloor> - 1" by (simp add: floor_minus)
  have "- x - of_int \<lfloor>- x\<rfloor> = 1 - (x - of_int \<lfloor>x\<rfloor>)" unfolding fl by simp
  then show ?thesis unfolding round_even_def Let_def by (simp add: fl)
qed

section \<open>Binades\<close>

lemma binade: "0 < x \<Longrightarrow> 2 powi \<lfloor>log 2 x\<rfloor> \<le> x \<and> x < 2 powi (\<lfloor>log 2 x\<rfloor> + 1)"
proof -
  assume "0 < x"
  then have "2 powr (of_int \<lfloor>log 2 x\<rfloor>) \<le> x" "x < 2 powr (of_int (\<lfloor>log 2 x\<rfloor> + 1))"
    using floor_log_eq_powr_iff[of x 2 "\<lfloor>log 2 x\<rfloor>"] by simp_all
  moreover have "2 powr (of_int n) = (2::real) powi n" for n by (simp add: powr_real_of_int')
  ultimately show ?thesis by (simp only:)
qed

lemma fl_exp_upper: "0 < x \<Longrightarrow> x < 2 powi (fl_exp x + 1)"
proof -
  assume "0 < x"
  then have "x < 2 powi (\<lfloor>log 2 x\<rfloor> + 1)" using binade by blast
  also have "\<dots> \<le> 2 powi (fl_exp x + 1)"
    using \<open>0 < x\<close> by (intro power_int_increasing) (auto simp: fl_exp_def)
  finally show ?thesis .
qed

lemma fl_exp_lower: "0 < x \<Longrightarrow> 2 powi (- 1022) \<le> x \<Longrightarrow> 2 powi (fl_exp x) \<le> x"
  using binade[of x] by (auto simp: fl_exp_def max_def)

lemma fl_exp_mono: "0 < x \<Longrightarrow> x \<le> y \<Longrightarrow> fl_exp x \<le> fl_exp y"
  unfolding fl_exp_def by (rule max.mono) (auto intro: floor_mono)

lemma powi_split: "(2::real) powi (a + b) = 2 powi a * 2 powi b"
  by (simp add: power_int_add)

lemma fl_scaled:
  assumes "0 < x"
  shows "fl x = of_int (round_even (x / 2 powi (fl_exp x - 52))) * 2 powi (fl_exp x - 52)"
  using assms by (simp add: fl_def)

lemma fl_upper_binade: "0 < x \<Longrightarrow> fl x \<le> 2 powi (fl_exp x + 1)"
proof -
  assume x: "0 < x"
  let ?q = "(2::real) powi (fl_exp x - 52)"
  have q: "0 < ?q" by simp
  have eq: "2 powi (fl_exp x + 1) = 2 ^ 53 * ?q"
    using powi_split[of 53 "fl_exp x - 52"] by (simp add: add.commute)
  have "x / ?q \<le> of_int (2 ^ 53)" using fl_exp_upper[OF x] q unfolding eq by (simp add: divide_le_eq)
  then have "round_even (x / ?q) \<le> 2 ^ 53" using round_even_mono round_even_of_int by metis
  then have "of_int (round_even (x / ?q)) \<le> (2 ^ 53 :: real)" by (metis of_int_le_iff of_int_numeral of_int_power)
  then show ?thesis unfolding fl_scaled[OF x] eq using q by (simp add: mult_right_mono)
qed

lemma fl_lower_binade: "0 < x \<Longrightarrow> 2 powi (fl_exp x) \<le> x \<Longrightarrow> 2 powi (fl_exp x) \<le> fl x"
proof -
  assume x: "0 < x" and le: "2 powi (fl_exp x) \<le> x"
  let ?q = "(2::real) powi (fl_exp x - 52)"
  have q: "0 < ?q" by simp
  have eq: "2 powi (fl_exp x) = 2 ^ 52 * ?q"
    using powi_split[of 52 "fl_exp x - 52"] by simp
  have "of_int (2 ^ 52) \<le> x / ?q" using le q unfolding eq by (simp add: le_divide_eq)
  then have "2 ^ 52 \<le> round_even (x / ?q)" using round_even_mono round_even_of_int by metis
  then have "(2 ^ 52 :: real) \<le> of_int (round_even (x / ?q))" by (metis of_int_le_iff of_int_numeral of_int_power)
  then show ?thesis unfolding fl_scaled[OF x] eq using q by (simp add: mult_right_mono)
qed

section \<open>Rounding to binary64\<close>

lemma fl_0 [simp]: "fl 0 = 0"
  by (simp add: fl_def)

lemma fl_minus [simp]: "fl (- x) = - fl x"
proof -
  have "round_even (- x / 2 powi (fl_exp (- x) - 52)) = - round_even (x / 2 powi (fl_exp x - 52))"
    using round_even_minus[of "x / 2 powi (fl_exp x - 52)"] by (simp add: fl_exp_def)
  then show ?thesis by (simp add: fl_def fl_exp_def)
qed

lemma fl_nonneg: "0 \<le> x \<Longrightarrow> 0 \<le> fl x"
proof -
  assume x: "0 \<le> x"
  have "0 \<le> round_even (x / 2 powi (fl_exp x - 52))"
    using round_even_mono[of 0 "x / 2 powi (fl_exp x - 52)"] round_even_of_int[of 0] x by simp
  then show ?thesis using x by (simp add: fl_def)
qed

lemma fl_mono_pos:
  assumes "0 < x" "x \<le> y"
  shows "fl x \<le> fl y"
proof (cases "fl_exp x = fl_exp y")
  case True
  have "round_even (x / 2 powi (fl_exp y - 52)) \<le> round_even (y / 2 powi (fl_exp y - 52))"
    using assms by (intro round_even_mono divide_right_mono) simp_all
  with assms True show ?thesis by (simp add: fl_scaled mult_right_mono)
next
  case False
  with fl_exp_mono[OF assms] have lt: "fl_exp x + 1 \<le> fl_exp y" by linarith
  then have "fl_exp y > - 1022" by (simp add: fl_exp_def)
  then have ge: "2 powi (fl_exp y) \<le> y" using binade[of y] assms by (auto simp: fl_exp_def max_def split: if_splits)
  have "fl x \<le> 2 powi (fl_exp x + 1)" using fl_upper_binade assms by blast
  also have "\<dots> \<le> 2 powi (fl_exp y)" using lt by (intro power_int_increasing) auto
  also have "\<dots> \<le> fl y" using fl_lower_binade ge assms by auto
  finally show ?thesis .
qed

lemma fl_mono: "x \<le> y \<Longrightarrow> fl x \<le> fl y"
proof -
  assume le: "x \<le> y"
  consider "0 < x" | "x \<le> 0" "0 \<le> y" | "y < 0" by linarith
  then show ?thesis
  proof cases
    case 1
    then show ?thesis using le by (rule fl_mono_pos)
  next
    case 2
    then show ?thesis using fl_nonneg[of y] fl_nonneg[of "- x"] by simp
  next
    case 3
    then show ?thesis using fl_mono_pos[of "- y" "- x"] le by simp
  qed
qed

lemma fl_nonpos: "x \<le> 0 \<Longrightarrow> fl x \<le> 0"
  using fl_mono[of x 0] by simp

lemma fl_err_ulp:
  assumes "x \<noteq> 0"
  shows "\<bar>fl x - x\<bar> \<le> 2 powi (fl_exp x - 52) / 2"
proof -
  define q where "q = (2::real) powi (fl_exp x - 52)"
  have q: "0 < q" by (simp add: q_def)
  have "fl x - x = (of_int (round_even (x / q)) - x / q) * q"
    using assms q by (simp add: fl_def q_def[symmetric] left_diff_distrib)
  then have "\<bar>fl x - x\<bar> = \<bar>of_int (round_even (x / q)) - x / q\<bar> * q" using q by (simp add: abs_mult)
  also have "\<dots> \<le> 1 / 2 * q" using q by (intro mult_right_mono round_even_err) simp
  finally show ?thesis by (simp add: q_def)
qed

lemma fl_err:
  assumes "2 powi (- 1022) \<le> \<bar>x\<bar>"
  shows "\<bar>fl x - x\<bar> \<le> \<bar>x\<bar> / 2 ^ 53"
proof -
  have x: "0 < \<bar>x\<bar>" using assms by (smt (verit) zero_less_power_int)
  have "2 powi (fl_exp x) \<le> \<bar>x\<bar>" using fl_exp_lower[OF x assms] by (simp add: fl_exp_def)
  moreover have "(2::real) powi (fl_exp x) = 2 ^ 52 * 2 powi (fl_exp x - 52)"
    using powi_split[of 52 "fl_exp x - 52"] by simp
  ultimately show ?thesis using fl_err_ulp[of x] x by simp
qed

text \<open>Absolute errors; the quantities of the program are far above the subnormal range.\<close>

lemma normal_range: "1 / 2 ^ 64 \<le> y \<Longrightarrow> 2 powi (- 1022) \<le> (y::real)"
proof -
  assume y: "1 / 2 ^ 64 \<le> y"
  have "(2::real) powi (- 1022) \<le> 2 powi (- 64)" by (rule power_int_increasing) auto
  also have "\<dots> = 1 / 2 ^ 64" by (simp add: power_int_minus_divide)
  finally show ?thesis using y by simp
qed

lemma fl_err_abs:
  assumes "\<bar>x\<bar> \<le> B" "1 / 2 ^ 64 \<le> B"
  shows "\<bar>fl x - x\<bar> \<le> B / 2 ^ 53"
proof (cases "2 powi (- 1022) \<le> \<bar>x\<bar>")
  case True
  have "\<bar>x\<bar> / 2 ^ 53 \<le> B / 2 ^ 53" using assms(1) by (simp add: divide_right_mono)
  then show ?thesis using fl_err[OF True] by linarith
next
  case False
  have "\<bar>fl x - x\<bar> \<le> 2 powi (- 116) / 2"
  proof (cases "x = 0")
    case nz: False
    then have "2 powi \<lfloor>log 2 \<bar>x\<bar>\<rfloor> < (2::real) powi (- 1022)" using binade[of "\<bar>x\<bar>"] False by linarith
    then have "\<lfloor>log 2 \<bar>x\<bar>\<rfloor> < - 1022" by (metis linorder_not_le one_le_numeral power_int_increasing)
    then have "fl_exp x - 52 \<le> - 116" by (simp add: fl_exp_def)
    then have "(2::real) powi (fl_exp x - 52) \<le> 2 powi (- 116)" by (rule power_int_increasing) auto
    then show ?thesis using fl_err_ulp[OF nz] by linarith
  qed simp
  also have "\<dots> = 1 / 2 ^ 64 / 2 ^ 53" by (simp add: power_int_minus_divide)
  also have "\<dots> \<le> B / 2 ^ 53" using assms(2) by (intro divide_right_mono) auto
  finally show ?thesis .
qed

text \<open>Integers up to 2^53 are exact.\<close>

lemma fl_of_nat_pos:
  assumes "0 < n" "n < 2 ^ 53"
  shows "fl (of_int n) = of_int n"
proof -
  let ?x = "of_int n :: real"
  have x: "0 < ?x" using assms by simp
  have lt: "?x < 2 powi 53" using assms(2) by (simp add: power_int_def)
  have ge: "1 \<le> ?x" using assms(1) by simp
  have lo: "0 \<le> \<lfloor>log 2 ?x\<rfloor>" using ge by simp
  have "2 powi \<lfloor>log 2 ?x\<rfloor> < (2::real) powi 53" using binade[OF x] lt by linarith
  then have hi: "\<lfloor>log 2 ?x\<rfloor> < 53" by (metis linorder_not_le one_le_numeral power_int_increasing)
  have e: "fl_exp ?x = \<lfloor>log 2 ?x\<rfloor>" 
  proof -
    have "- 1022 \<le> \<lfloor>log 2 ?x\<rfloor>" using lo by linarith
    then show ?thesis unfolding fl_exp_def using x by (simp only: abs_of_pos max_absorb1)
  qed
  let ?k = "nat (52 - fl_exp ?x)"
  have q: "(2::real) powi (fl_exp ?x - 52) = 1 / 2 ^ ?k"
  proof -
    have "fl_exp ?x - 52 = - int ?k" using hi e by simp
    then show ?thesis by (simp only: power_int_minus_divide power_int_of_nat)
  qed
  have "?x / 2 powi (fl_exp ?x - 52) = of_int (n * 2 ^ ?k)" unfolding q by simp
  then have "round_even (?x / 2 powi (fl_exp ?x - 52)) = n * 2 ^ ?k" by (metis round_even_of_int)
  then show ?thesis using x unfolding fl_scaled[OF x] q by simp
qed

lemma fl_pow: "fl (2 ^ n) = 2 ^ n"
proof -
  have l: "log 2 (2 ^ n) = (real n)" by (simp add: log_nat_power)
  have "\<lfloor>log 2 \<bar>2 ^ n\<bar>\<rfloor> = int n" using l by simp
  then have e: "fl_exp (2 ^ n) = int n" by (simp add: fl_exp_def)
  define q where "q = (2::real) powi (int n - 52)"
  have q: "q \<noteq> 0" by (simp add: q_def)
  have eq: "(2 ^ n :: real) = 2 ^ 52 * q" using powi_split[of 52 "int n - 52"] by (simp add: q_def)
  have "(2 ^ n :: real) / q = of_int (2 ^ 52)" using q unfolding eq by simp
  then have r: "round_even ((2 ^ n :: real) / q) = 2 ^ 52" by (metis round_even_of_int)
  have "fl (2 ^ n) = of_int (round_even (2 ^ n / q)) * q" by (simp add: fl_def e q_def)
  also have "\<dots> = of_int (2 ^ 52) * q" by (simp only: r)
  also have "\<dots> = 2 ^ n" using eq by simp
  finally show ?thesis .
qed

lemma fl_of_int [simp]: "\<bar>n\<bar> \<le> 2 ^ 53 \<Longrightarrow> fl (of_int n) = of_int n"
proof -
  assume n: "\<bar>n\<bar> \<le> 2 ^ 53"
  have pos: "fl (of_int m) = of_int m" if "0 < m" "m \<le> 2 ^ 53" for m
  proof (cases "m = 2 ^ 53")
    case True
    then show ?thesis using fl_pow[of 53] by simp
  qed (use fl_of_nat_pos[of m] that in auto)
  consider "0 < n" | "n = 0" | "n < 0" by linarith
  then show ?thesis
  proof cases
    case 3
    then show ?thesis using pos[of "- n"] n fl_minus[of "of_int (- n)"] by simp
  qed (use pos[of n] n in auto)
qed

lemma fl_numeral [simp]: "(numeral k :: int) \<le> 2 ^ 53 \<Longrightarrow> fl (numeral k) = numeral k"
  using fl_of_int[of "numeral k"] by simp

lemma fl_1 [simp]: "fl 1 = 1"
  using fl_of_int[of 1] by simp

lemma fl_between: "of_int a \<le> x \<Longrightarrow> x \<le> of_int b \<Longrightarrow> \<bar>a\<bar> \<le> 2 ^ 53 \<Longrightarrow> \<bar>b\<bar> \<le> 2 ^ 53 \<Longrightarrow> of_int a \<le> fl x \<and> fl x \<le> of_int b"
  using fl_mono[of "of_int a" x] fl_mono[of x "of_int b"] by simp

lemma abs_div_le:
  fixes t d :: int
  assumes "\<bar>t\<bar> < b" "0 < d"
  shows "\<bar>t div d\<bar> \<le> b"
proof -
  have dm: "t = d * (t div d) + t mod d" "0 \<le> t mod d" "t mod d \<le> d - 1" using assms(2) by simp_all
  show ?thesis
  proof (cases "0 \<le> t div d")
    case True
    then have "t div d \<le> d * (t div d)" using assms(2) by (simp add: mult_le_cancel_right1)
    then show ?thesis using True dm assms(1) by linarith
  next
    case False
    then have "d * (t div d + 1) \<le> t div d + 1" using assms(2) by (simp add: mult_le_cancel_right2)
    then show ?thesis using False dm assms(1) unfolding distrib_left by linarith
  qed
qed

lemma div_bounds:
  fixes t d :: int
  assumes "0 < d"
  shows "of_int (t div d) \<le> (of_int t / of_int d :: real)" "of_int t / of_int d \<le> (of_int (t div d) + 1 - 1 / of_int d :: real)"
proof -
  have dm: "t = d * (t div d) + t mod d" "0 \<le> t mod d" "t mod d \<le> d - 1" using assms by simp_all
  have "real_of_int t = of_int d * of_int (t div d) + of_int (t mod d)" by (subst dm(1)) (simp only: of_int_add of_int_mult)
  then have x: "(of_int t / of_int d :: real) = of_int (t div d) + of_int (t mod d) / of_int d" using assms by (simp add: field_simps)
  then show "of_int (t div d) \<le> (of_int t / of_int d :: real)" using dm assms by simp
  have "of_int (t mod d) / of_int d \<le> (of_int (d - 1) :: real) / of_int d"
    using dm(3) assms by (intro divide_right_mono) (simp_all flip: of_int_diff)
  also have "\<dots> = 1 - 1 / of_int d" using assms by (simp add: diff_divide_distrib)
  finally show "of_int t / of_int d \<le> (of_int (t div d) + 1 - 1 / of_int d :: real)" using x by linarith
qed

lemma fl_div_err:
  assumes "t \<noteq> 0" "\<bar>t\<bar> < 2 ^ 53" "0 < d" "d \<le> 2 ^ 32"
  shows "\<bar>fl (of_int t / of_int d) - of_int t / of_int d\<bar> < 1 / of_int d"
proof -
  let ?x = "of_int t / of_int d :: real"
  have ax: "\<bar>?x\<bar> = of_int \<bar>t\<bar> / of_int d" using assms(3) by simp
  have "1 / 2 ^ 64 \<le> (1 :: real) / of_int d"
  proof (rule divide_left_mono)
    have "real_of_int d \<le> 2 ^ 32" using assms(4) by (metis of_int_le_iff of_int_numeral of_int_power)
    then show "real_of_int d \<le> 2 ^ 64" by simp
  qed (use assms(3) in auto)
  also have "\<dots> \<le> \<bar>?x\<bar>" unfolding ax using assms(1,3) by (intro divide_right_mono) auto
  finally have "\<bar>fl ?x - ?x\<bar> \<le> \<bar>?x\<bar> / 2 ^ 53" by (intro fl_err normal_range)
  also have "\<dots> < 1 / of_int d"
  proof -
    have "real_of_int \<bar>t\<bar> < 2 ^ 53" using assms(2) by (metis of_int_less_iff of_int_numeral of_int_power)
    then have "real_of_int \<bar>t\<bar> / 2 ^ 53 < 1" by simp
    then show ?thesis unfolding ax using assms(3) by (simp add: field_simps)
  qed
  finally show ?thesis .
qed

lemma floor_fl_div:
  assumes "\<bar>t\<bar> < 2 ^ 53" "0 < d" "d \<le> 2 ^ 32"
  shows "\<lfloor>fl (of_int t / of_int d)\<rfloor> = t div d"
proof -
  let ?k = "t div d" and ?x = "of_int t / of_int d :: real"
  have lo: "of_int ?k \<le> fl ?x" using fl_mono[OF div_bounds(1)[OF assms(2)], of t] abs_div_le[OF assms(1,2)] by simp
  have "fl ?x < of_int ?k + 1"
  proof (cases "t = 0")
    case False
    show ?thesis using fl_div_err[OF False assms] div_bounds(2)[OF assms(2), of t] by linarith
  qed (use assms(2) in simp)
  with lo show ?thesis by (simp add: floor_eq_iff)
qed

end
