(* ===== verification/Loadshape.thy ===== *)
theory Loadshape
  imports Float64 Go_Stdlib
begin

text \<open>
  \<^verbatim>\<open>internal/loadshape\<close>: the load profile and the rate function, in binary64 arithmetic
  (\<^verbatim>\<open>Float64\<close>) with every operation of the source rounded where the source rounds it. The decoder
  of \<^verbatim>\<open>encoding/json\<close> and \<^verbatim>\<open>math.Cos\<close> are parameters. Weekday, hour of day and noise bucket are
  proved correct on whole seconds against integer arithmetic; the noise hash is a bijection on 64-bit
  words; the wall-clock window reported for an anomaly is exactly the time in which the rate function
  applies it.
\<close>

section \<open>Profile\<close>

record Diurnal =
  di_Amplitude :: real
  di_PhaseHours :: real

record Trend =
  tr_PctPerDay :: real

record Anomaly =
  an_Name :: string
  an_Type :: string
  an_OffsetDays :: real
  an_DurationHours :: real
  an_Multiplier :: real

text \<open>The coefficients are the array \<^verbatim>\<open>[7]float64\<close>, a list of length 7.\<close>

record Profile =
  pr_BaseRatePerS :: real
  pr_Diurnal :: Diurnal
  pr_WeekdayCoefficients :: "real list"
  pr_NoisePct :: real
  pr_Trend :: Trend
  pr_Anomalies :: "Anomaly list"

datatype profile_error = UnmarshalProfile | UnmarshalShape | WeekdayCount nat | UnknownType string string

definition known_type :: "string \<Rightarrow> bool" where
  "known_type t \<longleftrightarrow> t = ''spike'' \<or> t = ''outage'' \<or> t = ''degradation''"

fun check_anomalies :: "Anomaly list \<Rightarrow> profile_error option" where
  "check_anomalies [] = None"
| "check_anomalies (a # as) =
     (if known_type (an_Type a) then check_anomalies as else Some (UnknownType (an_Name a) (an_Type a)))"

text \<open>\<open>unmarshal\<close> decodes into a \<^verbatim>\<open>Profile\<close>, \<open>unmarshalShape\<close> into the slice of weekday coefficients.\<close>

definition ParseProfile ::
  "(string \<Rightarrow> Profile option) \<Rightarrow> (string \<Rightarrow> real list option) \<Rightarrow> string \<Rightarrow> profile_error + Profile" where
  "ParseProfile unmarshal unmarshalShape data =
     (case unmarshal data of
        None \<Rightarrow> Inl UnmarshalProfile
      | Some p \<Rightarrow>
          (case unmarshalShape data of
             None \<Rightarrow> Inl UnmarshalShape
           | Some shape \<Rightarrow>
               if length shape \<noteq> 7 then Inl (WeekdayCount (length shape))
               else case check_anomalies (pr_Anomalies p) of Some e \<Rightarrow> Inl e | None \<Rightarrow> Inr p))"

section \<open>Clock arithmetic and noise\<close>

definition secondsPerDay :: real where "secondsPerDay = 86400"
definition secondsPerHour :: real where "secondsPerHour = 3600"

definition hourOfDay :: "real \<Rightarrow> real" where
  "hourOfDay profileTime =
     (let daysSinceEpoch = ffloor (fdiv profileTime secondsPerDay);
          secOfDay = fsub profileTime (fmul daysSinceEpoch secondsPerDay)
      in fdiv secOfDay secondsPerHour)"

definition mondayIndex :: "real \<Rightarrow> int" where
  "mondayIndex profileTime =
     (let daysSinceEpoch = float_to_int64 (ffloor (fdiv profileTime secondsPerDay));
          idx = go_mod (go_mod daysSinceEpoch 7 + 3) 7 + 7
      in go_mod idx 7)"

unbundle bit_operations_syntax

definition splitmix64 :: "64 word \<Rightarrow> 64 word" where
  "splitmix64 seed =
     (let z = seed + 0x9e3779b97f4a7c15;
          z = (z XOR drop_bit 30 z) * 0xbf58476d1ce4e5b9;
          z = (z XOR drop_bit 27 z) * 0x94d049bb133111eb
      in z XOR drop_bit 31 z)"

definition noiseSample :: "real \<Rightarrow> real" where
  "noiseSample profileTime =
     (let bucket = float_to_int64 (ffloor (fdiv profileTime 60));
          h = splitmix64 (word_of_int bucket);
          modded = h mod 2000001
      in fsub (fdiv (fl (real (unat modded))) 1000000) 1)"

section \<open>Anomalies\<close>

definition anomaly_start :: "Anomaly \<Rightarrow> real \<Rightarrow> real" where
  "anomaly_start a refUnixSeconds = fadd refUnixSeconds (fmul (an_OffsetDays a) secondsPerDay)"

definition anomaly_end :: "Anomaly \<Rightarrow> real \<Rightarrow> real" where
  "anomaly_end a refUnixSeconds =
     fadd (anomaly_start a refUnixSeconds) (fmul (an_DurationHours a) secondsPerHour)"

definition AnomalyRealWindow :: "Anomaly \<Rightarrow> real \<Rightarrow> real \<Rightarrow> real \<times> real" where
  "AnomalyRealWindow a refUnixSeconds scale =
     (let profileStart = anomaly_start a refUnixSeconds;
          profileEnd = anomaly_end a refUnixSeconds
      in (fadd refUnixSeconds (fdiv (fsub profileStart refUnixSeconds) scale),
          fadd refUnixSeconds (fdiv (fsub profileEnd refUnixSeconds) scale)))"

definition anomalyFactor :: "Anomaly \<Rightarrow> real \<Rightarrow> real \<Rightarrow> real" where
  "anomalyFactor a profileTime refUnixSeconds =
     (let start = anomaly_start a refUnixSeconds; end' = anomaly_end a refUnixSeconds
      in if profileTime < start \<or> profileTime > end' then 1
         else if an_Type a = ''spike'' \<or> an_Type a = ''outage'' then an_Multiplier a
         else if an_Type a = ''degradation'' then
           (let duration = fsub end' start;
                frac = (if duration > 0 then fdiv (fsub profileTime start) duration else 1)
            in fadd 1 (fmul frac (fsub (an_Multiplier a) 1)))
         else 1)"

section \<open>Rate\<close>

definition profile_time :: "real \<Rightarrow> real \<Rightarrow> real \<Rightarrow> real" where
  "profile_time unixSeconds refUnixSeconds scale =
     fadd refUnixSeconds (fmul (fsub unixSeconds refUnixSeconds) scale)"

definition anomaly_product :: "Anomaly list \<Rightarrow> real \<Rightarrow> real \<Rightarrow> real" where
  "anomaly_product as profileTime refUnixSeconds =
     foldl (\<lambda>anomaly a. fmul anomaly (anomalyFactor a profileTime refUnixSeconds)) 1 as"

text \<open>\<open>cosf\<close> is \<^verbatim>\<open>math.Cos\<close>. The constant expression \<^verbatim>\<open>2*math.Pi\<close> is evaluated exactly and rounded once.\<close>

definition Rate :: "(real \<Rightarrow> real) \<Rightarrow> real \<Rightarrow> Profile \<Rightarrow> real \<Rightarrow> real \<Rightarrow> real" where
  "Rate cosf unixSeconds profile refUnixSeconds scale =
     (let profileTime = profile_time unixSeconds refUnixSeconds scale;
          diurnalFactor = fadd 1 (fmul (di_Amplitude (pr_Diurnal profile))
            (cosf (fdiv (fmul (fl (2 * pi)) (fsub (hourOfDay profileTime) (di_PhaseHours (pr_Diurnal profile)))) 24)));
          weekdayFactor = pr_WeekdayCoefficients profile ! nat (mondayIndex profileTime);
          daysSinceRef = fdiv (fsub profileTime refUnixSeconds) secondsPerDay;
          trendFactor = fadd 1 (fmul (tr_PctPerDay (pr_Trend profile)) daysSinceRef);
          noiseFactor = fadd 1 (fmul (pr_NoisePct profile) (noiseSample profileTime));
          anomaly = anomaly_product (pr_Anomalies profile) profileTime refUnixSeconds;
          raw = fmul (fmul (fmul (fmul (fmul (pr_BaseRatePerS profile) diurnalFactor) weekdayFactor) trendFactor)
                  noiseFactor) anomaly
      in max 0 raw)"

section \<open>Lemmas\<close>

lemma float_to_int64_of_int: "in_int64 n \<Longrightarrow> float_to_int64 (of_int n) = n"
  by (simp add: float_to_int64_def)

lemma float_to_int64_range: "in_int64 (float_to_int64 x)"
  by (simp add: float_to_int64_def Let_def in_int64_def)

lemma floor_div_conv:
  assumes "\<bar>t\<bar> < 2 ^ 53" "0 < d" "d \<le> 2 ^ 32"
  shows "ffloor (fdiv (of_int t) (of_int d)) = of_int (t div d)"
    "float_to_int64 (ffloor (fdiv (of_int t) (of_int d))) = t div d"
proof -
  show 1: "ffloor (fdiv (of_int t) (of_int d)) = of_int (t div d)"
    using floor_fl_div[OF assms] by (simp add: ffloor_def flops)
  have "in_int64 (t div d)"
  proof -
    have "t div d \<le> \<bar>t\<bar>" "- \<bar>t\<bar> - 1 \<le> t div d"
    proof -
      have dm: "t = d * (t div d) + t mod d" "0 \<le> t mod d" "t mod d < d" using assms(2) by simp_all
      show "t div d \<le> \<bar>t\<bar>"
      proof (cases "0 \<le> t div d")
        case True
        then have "t div d \<le> d * (t div d)" using assms(2) by (simp add: mult_le_cancel_right1)
        then show ?thesis using dm by linarith
      qed simp
      show "- \<bar>t\<bar> - 1 \<le> t div d"
      proof (cases "0 \<le> t div d")
        case False
        then have "d * (t div d + 1) \<le> t div d + 1" using assms(2) by (simp add: mult_le_cancel_right2)
        then show ?thesis using dm unfolding distrib_left by linarith
      qed simp
    qed
    with assms(1) show ?thesis unfolding in_int64_def by simp
  qed
  with 1 show "float_to_int64 (ffloor (fdiv (of_int t) (of_int d))) = t div d"
    by (simp add: float_to_int64_of_int)
qed

lemma go_mod_bounds:
  assumes "0 < b"
  shows "- b < go_mod a b \<and> go_mod a b < b \<and> (0 \<le> a \<longrightarrow> 0 \<le> go_mod a b)"
proof (cases "0 \<le> a")
  case True
  then show ?thesis using pos_mod_sign[OF assms, of a] pos_mod_bound[OF assms, of a] assms
    unfolding go_mod_nonneg[OF True assms] by linarith
next
  case False
  then show ?thesis using pos_mod_sign[OF assms, of "- a"] pos_mod_bound[OF assms, of "- a"] assms
    unfolding go_mod_neg[OF False[unfolded not_le] assms] by linarith
qed

lemma go_mod_cong: "0 < b \<Longrightarrow> go_mod a b mod b = a mod b"
  by (cases "0 \<le> a") (simp_all add: go_mod_nonneg go_mod_neg mod_minus_eq)

lemma weekday_index:
  "go_mod (go_mod (go_mod d 7 + 3) 7 + 7) 7 = (d + 3) mod 7"
proof -
  let ?b = "go_mod (go_mod d 7 + 3) 7"
  have "0 \<le> ?b + 7" using go_mod_bounds[of 7 "go_mod d 7 + 3"] by simp
  then have "go_mod (?b + 7) 7 = ?b mod 7" by (simp add: go_mod_nonneg)
  also have "\<dots> = (go_mod d 7 + 3) mod 7" by (simp add: go_mod_cong)
  also have "\<dots> = (d + 3) mod 7" using go_mod_cong[of 7 d] by (metis mod_add_left_eq zero_less_numeral)
  finally show ?thesis .
qed

section \<open>Clock arithmetic\<close>

text \<open>The weekday index. For every time whatsoever the index lies between 0 and 6, so the access to the seven
  coefficients never panics, before 1970 too; and for a whole second (up to 2^53) it is the exact weekday,
  Monday = 0: day 0 of the epoch is a Thursday and each later day moves on by one.\<close>
theorem mondayIndex_correct:
  "0 \<le> mondayIndex x \<and> mondayIndex x < 7
   \<and> (\<bar>t\<bar> < 2 ^ 53 \<longrightarrow> mondayIndex (of_int t) = (t div 86400 + 3) mod 7)"
proof -
  have "mondayIndex x = (float_to_int64 (ffloor (fdiv x secondsPerDay)) + 3) mod 7" for x
    by (simp add: mondayIndex_def Let_def weekday_index)
  moreover have "float_to_int64 (ffloor (fdiv (of_int t) secondsPerDay)) = t div 86400" if "\<bar>t\<bar> < 2 ^ 53"
    using floor_div_conv(2)[OF that, of 86400] by (simp add: secondsPerDay_def)
  ultimately show ?thesis by simp
qed

theorem mondayIndex_correct_witness: "mondayIndex (of_int 1750000000) = 6"
  using mondayIndex_correct[of 0 1750000000] by simp

text \<open>The hour of day of a whole second (up to 2^52) is the binary64 value of the exact quotient, at least 0
  and below 24.\<close>
theorem hourOfDay_correct:
  assumes "\<bar>t\<bar> \<le> 2 ^ 52"
  shows "hourOfDay (of_int t) = fl (of_int (t mod 86400) / 3600) \<and> 0 \<le> hourOfDay (of_int t) \<and> hourOfDay (of_int t) < 24"
proof -
  let ?d = "t div 86400" and ?r = "t mod 86400"
  have r: "0 \<le> ?r" "?r \<le> 86399" using pos_mod_bound[of 86400 t] pos_mod_sign[of 86400 t] by linarith+
  have floor: "ffloor (fdiv (of_int t) secondsPerDay) = of_int ?d"
    using floor_div_conv(1)[of t 86400] assms by (simp add: secondsPerDay_def)
  have te: "t = ?d * 86400 + ?r" by simp
  have "\<bar>?d * 86400\<bar> \<le> 2 ^ 52 + 86399" using assms r te by linarith
  then have "\<bar>?d * 86400\<bar> \<le> 2 ^ 53" by simp
  then have mul: "fmul (of_int ?d) secondsPerDay = of_int (?d * 86400)"
    using fl_of_int[of "?d * 86400"] by (simp add: flops secondsPerDay_def)
  have sub: "fsub (of_int t) (of_int (?d * 86400)) = of_int ?r"
  proof -
    have "of_int t - of_int (?d * 86400) = (of_int ?r :: real)" using te by (metis add_diff_cancel_left' of_int_diff)
    then show ?thesis using r by (simp add: flops)
  qed
  have h: "hourOfDay (of_int t) = fl (of_int ?r / 3600)"
    unfolding hourOfDay_def Let_def floor mul sub by (simp add: fdiv_def secondsPerHour_def)
  have q: "0 \<le> of_int ?r / (3600::real)" "of_int ?r / (3600::real) \<le> 86399 / 3600"
  proof -
    have "real_of_int ?r \<le> of_int 86399" using r(2) by (simp only: of_int_le_iff)
    then show "of_int ?r / (3600::real) \<le> 86399 / 3600" by simp
  qed (use r in simp)
  have "fl (of_int ?r / 3600) \<le> fl (86399 / 3600)" using q(2) by (rule fl_mono)
  also have "\<dots> < 24"
    using fl_err_abs[of "86399 / 3600" 24] by (simp add: abs_if split: if_splits)
  finally show ?thesis using h fl_nonneg[OF q(1)] by simp
qed

theorem hourOfDay_correct_witness: "hourOfDay (of_int 1750003200) = 16"
  using hourOfDay_correct[of 1750003200] by simp

section \<open>Noise\<close>

lemma xorshift_inj:
  fixes x y :: "64 word"
  assumes "x XOR drop_bit k x = y XOR drop_bit k y" "0 < k"
  shows "x = y"
proof -
  let ?d = "x XOR y"
  have "?d = drop_bit k ?d"
  proof -
    have "drop_bit k ?d = drop_bit k x XOR drop_bit k y" by (rule drop_bit_xor)
    then show ?thesis using assms(1)
      by (metis (no_types, opaque_lifting) bit.xor_left_self xor.left_commute xor.commute)
  qed
  then have "unat ?d = unat ?d div 2 ^ k" by (metis unat_drop_bit_eq drop_bit_eq_div)
  moreover have "unat ?d div 2 ^ k < unat ?d" if "unat ?d \<noteq> 0"
    using that one_less_power[of "2::nat" k] assms(2) by (intro div_less_dividend) auto
  ultimately have "unat ?d = 0" by linarith
  then have "?d = 0" by (simp add: unat_eq_0)
  then show ?thesis by (metis bit.xor_left_self xor.right_neutral)
qed

lemma mult_cancel_word:
  fixes x y c d :: "64 word"
  assumes "c * d = 1" "x * c = y * c"
  shows "x = y"
proof -
  have "x = (x * c) * d" using assms(1) by (simp add: mult.assoc)
  also have "\<dots> = (y * c) * d" by (simp only: assms(2))
  also have "\<dots> = y" using assms(1) by (simp add: mult.assoc)
  finally show ?thesis .
qed

text \<open>The noise hash splitmix64 is a bijection of the 64-bit words: distinct minutes never collide before
  the final reduction.\<close>
theorem splitmix64_bij: "bij splitmix64"
proof -
  have c1: "(0xbf58476d1ce4e5b9 :: 64 word) * 0x96de1b173f119089 = 1" by simp
  have c2: "(0x94d049bb133111eb :: 64 word) * 0x319642b2d24d8ec3 = 1" by simp
  have "inj splitmix64"
  proof (rule injI)
    fix x y assume eq: "splitmix64 x = splitmix64 y"
    define a where "a z = (let z = z + 0x9e3779b97f4a7c15 in z XOR drop_bit 30 z)" for z :: "64 word"
    define b where "b z = (let z = z * 0xbf58476d1ce4e5b9 in z XOR drop_bit 27 z)" for z :: "64 word"
    define c where "c z = (let z = z * 0x94d049bb133111eb in z XOR drop_bit 31 z)" for z :: "64 word"
    have "splitmix64 z = c (b (a z))" for z by (simp only: splitmix64_def a_def b_def c_def Let_def)
    with eq have "c (b (a x)) = c (b (a y))" by simp
    then have "b (a x) * 0x94d049bb133111eb = b (a y) * 0x94d049bb133111eb"
      unfolding c_def Let_def by (rule xorshift_inj) simp
    then have "b (a x) = b (a y)" by (rule mult_cancel_word[OF c2])
    then have "a x * 0xbf58476d1ce4e5b9 = a y * 0xbf58476d1ce4e5b9"
      unfolding b_def Let_def by (rule xorshift_inj) simp
    then have "a x = a y" by (rule mult_cancel_word[OF c1])
    then have "x + 0x9e3779b97f4a7c15 = y + 0x9e3779b97f4a7c15"
      unfolding a_def Let_def by (rule xorshift_inj) simp
    then show "x = y" by simp
  qed
  then show ?thesis by (simp add: bij_def finite_UNIV_inj_surj)
qed

text \<open>The noise sample lies in [-1, 1] for every time, and two whole seconds of the same minute have the same
  sample.\<close>
theorem noiseSample_bounds:
  "- 1 \<le> noiseSample x \<and> noiseSample x \<le> 1
   \<and> (\<bar>s\<bar> < 2 ^ 53 \<and> \<bar>t\<bar> < 2 ^ 53 \<and> s div 60 = t div 60 \<longrightarrow> noiseSample (of_int s) = noiseSample (of_int t))"
proof -
  have bound: "- 1 \<le> fsub (fdiv (fl (real (unat (h mod 2000001)))) 1000000) 1 \<and>
      fsub (fdiv (fl (real (unat (h mod 2000001)))) 1000000) 1 \<le> 1" for h :: "64 word"
  proof -
    define n where "n = unat (h mod 2000001)"
    have "n = unat h mod 2000001" by (simp add: n_def unat_mod)
    then have n: "n \<le> 2000000" by simp
    then have "fl (real n) = real n" using fl_of_int[of "int n"] by simp
    moreover have "0 \<le> fl (real n / 1000000) \<and> fl (real n / 1000000) \<le> 2"
      using fl_between[of 0 "real n / 1000000" 2] n by simp
    moreover have "- 1 \<le> fl y \<and> fl y \<le> 1" if "- 1 \<le> y" "y \<le> 1" for y
      using fl_between[of "- 1" y 1] that by simp
    ultimately show ?thesis by (simp add: flops n_def[symmetric])
  qed
  have "float_to_int64 (ffloor (fdiv (of_int u) 60)) = u div 60" if "\<bar>u\<bar> < 2 ^ 53" for u
    using floor_div_conv(2)[OF that, of 60] by simp
  with bound show ?thesis unfolding noiseSample_def Let_def by auto
qed

theorem noiseSample_bounds_witness: "noiseSample (of_int 1750000000) = noiseSample (of_int 1750000019)"
  using noiseSample_bounds[of 0 1750000000 1750000019] by simp

section \<open>Anomalies\<close>

text \<open>A wall-clock instant \<open>r + X / k\<close> as the code computes it: it lies at or below a whole second exactly when the
  real number does, and otherwise it is well above.\<close>

lemma fl_gap:
  assumes "\<bar>r\<bar> \<le> 2 ^ 40" "\<bar>X\<bar> \<le> 2 ^ 41" "0 < k" "k \<le> 2 ^ 8" "(t - r) * k < X"
  shows "of_int t + 1 / 512 \<le> fl (of_int r + fl (of_int X / of_int k))"
proof -
  have "(t - r) * k + 1 \<le> X" using assms(5) by simp
  then have "real_of_int ((t - r) * k + 1) \<le> of_int X" by (simp only: of_int_le_iff)
  then have X: "of_int (t - r) * of_int k + 1 \<le> real_of_int X" by simp
  have kr: "(0::real) < of_int k" "real_of_int k \<le> 2 ^ 8"
    using assms(3,4) by (simp, metis of_int_le_iff of_int_numeral of_int_power)
  have rr: "\<bar>real_of_int r\<bar> \<le> 2 ^ 40" "\<bar>real_of_int X\<bar> \<le> 2 ^ 41"
    using assms(1,2) by (metis of_int_abs of_int_le_iff of_int_numeral of_int_power)+
  let ?x = "of_int X / of_int k :: real"
  have x1: "of_int (t - r) + 1 / 2 ^ 8 \<le> ?x"
  proof -
    have "(of_int (t - r) * of_int k + 1) / of_int k \<le> ?x" using X kr by (intro divide_right_mono) simp_all
    then have "of_int (t - r) + 1 / of_int k \<le> ?x" using kr(1) by (simp add: add_divide_distrib)
    moreover have "1 / 2 ^ 8 \<le> 1 / real_of_int k" using kr by (intro divide_left_mono) auto
    ultimately show ?thesis by linarith
  qed
  have x2: "\<bar>?x\<bar> \<le> 2 ^ 41"
  proof -
    have "\<bar>?x\<bar> \<le> \<bar>of_int X\<bar> / 1" using kr assms(3) by (simp add: abs_divide divide_le_eq mult_le_cancel_left1)
    then show ?thesis using rr by simp
  qed
  have e1: "\<bar>fl ?x - ?x\<bar> \<le> 2 ^ 41 / 2 ^ 53" by (rule fl_err_abs[OF x2]) simp
  let ?y = "of_int r + fl ?x"
  have "\<bar>?y\<bar> \<le> 2 ^ 40 + 2 ^ 41 + 2 ^ 41 / 2 ^ 53" using e1 x2 rr(1) by linarith
  then have "\<bar>?y\<bar> \<le> 2 ^ 42" by simp
  then have e2: "\<bar>fl ?y - ?y\<bar> \<le> 2 ^ 42 / 2 ^ 53" by (rule fl_err_abs) simp
  have c: "(2 ^ 41 / 2 ^ 53 :: real) = 1 / 4096" "(2 ^ 42 / 2 ^ 53 :: real) = 1 / 2048" "(1 / 2 ^ 8 :: real) = 1 / 256"
    by simp_all
  show ?thesis using e1[unfolded c] e2[unfolded c] x1[unfolded c of_int_diff] by linarith
qed

lemma fl_le_int_iff:
  assumes "\<bar>r\<bar> \<le> 2 ^ 40" "\<bar>X\<bar> \<le> 2 ^ 41" "\<bar>t\<bar> \<le> 2 ^ 41" "0 < k" "k \<le> 2 ^ 8"
  shows "fl (of_int r + fl (of_int X / of_int k)) \<le> of_int t \<longleftrightarrow> X \<le> (t - r) * k"
proof
  assume le: "X \<le> (t - r) * k"
  have kr: "(0::real) < of_int k" using assms(4) by simp
  have "real_of_int X \<le> of_int (t - r) * of_int k" using le by (metis of_int_le_iff of_int_mult)
  then have "of_int X / of_int k \<le> (of_int (t - r) :: real)" using kr by (simp add: pos_divide_le_eq)
  then have "fl (of_int X / of_int k) \<le> fl (of_int (t - r))" by (rule fl_mono)
  also have "\<dots> = of_int (t - r)" using assms by (intro fl_of_int) simp
  finally have "of_int r + fl (of_int X / of_int k) \<le> (of_int t :: real)" by simp
  then have "fl (of_int r + fl (of_int X / of_int k)) \<le> fl (of_int t)" by (rule fl_mono)
  also have "\<dots> = of_int t" using assms by (intro fl_of_int) simp
  finally show "fl (of_int r + fl (of_int X / of_int k)) \<le> of_int t" .
next
  assume "fl (of_int r + fl (of_int X / of_int k)) \<le> of_int t"
  then show "X \<le> (t - r) * k" using fl_gap[OF assms(1,2,4,5), of t] by linarith
qed

lemma int_le_fl_iff:
  assumes "\<bar>r\<bar> \<le> 2 ^ 40" "\<bar>X\<bar> \<le> 2 ^ 41" "\<bar>t\<bar> \<le> 2 ^ 41" "0 < k" "k \<le> 2 ^ 8"
  shows "of_int t \<le> fl (of_int r + fl (of_int X / of_int k)) \<longleftrightarrow> (t - r) * k \<le> X"
proof -
  have "fl (of_int (- r) + fl (of_int (- X) / of_int k)) = - fl (of_int r + fl (of_int X / of_int k))"
    using fl_minus[of "of_int X / of_int k"] fl_minus[of "of_int r + fl (of_int X / of_int k)"] by simp
  then have "of_int t \<le> fl (of_int r + fl (of_int X / of_int k)) \<longleftrightarrow>
      fl (of_int (- r) + fl (of_int (- X) / of_int k)) \<le> of_int (- t)" by simp
  also have "\<dots> \<longleftrightarrow> - X \<le> (- t - - r) * k" by (rule fl_le_int_iff) (use assms in simp_all)
  also have "\<dots> \<longleftrightarrow> (t - r) * k \<le> X" by (simp add: algebra_simps)
  finally show ?thesis .
qed

definition anomaly_active :: "Anomaly \<Rightarrow> real \<Rightarrow> real \<Rightarrow> bool" where
  "anomaly_active a profileTime refUnixSeconds \<longleftrightarrow>
     anomaly_start a refUnixSeconds \<le> profileTime \<and> profileTime \<le> anomaly_end a refUnixSeconds"

lemma anomalyFactor_inactive: "\<not> anomaly_active a t ref \<Longrightarrow> anomalyFactor a t ref = 1"
  by (auto simp: anomaly_active_def anomalyFactor_def Let_def)

lemma AnomalyRealWindow_int:
  assumes "\<bar>ref\<bar> \<le> 2 ^ 40" "fmul (an_OffsetDays a) secondsPerDay = of_int X" "\<bar>X\<bar> \<le> 2 ^ 40"
    and "fmul (an_DurationHours a) secondsPerHour = of_int L" "0 \<le> L" "L \<le> 2 ^ 40"
  shows "anomaly_start a (of_int ref) = of_int (ref + X)" "anomaly_end a (of_int ref) = of_int (ref + X + L)"
    "AnomalyRealWindow a (of_int ref) k =
       (fl (of_int ref + fl (of_int X / k)), fl (of_int ref + fl (of_int (X + L) / k)))"
proof -
  show s: "anomaly_start a (of_int ref) = of_int (ref + X)"
    using fl_of_int[of "ref + X"] assms by (simp add: anomaly_start_def fadd_def)
  show e: "anomaly_end a (of_int ref) = of_int (ref + X + L)"
    using fl_of_int[of "ref + X + L"] assms by (simp add: anomaly_end_def s fadd_def add.assoc)
  have "fsub (of_int (ref + X)) (of_int ref) = of_int X" using fl_of_int[of X] assms by (simp add: fsub_def)
  moreover have "fsub (of_int (ref + X + L)) (of_int ref) = of_int (X + L)"
    using fl_of_int[of "X + L"] assms by (simp add: fsub_def)
  ultimately show "AnomalyRealWindow a (of_int ref) k =
       (fl (of_int ref + fl (of_int X / k)), fl (of_int ref + fl (of_int (X + L) / k)))"
    by (simp add: AnomalyRealWindow_def Let_def s e fadd_def fdiv_def)
qed

lemma AnomalyRealWindow_iff:
  assumes "\<bar>ref\<bar> \<le> 2 ^ 40" "\<bar>t\<bar> \<le> 2 ^ 41" "0 < k" "k \<le> 2 ^ 8"
    and "fmul (an_OffsetDays a) secondsPerDay = of_int X" "\<bar>X\<bar> \<le> 2 ^ 40"
    and "fmul (an_DurationHours a) secondsPerHour = of_int L" "0 \<le> L" "L \<le> 2 ^ 40"
    and "AnomalyRealWindow a (of_int ref) (of_int k) = (start, end')"
  shows "start \<le> of_int t \<and> of_int t \<le> end' \<longleftrightarrow>
    anomaly_active a (profile_time (of_int t) (of_int ref) (of_int k)) (of_int ref)"
proof -
  have tr: "\<bar>t - ref\<bar> \<le> 2 ^ 42" using assms by simp
  have tk: "\<bar>(t - ref) * k\<bar> \<le> 2 ^ 50"
  proof -
    have "\<bar>t - ref\<bar> * k \<le> 2 ^ 42 * 2 ^ 8" using tr assms(3,4) by (intro mult_mono) auto
    then show ?thesis using assms(3) by (simp add: abs_mult)
  qed
  note win = AnomalyRealWindow_int[OF assms(1,5-9)]
  have pt: "profile_time (of_int t) (of_int ref) (of_int k) = of_int (ref + (t - ref) * k)"
  proof -
    have "fsub (of_int t) (of_int ref) = of_int (t - ref)"
      using fl_of_int[of "t - ref"] tr by (simp add: fsub_def)
    moreover have "fmul (of_int (t - ref)) (of_int k) = of_int ((t - ref) * k)"
      using fl_of_int[of "(t - ref) * k"] tk unfolding fmul_def of_int_mult by simp
    moreover have "fadd (of_int ref) (of_int ((t - ref) * k)) = of_int (ref + (t - ref) * k)"
      using fl_of_int[of "ref + (t - ref) * k"] tk assms(1) unfolding fadd_def of_int_add by simp
    ultimately show ?thesis by (simp only: profile_time_def)
  qed
  have start: "start = fl (of_int ref + fl (of_int X / of_int k))"
    and end': "end' = fl (of_int ref + fl (of_int (X + L) / of_int k))"
    using win(3)[of "of_int k"] assms(10) by simp_all
  have "start \<le> of_int t \<longleftrightarrow> X \<le> (t - ref) * k"
    unfolding start using assms by (intro fl_le_int_iff) auto
  moreover have "of_int t \<le> end' \<longleftrightarrow> (t - ref) * k \<le> X + L"
    unfolding end' using assms by (intro int_le_fl_iff) auto
  ultimately show ?thesis
    unfolding anomaly_active_def win(1,2) pt of_int_le_iff by simp
qed

text \<open>C21: the wall-clock window of an anomaly is exactly the time in which Rate applies it: for whole seconds, a
  reference below 2^40, an offset and a duration of whole seconds below 2^40 and a whole time scale up
  to 256, a second lies in AnomalyRealWindow if and only if the anomaly is active at the profile time
  Rate computes for that second; in binary64, with no tolerance.\<close>
theorem AnomalyRealWindow_exact:
  assumes "\<bar>ref\<bar> \<le> 2 ^ 40" "\<bar>t\<bar> \<le> 2 ^ 41" "0 < k" "k \<le> 2 ^ 8"
    and "fmul (an_OffsetDays a) secondsPerDay = of_int X" "\<bar>X\<bar> \<le> 2 ^ 40"
    and "fmul (an_DurationHours a) secondsPerHour = of_int L" "0 \<le> L" "L \<le> 2 ^ 40"
    and "AnomalyRealWindow a (of_int ref) (of_int k) = (start, end')"
  shows "start \<le> of_int t \<and> of_int t \<le> end' \<longleftrightarrow>
    anomaly_active a (profile_time (of_int t) (of_int ref) (of_int k)) (of_int ref)"
  using assms by (rule AnomalyRealWindow_iff)

definition sample_anomaly :: Anomaly where
  "sample_anomaly = \<lparr>an_Name = ''ingestion-outage'', an_Type = ''outage'', an_OffsetDays = - 6,
     an_DurationHours = 4, an_Multiplier = 0\<rparr>"

theorem AnomalyRealWindow_exact_witness:
  "case AnomalyRealWindow sample_anomaly (of_int 1750000000) (of_int 24) of (start, end') \<Rightarrow>
     start \<le> of_int (1750000000 - 6 * 3600) \<and> of_int (1750000000 - 6 * 3600) \<le> end'"
proof -
  obtain s e where w: "AnomalyRealWindow sample_anomaly (of_int 1750000000) (of_int 24) = (s, e)" by fastforce
  have off: "fmul (an_OffsetDays sample_anomaly) secondsPerDay = of_int (- 518400)"
    using fl_of_int[of "- 518400"] by (simp add: fmul_def sample_anomaly_def secondsPerDay_def)
  have dur: "fmul (an_DurationHours sample_anomaly) secondsPerHour = of_int 14400"
    using fl_of_int[of 14400] by (simp add: fmul_def sample_anomaly_def secondsPerHour_def)
  have "s \<le> of_int (1750000000 - 6 * 3600) \<and> of_int (1750000000 - 6 * 3600) \<le> e \<longleftrightarrow>
      anomaly_active sample_anomaly (profile_time (of_int (1750000000 - 6 * 3600)) (of_int 1750000000) (of_int 24)) (of_int 1750000000)"
    by (rule AnomalyRealWindow_exact[OF _ _ _ _ off _ dur _ _ w]) simp_all
  moreover have "anomaly_active sample_anomaly (profile_time (of_int (1750000000 - 6 * 3600)) (of_int 1750000000) (of_int 24)) (of_int 1750000000)"
    by (simp add: anomaly_active_def anomaly_start_def anomaly_end_def profile_time_def sample_anomaly_def
        secondsPerDay_def secondsPerHour_def flops)
  ultimately show ?thesis using w by simp
qed

section \<open>Rate\<close>

lemma fmul_0 [simp]: "fmul 0 y = 0" "fmul x 0 = 0"
  by (simp_all add: fmul_def)

lemma anomaly_product_zero:
  assumes "a \<in> set as" "anomalyFactor a t ref = 0"
  shows "anomaly_product as t ref = 0"
proof -
  have z: "foldl (\<lambda>acc a. fmul acc (anomalyFactor a t ref)) 0 as = 0" for as by (induction as) simp_all
  have "foldl (\<lambda>acc a. fmul acc (anomalyFactor a t ref)) x as = 0" for x
    using assms(1) by (induction as arbitrary: x) (auto simp: assms(2) z)
  then show ?thesis by (simp add: anomaly_product_def)
qed

lemma anomaly_product_inactive:
  "\<forall>a \<in> set as. \<not> anomaly_active a t ref \<Longrightarrow> anomaly_product as t ref = 1"
  unfolding anomaly_product_def by (induction as) (simp_all add: anomalyFactor_inactive fmul_def)

lemma Rate_zero: "anomaly_product (pr_Anomalies p) (profile_time t ref scale) ref = 0 \<Longrightarrow> Rate cosf t p ref scale = 0"
  by (simp add: Rate_def Let_def)

lemma outage_factor:
  "anomaly_active a t ref \<Longrightarrow> an_Type a = ''outage'' \<Longrightarrow> an_Multiplier a = 0 \<Longrightarrow> anomalyFactor a t ref = 0"
  by (simp add: anomaly_active_def anomalyFactor_def)

text \<open>C30: the rate is never negative, whatever the profile; without an active anomaly it is the rate of the profile
  with its anomalies removed; and throughout the wall-clock window of an outage (multiplier 0, whole-second
  parameters as above) it is exactly 0.\<close>
theorem Rate_anomalies:
  "0 \<le> Rate cosf x p r scale
   \<and> ((\<forall>a \<in> set (pr_Anomalies p). \<not> anomaly_active a (profile_time x r scale) r) \<longrightarrow>
        Rate cosf x p r scale = Rate cosf x (p\<lparr>pr_Anomalies := []\<rparr>) r scale)
   \<and> (a \<in> set (pr_Anomalies p) \<and> an_Type a = ''outage'' \<and> an_Multiplier a = 0
        \<and> \<bar>ref\<bar> \<le> 2 ^ 40 \<and> \<bar>t\<bar> \<le> 2 ^ 41 \<and> 0 < k \<and> k \<le> 2 ^ 8
        \<and> fmul (an_OffsetDays a) secondsPerDay = of_int X \<and> \<bar>X\<bar> \<le> 2 ^ 40
        \<and> fmul (an_DurationHours a) secondsPerHour = of_int L \<and> 0 \<le> L \<and> L \<le> 2 ^ 40
        \<and> fst (AnomalyRealWindow a (of_int ref) (of_int k)) \<le> of_int t
        \<and> of_int t \<le> snd (AnomalyRealWindow a (of_int ref) (of_int k))
        \<longrightarrow> Rate cosf (of_int t) p (of_int ref) (of_int k) = 0)"
proof (intro conjI impI)
  show "0 \<le> Rate cosf x p r scale" by (simp add: Rate_def Let_def)
next
  assume "\<forall>a \<in> set (pr_Anomalies p). \<not> anomaly_active a (profile_time x r scale) r"
  then have "anomaly_product (pr_Anomalies p) (profile_time x r scale) r = anomaly_product [] (profile_time x r scale) r"
    using anomaly_product_inactive[of "pr_Anomalies p"] anomaly_product_inactive[of "[]"] by simp
  then show "Rate cosf x p r scale = Rate cosf x (p\<lparr>pr_Anomalies := []\<rparr>) r scale"
    by (simp add: Rate_def)
next
  assume h: "a \<in> set (pr_Anomalies p) \<and> an_Type a = ''outage'' \<and> an_Multiplier a = 0
        \<and> \<bar>ref\<bar> \<le> 2 ^ 40 \<and> \<bar>t\<bar> \<le> 2 ^ 41 \<and> 0 < k \<and> k \<le> 2 ^ 8
        \<and> fmul (an_OffsetDays a) secondsPerDay = of_int X \<and> \<bar>X\<bar> \<le> 2 ^ 40
        \<and> fmul (an_DurationHours a) secondsPerHour = of_int L \<and> 0 \<le> L \<and> L \<le> 2 ^ 40
        \<and> fst (AnomalyRealWindow a (of_int ref) (of_int k)) \<le> of_int t
        \<and> of_int t \<le> snd (AnomalyRealWindow a (of_int ref) (of_int k))"
  then have "anomaly_active a (profile_time (of_int t) (of_int ref) (of_int k)) (of_int ref)"
    using AnomalyRealWindow_iff[of ref t k a X L, OF _ _ _ _ _ _ _ _ _ prod.collapse[symmetric]] by blast
  with h have "anomalyFactor a (profile_time (of_int t) (of_int ref) (of_int k)) (of_int ref) = 0"
    by (simp add: outage_factor)
  with h show "Rate cosf (of_int t) p (of_int ref) (of_int k) = 0"
    by (intro Rate_zero anomaly_product_zero) auto
qed

definition sample_profile :: Profile where
  "sample_profile = \<lparr>pr_BaseRatePerS = 8, pr_Diurnal = \<lparr>di_Amplitude = 1 / 4, di_PhaseHours = 14\<rparr>,
     pr_WeekdayCoefficients = [1, 1, 1, 1, 1, 1 / 2, 1 / 2], pr_NoisePct = 0, pr_Trend = \<lparr>tr_PctPerDay = 0\<rparr>,
     pr_Anomalies = [sample_anomaly]\<rparr>"

lemma sample_window:
  "fst (AnomalyRealWindow sample_anomaly (of_int 1750000000) (of_int 1)) = of_int 1749481600
   \<and> snd (AnomalyRealWindow sample_anomaly (of_int 1750000000) (of_int 1)) = of_int 1749496000"
proof -
  have f: "fl (of_int n) = of_int n" if "\<bar>n\<bar> \<le> 2 ^ 53" for n using that by simp
  have a: "anomaly_start sample_anomaly 1750000000 = 1749481600" "anomaly_end sample_anomaly 1750000000 = 1749496000"
    using f[of "- 518400"] by (simp_all add: anomaly_start_def anomaly_end_def sample_anomaly_def secondsPerDay_def secondsPerHour_def flops)
  show ?thesis using f[of "- 518400"] f[of "- 504000"] by (simp add: AnomalyRealWindow_def a flops)
qed

theorem Rate_anomalies_witness: "Rate cos (of_int 1749490000) sample_profile (of_int 1750000000) (of_int 1) = 0"
proof -
  have off: "fmul (an_OffsetDays sample_anomaly) secondsPerDay = of_int (- 518400)"
    using fl_of_int[of "- 518400"] by (simp add: fmul_def sample_anomaly_def secondsPerDay_def)
  have dur: "fmul (an_DurationHours sample_anomaly) secondsPerHour = of_int 14400"
    using fl_of_int[of 14400] by (simp add: fmul_def sample_anomaly_def secondsPerHour_def)
  have m: "sample_anomaly \<in> set (pr_Anomalies sample_profile)" "an_Type sample_anomaly = ''outage''"
    "an_Multiplier sample_anomaly = 0" by (simp_all add: sample_profile_def sample_anomaly_def)
  show ?thesis
    using Rate_anomalies[of cos 0 sample_profile 0 1 sample_anomaly 1750000000 1749490000 1 "- 518400" 14400]
      off dur m sample_window by simp
qed

text \<open>A degradation ramps down. With a multiplier of at most 1 and a window of positive length, the factor is 1 at
  the start, never increases as time goes on inside the window, and stays between its value at the end
  and 1.\<close>
theorem degradation_ramp:
  fixes a ref
  defines "start \<equiv> anomaly_start a ref" and "stop \<equiv> anomaly_end a ref"
  assumes "an_Type a = ''degradation''" "an_Multiplier a \<le> 1" "0 < fsub stop start"
    and "start \<le> t" "t \<le> u" "u \<le> stop"
  shows "anomalyFactor a start ref = 1 \<and> anomalyFactor a u ref \<le> anomalyFactor a t ref
    \<and> anomalyFactor a stop ref \<le> anomalyFactor a t ref \<and> anomalyFactor a t ref \<le> 1"
proof -
  have f: "anomalyFactor a v ref = fadd 1 (fmul (fdiv (fsub v start) (fsub stop start)) (fsub (an_Multiplier a) 1))"
    if "start \<le> v" "v \<le> stop" for v
    using that assms(3,5) by (simp add: anomalyFactor_def Let_def start_def stop_def not_less)
  have m: "fsub (an_Multiplier a) 1 \<le> 0" using assms(4) by (simp add: fsub_def fl_nonpos)
  have mono: "anomalyFactor a w ref \<le> anomalyFactor a v ref" if "start \<le> v" "v \<le> w" "w \<le> stop" for v w
  proof -
    have "fsub v start \<le> fsub w start" using that by (simp add: fsub_def fl_mono)
    then have "fdiv (fsub v start) (fsub stop start) \<le> fdiv (fsub w start) (fsub stop start)"
      unfolding fdiv_def using assms(5) by (intro fl_mono divide_right_mono) simp_all
    then have "fmul (fdiv (fsub w start) (fsub stop start)) (fsub (an_Multiplier a) 1) \<le>
        fmul (fdiv (fsub v start) (fsub stop start)) (fsub (an_Multiplier a) 1)"
      unfolding fmul_def using m by (intro fl_mono mult_right_mono_neg)
    then have "fadd 1 (fmul (fdiv (fsub w start) (fsub stop start)) (fsub (an_Multiplier a) 1)) \<le>
        fadd 1 (fmul (fdiv (fsub v start) (fsub stop start)) (fsub (an_Multiplier a) 1))"
      unfolding fadd_def by (intro fl_mono) simp
    then show ?thesis using that by (simp add: f)
  qed
  have s: "anomalyFactor a start ref = 1" using assms(6-8) by (simp add: f flops)
  show ?thesis using s mono[of t u] mono[of t stop] mono[of start t] assms(6-8) by simp
qed

theorem degradation_ramp_witness:
  "\<exists>a. anomalyFactor a 0 0 = 1 \<and> anomalyFactor a 3600 0 \<le> anomalyFactor a 1800 0 \<and> an_Multiplier a = 1 / 2"
proof -
  define a where "a = \<lparr>an_Name = ''d'', an_Type = ''degradation'', an_OffsetDays = 0, an_DurationHours = 1, an_Multiplier = 1 / 2\<rparr>"
  have s: "anomaly_start a 0 = 0" "anomaly_end a 0 = 3600"
    by (simp_all add: a_def anomaly_start_def anomaly_end_def flops secondsPerHour_def)
  have "an_Type a = ''degradation''" "an_Multiplier a \<le> 1" by (simp_all add: a_def)
  from degradation_ramp[of a 0 1800 3600, unfolded s, OF this] show ?thesis
    by (intro exI[of _ a]) (simp add: fsub_def a_def)
qed

section \<open>Parsing\<close>

lemma check_anomalies_ok: "check_anomalies as = None \<Longrightarrow> a \<in> set as \<Longrightarrow> known_type (an_Type a)"
  by (induction as) (auto split: if_splits)

text \<open>What encoding/json documents for decoding an array: extra elements are dropped, missing ones are zero.\<close>

definition json_array_ok :: "(string \<Rightarrow> Profile option) \<Rightarrow> (string \<Rightarrow> real list option) \<Rightarrow> bool" where
  "json_array_ok unmarshal unmarshalShape \<longleftrightarrow>
     (\<forall>data p l. unmarshal data = Some p \<longrightarrow> unmarshalShape data = Some l \<longrightarrow>
        pr_WeekdayCoefficients p = take 7 (l @ replicate 7 0))"

text \<open>A profile that ParseProfile accepts carries exactly the seven weekday coefficients of the file, none of them
  dropped or zero-filled by the decoder, so the weekday access of Rate is always in range; and every
  anomaly has a type that anomalyFactor interprets.\<close>
theorem ParseProfile_validates:
  assumes "json_array_ok unmarshal unmarshalShape"
    and "ParseProfile unmarshal unmarshalShape data = Inr p"
  shows "unmarshalShape data = Some (pr_WeekdayCoefficients p) \<and> length (pr_WeekdayCoefficients p) = 7
    \<and> nat (mondayIndex x) < length (pr_WeekdayCoefficients p)
    \<and> (\<forall>a \<in> set (pr_Anomalies p). an_Type a \<in> {''spike'', ''outage'', ''degradation''})"
proof -
  obtain l where l: "unmarshal data = Some p" "unmarshalShape data = Some l" "length l = 7"
    "check_anomalies (pr_Anomalies p) = None"
    using assms(2) by (auto simp: ParseProfile_def split: option.splits if_splits)
  have "pr_WeekdayCoefficients p = take 7 (l @ replicate 7 0)"
    using assms(1) l(1,2) unfolding json_array_ok_def by blast
  then have w: "pr_WeekdayCoefficients p = l" using l(3) by simp
  have "mondayIndex x = (float_to_int64 (ffloor (fdiv x secondsPerDay)) + 3) mod 7"
    by (simp add: mondayIndex_def Let_def weekday_index)
  then have "nat (mondayIndex x) < 7" by simp
  with w l show ?thesis using check_anomalies_ok[OF l(4)] by (auto simp: known_type_def)
qed

theorem ParseProfile_validates_witness:
  "ParseProfile (\<lambda>_. Some sample_profile) (\<lambda>_. Some [1, 1, 1, 1, 1, 1 / 2, 1 / 2]) ''{}'' = Inr sample_profile
   \<and> length (pr_WeekdayCoefficients sample_profile) = 7"
proof -
  have p: "ParseProfile (\<lambda>_. Some sample_profile) (\<lambda>_. Some [1, 1, 1, 1, 1, 1 / 2, 1 / 2]) ''{}'' = Inr sample_profile"
    by (simp add: ParseProfile_def sample_profile_def sample_anomaly_def known_type_def)
  have "json_array_ok (\<lambda>_. Some sample_profile) (\<lambda>_. Some [1, 1, 1, 1, 1, 1 / 2, 1 / 2])"
    by (simp add: json_array_ok_def sample_profile_def)
  from ParseProfile_validates[OF this p] p show ?thesis by simp
qed

end
