(* ===== verification/Seeder.thy ===== *)
theory Seeder
  imports Store_Machine Loadshape
begin

text \<open>
  \<^verbatim>\<open>internal/seeder\<close>: generation of the history hour by hour and its batched writing, with every exit of
  the source: rejected arguments, a failing flush, and the three places where a cancellation is noticed and the
  pending batch is saved with a detached context. The random generator of \<^verbatim>\<open>math/rand/v2\<close> is a
  parameter (a state with its two drawing functions), and so is the rate function, of which only the
  type matters here. What the context and the database answer is the record \<open>seed_world\<close>.

  The locale \<open>seed_store\<close> is the package's \<^verbatim>\<open>DataStore\<close> interface; the client lemmas are proved in it and
  interpreted on \<^const>\<open>IngestEventsBatch\<close>.
\<close>

section \<open>Definitions\<close>

definition defaultBatchSize :: int where "defaultBatchSize = 8000"
definition createdWeight :: real where "createdWeight = 1 / 2"

record Item =
  si_ID :: int
  si_Name :: string

record SeederConfig =
  sc_Days :: int
  sc_SeedValue :: int
  sc_Scale :: real
  sc_RefTime :: go_time
  sc_BatchSize :: int

datatype seeder_error =
    NoItems | DaysNotPositive int | IngestBatchErr store_error | SeedCanceled int int | CanceledFinalFlush

text \<open>\<^verbatim>\<open>*rand.Rand\<close>: \<^verbatim>\<open>Float64\<close> and \<^verbatim>\<open>IntN\<close> on an explicit state.\<close>

record 'g rng =
  rg_Float64 :: "'g \<Rightarrow> real \<times> 'g"
  rg_IntN :: "int \<Rightarrow> 'g \<Rightarrow> int \<times> 'g"

text \<open>Documented ranges: \<^verbatim>\<open>Float64\<close> is a multiple of 2^-53 in [0, 1), \<^verbatim>\<open>IntN(n)\<close> lies in [0, n).\<close>

definition rng_ok :: "'g rng \<Rightarrow> bool" where
  "rng_ok R \<longleftrightarrow>
     (\<forall>g. 0 \<le> fst (rg_Float64 R g) \<and> fst (rg_Float64 R g) \<le> 1 - 1 / 2 ^ 53) \<and>
     (\<forall>n g. 0 < n \<longrightarrow> 0 \<le> fst (rg_IntN R n g) \<and> fst (rg_IntN R n g) < n)"

text \<open>The answers of the context at the top of hour \<open>h\<close>, and of the context and the database at the \<open>i\<close>-th
  call of \<^verbatim>\<open>IngestEventsBatch\<close>.\<close>

record seed_world =
  sw_ctxHour :: "int \<Rightarrow> bool"
  sw_ctxFlush :: "nat \<Rightarrow> bool"
  sw_faults :: "nat \<Rightarrow> faults"

type_synonym 's batch_op = "faults \<Rightarrow> EventRecord list \<Rightarrow> 's \<Rightarrow> (store_error + BatchResult) \<times> 's"

text \<open>The variables of \<^verbatim>\<open>Run\<close> that its closures change.\<close>

record ('s, 'g) seed_state =
  ss_store :: 's
  ss_pending :: "EventRecord list"
  ss_totalWritten :: int
  ss_calls :: nat
  ss_rng :: 'g

definition seed_flush ::
  "'s batch_op \<Rightarrow> seed_world \<Rightarrow> ('s, 'g) seed_state \<Rightarrow> seeder_error option \<times> ('s, 'g) seed_state" where
  "seed_flush batch w st =
     (if ss_pending st = [] then (None, st)
      else let (res, s') = batch (sw_faults w (ss_calls st)) (ss_pending st) (ss_store st);
               st1 = st\<lparr>ss_store := s', ss_calls := ss_calls st + 1\<rparr>
           in case res of
                Inl e \<Rightarrow> (Some (IngestBatchErr e), st1)
              | Inr r \<Rightarrow> (None, st1\<lparr>ss_totalWritten := ss_totalWritten st + br_Inserted r, ss_pending := []\<rparr>))"

text \<open>The detached flush: its own error is only logged.\<close>

definition flushDetachedOnCancel ::
  "'s batch_op \<Rightarrow> seed_world \<Rightarrow> ('s, 'g) seed_state \<Rightarrow> ('s, 'g) seed_state" where
  "flushDetachedOnCancel batch w st = snd (seed_flush batch w st)"

definition drawEventType :: "'g rng \<Rightarrow> 'g \<Rightarrow> string \<times> 'g" where
  "drawEventType R g =
     (let (x, g') = rg_Float64 R g in (if x < createdWeight then ''created'' else ''deleted'', g'))"

definition draw_event :: "'g rng \<Rightarrow> Item list \<Rightarrow> go_time \<Rightarrow> 'g \<Rightarrow> EventRecord \<times> 'g" where
  "draw_event R items hourStart g0 =
     (let (x, g1) = rg_Float64 R g0; offsetSeconds = fmul x 3600;
          (i, g2) = rg_IntN R (int (length items)) g1; item = items ! nat i;
          (ty, g3) = drawEventType R g2
      in (\<lparr>ev_ItemID = si_ID item, ev_ItemName = si_Name item, ev_EventType = ty,
           ev_EventTime = hourStart + float_to_int64 (fmul offsetSeconds 1000000000)\<rparr>, g3))"

text \<open>The \<open>n\<close> events of one hour. The result says how the loop was left: \<open>None\<close> when it ran to its end.\<close>

fun seed_events ::
  "'s batch_op \<Rightarrow> seed_world \<Rightarrow> 'g rng \<Rightarrow> Item list \<Rightarrow> int \<Rightarrow> int \<Rightarrow> int \<Rightarrow> go_time \<Rightarrow> nat
   \<Rightarrow> ('s, 'g) seed_state \<Rightarrow> seeder_error option \<times> ('s, 'g) seed_state" where
  "seed_events batch w R items batchSize h totalHours hourStart 0 st = (None, st)"
| "seed_events batch w R items batchSize h totalHours hourStart (Suc n) st =
     (let (ev, g) = draw_event R items hourStart (ss_rng st);
          st1 = st\<lparr>ss_pending := ss_pending st @ [ev], ss_rng := g\<rparr>
      in if int (length (ss_pending st1)) \<ge> batchSize then
           (case seed_flush batch w st1 of
              (Some e, st2) \<Rightarrow>
                if sw_ctxFlush w (ss_calls st1)
                then (Some (SeedCanceled h totalHours), flushDetachedOnCancel batch w st2)
                else (Some e, st2)
            | (None, st2) \<Rightarrow> seed_events batch w R items batchSize h totalHours hourStart n st2)
         else seed_events batch w R items batchSize h totalHours hourStart n st1)"

definition hour_count :: "(real \<Rightarrow> real) \<Rightarrow> go_time \<Rightarrow> int" where
  "hour_count rate hourStart =
     (let bucketMid = hourStart + 30 * Minute
      in float_to_int64 (fround (fmul (rate (fl (of_int (time_Unix bucketMid)))) 3600)))"

fun seed_hours ::
  "'s batch_op \<Rightarrow> seed_world \<Rightarrow> 'g rng \<Rightarrow> (real \<Rightarrow> real) \<Rightarrow> Item list \<Rightarrow> int \<Rightarrow> int \<Rightarrow> go_time \<Rightarrow> nat \<Rightarrow> nat
   \<Rightarrow> ('s, 'g) seed_state \<Rightarrow> seeder_error option \<times> ('s, 'g) seed_state" where
  "seed_hours batch w R rate items batchSize totalHours windowStart h 0 st = (None, st)"
| "seed_hours batch w R rate items batchSize totalHours windowStart h (Suc left) st =
     (if sw_ctxHour w (int h)
      then (Some (SeedCanceled (int h) totalHours), flushDetachedOnCancel batch w st)
      else let hourStart = windowStart + int h * Hour; n = hour_count rate hourStart
           in case seed_events batch w R items batchSize (int h) totalHours hourStart (nat n) st of
                (Some e, st1) \<Rightarrow> (Some e, st1)
              | (None, st1) \<Rightarrow> seed_hours batch w R rate items batchSize totalHours windowStart (Suc h) left st1)"

text \<open>\<^verbatim>\<open>-time.Duration(cfg.Days) * 24 * time.Hour\<close>, \<^verbatim>\<open>Time.Sub\<close> (which saturates) and \<^verbatim>\<open>Duration.Hours\<close>.\<close>

definition window_offset :: "int \<Rightarrow> go_duration" where
  "window_offset days = wrap64 (wrap64 (wrap64 (- days) * 24) * Hour)"

definition time_Sub :: "go_time \<Rightarrow> go_time \<Rightarrow> go_duration" where
  "time_Sub a b = max (- (2 ^ 63)) (min (2 ^ 63 - 1) (a - b))"

definition duration_Hours :: "go_duration \<Rightarrow> real" where
  "duration_Hours d =
     fadd (fl (of_int (go_div d Hour))) (fdiv (fl (of_int (go_mod d Hour))) (60 * 60 * 1000000000))"

definition window_hours :: "go_time \<Rightarrow> go_time \<Rightarrow> int" where
  "window_hours windowEnd windowStart = float_to_int64 (duration_Hours (time_Sub windowEnd windowStart))"

text \<open>\<open>newPCG\<close> is the generator \<^verbatim>\<open>rand.NewPCG(seed, seed ^ 0x9e3779b97f4a7c15)\<close>.\<close>

definition SeederRun ::
  "'s batch_op \<Rightarrow> seed_world \<Rightarrow> 'g rng \<Rightarrow> (64 word \<Rightarrow> 64 word \<Rightarrow> 'g) \<Rightarrow> (real \<Rightarrow> real) \<Rightarrow> SeederConfig \<Rightarrow> Profile
   \<Rightarrow> Item list \<Rightarrow> 's \<Rightarrow> (int \<times> seeder_error option) \<times> 's" where
  "SeederRun batch w R newPCG cosf cfg profile items s =
     (if items = [] then ((0, Some NoItems), s)
      else if sc_Days cfg \<le> 0 then ((0, Some (DaysNotPositive (sc_Days cfg))), s)
      else let batchSize = (if sc_BatchSize cfg \<le> 0 then defaultBatchSize else sc_BatchSize cfg);
               seed = word_of_int (sc_SeedValue cfg);
               g = newPCG seed (seed XOR 0x9e3779b97f4a7c15);
               refUnix = fl (of_int (time_Unix (sc_RefTime cfg)));
               windowEnd = time_Truncate (sc_RefTime cfg) Hour;
               windowStart = windowEnd + window_offset (sc_Days cfg);
               totalHours = window_hours windowEnd windowStart;
               st0 = \<lparr>ss_store = s, ss_pending = [], ss_totalWritten = 0, ss_calls = 0, ss_rng = g\<rparr>;
               rate = (\<lambda>t. Rate cosf t profile refUnix (sc_Scale cfg))
           in case seed_hours batch w R rate items batchSize totalHours windowStart 0 (nat totalHours) st0 of
                (Some e, st) \<Rightarrow> ((ss_totalWritten st, Some e), ss_store st)
              | (None, st) \<Rightarrow>
                  (case seed_flush batch w st of
                     (None, st1) \<Rightarrow> ((ss_totalWritten st1, None), ss_store st1)
                   | (Some e, st1) \<Rightarrow>
                       if sw_ctxFlush w (ss_calls st)
                       then (let st2 = flushDetachedOnCancel batch w st1
                             in ((ss_totalWritten st2, Some CanceledFinalFlush), ss_store st2))
                       else ((ss_totalWritten st1, Some e), ss_store st1)))"

section \<open>The planned history\<close>

text \<open>The events a run draws, whatever the store does, and their division into batches.\<close>

fun gen_events :: "'g rng \<Rightarrow> Item list \<Rightarrow> go_time \<Rightarrow> nat \<Rightarrow> 'g \<Rightarrow> EventRecord list \<times> 'g" where
  "gen_events R items hourStart 0 g = ([], g)"
| "gen_events R items hourStart (Suc n) g =
     (let (ev, g1) = draw_event R items hourStart g; (evs, g2) = gen_events R items hourStart n g1
      in (ev # evs, g2))"

fun gen_hours :: "'g rng \<Rightarrow> (real \<Rightarrow> real) \<Rightarrow> Item list \<Rightarrow> go_time \<Rightarrow> nat \<Rightarrow> nat \<Rightarrow> 'g \<Rightarrow> EventRecord list \<times> 'g" where
  "gen_hours R rate items windowStart h 0 g = ([], g)"
| "gen_hours R rate items windowStart h (Suc left) g =
     (let hourStart = windowStart + int h * Hour;
          (evs, g1) = gen_events R items hourStart (nat (hour_count rate hourStart)) g;
          (rest, g2) = gen_hours R rate items windowStart (Suc h) left g1
      in (evs @ rest, g2))"

definition chunk_step :: "int \<Rightarrow> EventRecord list list \<times> EventRecord list \<Rightarrow> EventRecord \<Rightarrow> EventRecord list list \<times> EventRecord list" where
  "chunk_step bs cp ev =
     (let p = snd cp @ [ev] in if int (length p) \<ge> bs then (fst cp @ [p], []) else (fst cp, p))"

definition chunks :: "int \<Rightarrow> EventRecord list \<Rightarrow> EventRecord list list \<times> EventRecord list" where
  "chunks bs evs = foldl (chunk_step bs) ([], []) evs"

definition batches :: "int \<Rightarrow> EventRecord list \<Rightarrow> EventRecord list list" where
  "batches bs evs = (let (cs, p) = chunks bs evs in if p = [] then cs else cs @ [p])"

lemma chunks_snoc: "chunks bs (evs @ [ev]) = chunk_step bs (chunks bs evs) ev"
  by (simp add: chunks_def)

lemma chunks_concat: "concat (fst (chunks bs evs)) @ snd (chunks bs evs) = evs"
  by (induction evs rule: rev_induct) (auto simp: chunks_snoc chunk_step_def Let_def, simp_all add: chunks_def)

lemma batches_concat: "concat (batches bs evs) = evs"
  using chunks_concat[of bs evs] by (cases "chunks bs evs") (auto simp: batches_def)

section \<open>The store interface and its client\<close>

text \<open>What a store promises to the seeder: a batch that fails has done nothing or all of its work, a batch that
  succeeds reports the rows it added, and a batch written twice is a batch written once.\<close>

locale seed_store =
  fixes batch :: "'s batch_op" and apply_b :: "EventRecord list \<Rightarrow> 's \<Rightarrow> 's" and rows :: "'s \<Rightarrow> int"
  assumes batch_ok: "batch f evs s = (Inr r, s') \<Longrightarrow> s' = apply_b evs s \<and> br_Inserted r = rows s' - rows s"
    and batch_err: "batch f evs s = (Inl e, s') \<Longrightarrow> s' = s \<or> s' = apply_b evs s"
    and batch_rows: "rows s \<le> rows (apply_b evs s)"
    and batch_idem: "apply_b evs (apply_b evs s) = apply_b evs s"
    and batch_live: "\<forall>ev \<in> set evs. event_storable ev \<Longrightarrow> \<exists>r s'. batch no_faults evs s = (Inr r, s')"
begin

lemma rows_foldl: "rows s \<le> rows (foldl (\<lambda>s c. apply_b c s) s cs)"
  by (induction cs arbitrary: s) (auto intro: order_trans[OF batch_rows])

text \<open>While the run goes on: everything drawn is written or pending, and the counter is exact.\<close>

definition going :: "int \<Rightarrow> 's \<Rightarrow> EventRecord list \<Rightarrow> ('s, 'g) seed_state \<Rightarrow> bool" where
  "going bs s0 evs st \<longleftrightarrow>
     ss_store st = foldl (\<lambda>s c. apply_b c s) s0 (fst (chunks bs evs)) \<and>
     ss_pending st = snd (chunks bs evs) \<and>
     ss_totalWritten st = rows (ss_store st) - rows s0"

text \<open>At any exit: the batches of a prefix of what was drawn, the counter not above the added rows.\<close>

definition left_off :: "int \<Rightarrow> 's \<Rightarrow> EventRecord list \<Rightarrow> ('s, 'g) seed_state \<Rightarrow> bool" where
  "left_off bs s0 evs st \<longleftrightarrow>
     (\<exists>cs. ss_store st = foldl (\<lambda>s c. apply_b c s) s0 cs \<and> prefix (concat cs) evs \<and>
        0 \<le> ss_totalWritten st \<and> ss_totalWritten st \<le> rows (ss_store st) - rows s0)"

lemma left_off_mono: "left_off bs s0 evs st \<Longrightarrow> prefix evs evs' \<Longrightarrow> left_off bs s0 evs' st"
  unfolding left_off_def by (meson prefix_order.trans)

lemma flush_going:
  assumes "seed_flush batch w st = (None, st')" "ss_store st = foldl (\<lambda>s c. apply_b c s) s0 cs"
    and "ss_totalWritten st = rows (ss_store st) - rows s0"
  shows "ss_store st' = foldl (\<lambda>s c. apply_b c s) s0 (if ss_pending st = [] then cs else cs @ [ss_pending st])
    \<and> ss_pending st' = [] \<and> ss_totalWritten st' = rows (ss_store st') - rows s0 \<and> ss_rng st' = ss_rng st"
  using assms by (auto simp: seed_flush_def Let_def split: if_splits prod.splits sum.splits dest!: batch_ok)

lemma flush_failed:
  assumes "seed_flush batch w st = (Some e, st')"
  shows "(ss_store st' = ss_store st \<or> ss_store st' = apply_b (ss_pending st) (ss_store st))
    \<and> ss_pending st' = ss_pending st \<and> ss_totalWritten st' = ss_totalWritten st"
  using assms by (auto simp: seed_flush_def Let_def split: if_splits prod.splits sum.splits dest!: batch_err)

lemma going_left_off:
  assumes "going bs s0 evs st"
  shows "left_off bs s0 evs st"
proof -
  have "prefix (concat (fst (chunks bs evs))) evs" using chunks_concat[of bs evs] by (metis prefixI)
  then show ?thesis using assms rows_foldl[of s0] unfolding left_off_def going_def by force
qed

text \<open>A flush, failed or not, followed or not by the detached one, ends in such a state.\<close>

lemma left_off_flush:
  assumes st: "ss_store st = foldl (\<lambda>s c. apply_b c s) s0 cs \<or>
      ss_store st = apply_b (ss_pending st) (foldl (\<lambda>s c. apply_b c s) s0 cs)"
    and p: "concat cs @ ss_pending st = evs"
    and w: "0 \<le> ss_totalWritten st" "ss_totalWritten st \<le> rows (ss_store st) - rows s0"
  shows "left_off bs s0 evs st \<and> left_off bs s0 evs (snd (seed_flush batch w st))"
proof -
  let ?S = "foldl (\<lambda>s c. apply_b c s) s0"
  have both: "left_off bs s0 evs st'"
    if s: "ss_store st' = ?S cs \<or> ss_store st' = ?S (cs @ [ss_pending st])"
      and t: "0 \<le> ss_totalWritten st'" "ss_totalWritten st' \<le> rows (ss_store st') - rows s0" for st'
  proof -
    have "prefix (concat cs) evs" "prefix (concat (cs @ [ss_pending st])) evs" using p by auto
    with s t show ?thesis unfolding left_off_def by blast
  qed
  obtain r st' where f: "seed_flush batch w st = (r, st')" by fastforce
  have "ss_store st' = ?S cs \<or> ss_store st' = ?S (cs @ [ss_pending st])"
    "0 \<le> ss_totalWritten st' \<and> ss_totalWritten st' \<le> rows (ss_store st') - rows s0"
  proof (atomize (full), cases "ss_pending st = []")
    case True
    with f st w show "(ss_store st' = ?S cs \<or> ss_store st' = ?S (cs @ [ss_pending st])) \<and>
      (0 \<le> ss_totalWritten st' \<and> ss_totalWritten st' \<le> rows (ss_store st') - rows s0)"
      by (auto simp: seed_flush_def)
  next
    case False
    obtain res s' where b: "batch (sw_faults w (ss_calls st)) (ss_pending st) (ss_store st) = (res, s')" by fastforce
    have s': "s' = ss_store st \<or> s' = apply_b (ss_pending st) (ss_store st)" "rows (ss_store st) \<le> rows s'"
      using batch_ok batch_err b batch_rows by (cases res; fastforce)+
    have "ss_store st' = s'" using f b False by (auto simp: seed_flush_def Let_def split: sum.splits)
    moreover have "ss_totalWritten st' = ss_totalWritten st \<or>
        ss_totalWritten st' = ss_totalWritten st + (rows s' - rows (ss_store st))"
      using f b False batch_ok[of _ "ss_pending st" "ss_store st"]
      by (cases res) (auto simp: seed_flush_def Let_def split: sum.splits)
    ultimately show "(ss_store st' = ?S cs \<or> ss_store st' = ?S (cs @ [ss_pending st])) \<and>
      (0 \<le> ss_totalWritten st' \<and> ss_totalWritten st' \<le> rows (ss_store st') - rows s0)"
      using st s' w by (auto simp: batch_idem)
  qed
  with both[of st'] f show ?thesis using both[of st] st w by auto
qed

end

context seed_store
begin

lemma going_draw:
  assumes "going bs s0 evs st" "st1 = st\<lparr>ss_pending := ss_pending st @ [ev], ss_rng := g\<rparr>"
  shows "int (length (ss_pending st1)) < bs \<Longrightarrow> going bs s0 (evs @ [ev]) st1"
    and "\<not> int (length (ss_pending st1)) < bs \<Longrightarrow> seed_flush batch w st1 = (None, st2) \<Longrightarrow>
      going bs s0 (evs @ [ev]) st2 \<and> ss_rng st2 = g"
    and "seed_flush batch w st1 = (Some e, st2) \<Longrightarrow>
      left_off bs s0 (evs @ [ev]) st2 \<and> left_off bs s0 (evs @ [ev]) (flushDetachedOnCancel batch w st2)"
proof -
  let ?cs = "fst (chunks bs evs)"
  have st: "ss_store st1 = foldl (\<lambda>s c. apply_b c s) s0 ?cs" "ss_pending st1 = snd (chunks bs evs) @ [ev]"
    "ss_totalWritten st1 = rows (ss_store st1) - rows s0" "ss_rng st1 = g"
    using assms by (simp_all add: going_def)
  show "int (length (ss_pending st1)) < bs \<Longrightarrow> going bs s0 (evs @ [ev]) st1"
    using st by (simp add: going_def chunks_snoc chunk_step_def)
  show "going bs s0 (evs @ [ev]) st2 \<and> ss_rng st2 = g"
    if "\<not> int (length (ss_pending st1)) < bs" "seed_flush batch w st1 = (None, st2)"
    using flush_going[OF that(2) st(1,3)] that(1) st
    by (simp add: going_def chunks_snoc chunk_step_def)
  assume f: "seed_flush batch w st1 = (Some e, st2)"
  have p: "concat ?cs @ ss_pending st2 = evs @ [ev]"
    using flush_failed[OF f] st(2) chunks_concat[of bs evs] by (metis append.assoc)
  have s2: "ss_store st2 = foldl (\<lambda>s c. apply_b c s) s0 ?cs \<or>
      ss_store st2 = apply_b (ss_pending st2) (foldl (\<lambda>s c. apply_b c s) s0 ?cs)"
    and w2: "ss_totalWritten st2 = rows (foldl (\<lambda>s c. apply_b c s) s0 ?cs) - rows s0"
    using flush_failed[OF f] st by auto
  have w0: "0 \<le> ss_totalWritten st2" using w2 rows_foldl[of s0 ?cs] by simp
  have w1: "ss_totalWritten st2 \<le> rows (ss_store st2) - rows s0"
    using s2 w2 batch_rows by auto
  show "left_off bs s0 (evs @ [ev]) st2 \<and> left_off bs s0 (evs @ [ev]) (flushDetachedOnCancel batch w st2)"
    using left_off_flush[OF s2 p w0 w1] by (simp add: flushDetachedOnCancel_def)
qed

lemma seed_events_run:
  assumes "going bs s0 evs st" "gen_events R items hs n (ss_rng st) = (es, g')"
    and "seed_events batch w R items bs h T hs n st = (r, st')"
  shows "if r = None then going bs s0 (evs @ es) st' \<and> ss_rng st' = g' else left_off bs s0 (evs @ es) st'"
  using assms
proof (induction n arbitrary: evs st es)
  case (Suc n)
  obtain ev g where d: "draw_event R items hs (ss_rng st) = (ev, g)" by fastforce
  obtain rest g2 where rest: "gen_events R items hs n g = (rest, g2)" by fastforce
  define st1 where "st1 = st\<lparr>ss_pending := ss_pending st @ [ev], ss_rng := g\<rparr>"
  have es: "es = ev # rest" "g2 = g'" using Suc.prems(2) d rest by simp_all
  note gd = going_draw[OF Suc.prems(1) st1_def]
  show ?case
  proof (cases "int (length (ss_pending st1)) < bs")
    case True
    then have "seed_events batch w R items bs h T hs n st1 = (r, st')"
      using Suc.prems(3) d by (simp add: st1_def Let_def)
    moreover have "gen_events R items hs n (ss_rng st1) = (rest, g')" using rest es by (simp add: st1_def)
    ultimately show ?thesis using Suc.IH[OF gd(1)[OF True]] es by (auto split: if_splits)
  next
    case False
    obtain q st2 where f: "seed_flush batch w st1 = (q, st2)" by fastforce
    show ?thesis
    proof (cases q)
      case None
      then have "seed_events batch w R items bs h T hs n st2 = (r, st')"
        using Suc.prems(3) d f False by (simp add: st1_def Let_def)
      moreover have "going bs s0 (evs @ [ev]) st2" "gen_events R items hs n (ss_rng st2) = (rest, g')"
        using gd(2)[OF False f[unfolded None]] rest es by simp_all
      ultimately show ?thesis using Suc.IH[of "evs @ [ev]" st2 rest] es by (auto split: if_splits)
    next
      case (Some e)
      then have "r \<noteq> None" "st' = st2 \<or> st' = flushDetachedOnCancel batch w st2"
        using Suc.prems(3) d f False by (auto simp: st1_def Let_def split: if_splits)
      moreover have "left_off bs s0 (evs @ es) st2 \<and> left_off bs s0 (evs @ es) (flushDetachedOnCancel batch w st2)"
        using gd(3)[OF f[unfolded Some]] left_off_mono[of bs s0 "evs @ [ev]" st2 "evs @ es"]
          left_off_mono[of bs s0 "evs @ [ev]" "flushDetachedOnCancel batch w st2" "evs @ es"] es by simp
      ultimately show ?thesis by auto
    qed
  qed
qed simp

lemma seed_hours_run:
  assumes "going bs s0 evs st" "gen_hours R rate items ws h n (ss_rng st) = (es, g')"
    and "seed_hours batch w R rate items bs T ws h n st = (r, st')"
  shows "if r = None then going bs s0 (evs @ es) st' else left_off bs s0 (evs @ es) st'"
  using assms
proof (induction n arbitrary: evs st es h)
  case (Suc n)
  let ?hs = "ws + int h * Hour"
  let ?k = "nat (hour_count rate ?hs)"
  obtain es1 g1 where e1: "gen_events R items ?hs ?k (ss_rng st) = (es1, g1)" by fastforce
  obtain es2 g2 where e2: "gen_hours R rate items ws (Suc h) n g1 = (es2, g2)" by fastforce
  have es: "es = es1 @ es2" "g2 = g'" using Suc.prems(2) e1 e2 by (simp_all add: Let_def)
  show ?case
  proof (cases "sw_ctxHour w (int h)")
    case True
    let ?cs = "fst (chunks bs evs)"
    have st: "ss_store st = foldl (\<lambda>s c. apply_b c s) s0 ?cs" "concat ?cs @ ss_pending st = evs"
      "ss_totalWritten st = rows (ss_store st) - rows s0"
      using Suc.prems(1) chunks_concat[of bs evs] by (simp_all add: going_def)
    have "left_off bs s0 evs (flushDetachedOnCancel batch w st)"
      using left_off_flush[of st s0 ?cs evs bs w] st rows_foldl[of s0 ?cs] by (simp add: flushDetachedOnCancel_def)
    then have "left_off bs s0 (evs @ es) (flushDetachedOnCancel batch w st)" by (rule left_off_mono) simp
    then show ?thesis using Suc.prems(3) True by auto
  next
    case False
    obtain q st1 where s: "seed_events batch w R items bs (int h) T ?hs ?k st = (q, st1)" by fastforce
    note ev = seed_events_run[OF Suc.prems(1) e1 s]
    show ?thesis
    proof (cases q)
      case None
      then have "seed_hours batch w R rate items bs T ws (Suc h) n st1 = (r, st')"
        using Suc.prems(3) s False by (simp add: Let_def)
      moreover have "going bs s0 (evs @ es1) st1" "gen_hours R rate items ws (Suc h) n (ss_rng st1) = (es2, g')"
        using ev None e2 es by simp_all
      ultimately show ?thesis using Suc.IH[of "evs @ es1" st1 "Suc h" es2] es by (auto split: if_splits)
    next
      case (Some e)
      then have "r = Some e" "st' = st1" using Suc.prems(3) s False by (simp_all add: Let_def)
      moreover have "left_off bs s0 (evs @ es) st1" using ev Some es left_off_mono[of bs s0 "evs @ es1" st1] by simp
      ultimately show ?thesis by simp
    qed
  qed
qed simp

end

definition batch_size :: "SeederConfig \<Rightarrow> int" where
  "batch_size cfg = (if sc_BatchSize cfg \<le> 0 then defaultBatchSize else sc_BatchSize cfg)"

definition window_end :: "SeederConfig \<Rightarrow> go_time" where
  "window_end cfg = time_Truncate (sc_RefTime cfg) Hour"

definition window_start :: "SeederConfig \<Rightarrow> go_time" where
  "window_start cfg = window_end cfg + window_offset (sc_Days cfg)"

definition seed_rate :: "(real \<Rightarrow> real) \<Rightarrow> SeederConfig \<Rightarrow> Profile \<Rightarrow> real \<Rightarrow> real" where
  "seed_rate cosf cfg profile t = Rate cosf t profile (fl (of_int (time_Unix (sc_RefTime cfg)))) (sc_Scale cfg)"

definition seed_rng :: "(64 word \<Rightarrow> 64 word \<Rightarrow> 'g) \<Rightarrow> SeederConfig \<Rightarrow> 'g" where
  "seed_rng newPCG cfg =
     (let seed = word_of_int (sc_SeedValue cfg) in newPCG seed (seed XOR 0x9e3779b97f4a7c15))"

definition planned_events ::
  "'g rng \<Rightarrow> (64 word \<Rightarrow> 64 word \<Rightarrow> 'g) \<Rightarrow> (real \<Rightarrow> real) \<Rightarrow> SeederConfig \<Rightarrow> Profile \<Rightarrow> Item list \<Rightarrow> EventRecord list" where
  "planned_events R newPCG cosf cfg profile items =
     fst (gen_hours R (seed_rate cosf cfg profile) items (window_start cfg) 0
       (nat (window_hours (window_end cfg) (window_start cfg))) (seed_rng newPCG cfg))"

text \<open>The run is its hours followed by the final flush.\<close>

definition seed_start :: "'r \<Rightarrow> 's \<Rightarrow> ('s, 'r) seed_state" where
  "seed_start g s = \<lparr>ss_store = s, ss_pending = [], ss_totalWritten = 0, ss_calls = 0, ss_rng = g\<rparr>"

lemma SeederRun_unfold:
  assumes "items \<noteq> []" "0 < sc_Days cfg"
    and "seed_hours batch w R (seed_rate cosf cfg profile) items (batch_size cfg) (window_hours (window_end cfg) (window_start cfg))
      (window_start cfg) 0 (nat (window_hours (window_end cfg) (window_start cfg))) (seed_start (seed_rng newPCG cfg) s) = (r, st)"
  shows "SeederRun batch w R newPCG cosf cfg profile items s =
      (case r of Some e \<Rightarrow> ((ss_totalWritten st, Some e), ss_store st)
       | None \<Rightarrow> (case seed_flush batch w st of
            (None, st1) \<Rightarrow> ((ss_totalWritten st1, None), ss_store st1)
          | (Some e, st1) \<Rightarrow> if sw_ctxFlush w (ss_calls st)
              then ((ss_totalWritten (flushDetachedOnCancel batch w st1), Some CanceledFinalFlush),
                    ss_store (flushDetachedOnCancel batch w st1))
              else ((ss_totalWritten st1, Some e), ss_store st1)))"
proof -
  have rate: "(\<lambda>t. Rate cosf t profile (fl (of_int (time_Unix (sc_RefTime cfg)))) (sc_Scale cfg)) = seed_rate cosf cfg profile"
    by (simp add: seed_rate_def fun_eq_iff)
  show ?thesis
    using assms unfolding SeederRun_def Let_def rate
    by (simp add: seed_start_def batch_size_def[symmetric] window_end_def[symmetric] window_start_def[symmetric]
        seed_rng_def[unfolded Let_def, symmetric] split: option.splits)
qed

context seed_store
begin

text \<open>A final flush that fails: the run ends with whole batches written, whether or not the detached flush saves the rest.\<close>

lemma final_flush_left_off:
  assumes "going bs s evs st" "seed_flush batch w st = (Some e, st1)"
  shows "left_off bs s evs st1 \<and> left_off bs s evs (flushDetachedOnCancel batch w st1)"
proof -
  let ?cs = "fst (chunks bs evs)"
  note ff = flush_failed[OF assms(2)] and g = assms(1)[unfolded going_def]
  have s2: "ss_store st1 = foldl (\<lambda>s c. apply_b c s) s ?cs \<or>
      ss_store st1 = apply_b (ss_pending st1) (foldl (\<lambda>s c. apply_b c s) s ?cs)" using ff g by auto
  have p: "concat ?cs @ ss_pending st1 = evs" using ff g chunks_concat by metis
  have w2: "ss_totalWritten st1 = rows (foldl (\<lambda>s c. apply_b c s) s ?cs) - rows s" using ff g by simp
  show ?thesis unfolding flushDetachedOnCancel_def
    by (rule left_off_flush[OF s2 p]) (use w2 s2 rows_foldl[of s ?cs] batch_rows in auto)
qed

lemma SeederRun_run:
  assumes "items \<noteq> []" "0 < sc_Days cfg"
    and "SeederRun batch w R newPCG cosf cfg profile items s = ((n, res), s')"
  shows "if res = None
    then s' = foldl (\<lambda>s c. apply_b c s) s (batches (batch_size cfg) (planned_events R newPCG cosf cfg profile items))
      \<and> n = rows s' - rows s
    else \<exists>cs. s' = foldl (\<lambda>s c. apply_b c s) s cs \<and> prefix (concat cs) (planned_events R newPCG cosf cfg profile items)
      \<and> 0 \<le> n \<and> n \<le> rows s' - rows s"
proof -
  let ?bs = "batch_size cfg" and ?T = "window_hours (window_end cfg) (window_start cfg)"
  let ?rate = "seed_rate cosf cfg profile" and ?evs = "planned_events R newPCG cosf cfg profile items"
  let ?st0 = "seed_start (seed_rng newPCG cfg) s"
  obtain r st where h: "seed_hours batch w R ?rate items ?bs ?T (window_start cfg) 0 (nat ?T) ?st0 = (r, st)" by fastforce
  note run = SeederRun_unfold[OF assms(1,2) h]
  have g0: "going ?bs s [] ?st0" by (simp add: going_def chunks_def seed_start_def)
  obtain g' where gen: "gen_hours R ?rate items (window_start cfg) 0 (nat ?T) (ss_rng ?st0) = (?evs, g')"
    unfolding planned_events_def seed_start_def by (metis prod.collapse seed_state.select_convs(5))
  note hr = seed_hours_run[OF g0 gen h, unfolded append_Nil]
  show ?thesis
  proof (cases r)
    case (Some e)
    then have "n = ss_totalWritten st" "res = Some e" "s' = ss_store st" "left_off ?bs s ?evs st"
      using run assms(3) hr by auto
    then show ?thesis unfolding left_off_def by auto
  next
    case None
    then have going: "going ?bs s ?evs st" using hr by simp
    obtain q st1 where f: "seed_flush batch w st = (q, st1)" by fastforce
    show ?thesis
    proof (cases q)
      case q: None
      have "n = ss_totalWritten st1" "res = None" "s' = ss_store st1" using run assms(3) None f q by auto
      with flush_going[OF f[unfolded q]] going show ?thesis by (simp add: batches_def case_prod_beta going_def)
    next
      case (Some e)
      have "res \<noteq> None \<and> (n = ss_totalWritten st1 \<and> s' = ss_store st1 \<or>
          n = ss_totalWritten (flushDetachedOnCancel batch w st1) \<and> s' = ss_store (flushDetachedOnCancel batch w st1))"
        using run assms(3) None f Some by (auto split: if_splits)
      with final_flush_left_off[OF going f[unfolded Some]] show ?thesis unfolding left_off_def by auto
    qed
  qed
qed

end

text \<open>The store provides the interface.\<close>

interpretation store_seed: seed_store "IngestEventsBatch P" "batch_effect P" "\<lambda>db. int (length (item_events db))" for P
proof unfold_locales
  show "s' = batch_effect P evs s \<and> br_Inserted r = int (length (item_events s')) - int (length (item_events s))"
    if "IngestEventsBatch P f evs s = (Inr r, s')" for f evs s r s'
    using that by (auto elim!: IngestEventsBatch_cases simp: batch_effect_def)
  show "\<exists>r s'. IngestEventsBatch P no_faults evs s = (Inr r, s')"
    if "\<forall>ev \<in> set evs. event_storable ev" for evs s
    using that by (auto simp: IngestEventsBatch_unfold)
qed (auto elim!: IngestEventsBatch_cases simp: batch_effect_idem, simp add: batch_effect_def)

section \<open>Replaying batches\<close>

definition batches_effect :: "pgx \<Rightarrow> EventRecord list list \<Rightarrow> db \<Rightarrow> db" where
  "batches_effect P cs db = foldl (\<lambda>db c. batch_effect P c db) db cs"

lemma batches_effect_simps [simp]:
  "batches_effect P [] db = db"
  "batches_effect P (c # cs) db = batches_effect P cs (batch_effect P c db)"
  "batches_effect P (cs @ ds) db = batches_effect P ds (batches_effect P cs db)"
  by (simp_all add: batches_effect_def)

lemma item_events_batches:
  "item_events (batches_effect P cs db) = fst (insert_all_do_nothing ie_key (item_events db) (map (event_row P) (concat cs)))"
proof (induction cs arbitrary: db)
  case (Cons c cs)
  have "item_events (batch_effect P c db) = fst (insert_all_do_nothing ie_key (item_events db) (map (event_row P) c))"
    by (simp add: batch_effect_def batch_new_def insert_all_returning)
  with Cons show ?case by (simp add: insert_all_fst)
qed simp

lemma current_items_batches:
  "current_items (batches_effect P cs db) =
   foldl (upsert ci_id ci_upd_event) (current_items db) (concat (map (\<lambda>c. map (folded_row P) (the (foldCurrentItems c))) cs))"
  by (induction cs arbitrary: db) (simp_all add: batch_effect_def)

lemma batches_effect_known:
  assumes "\<forall>ev \<in> set (concat cs). lookup ie_key (item_events db) (ie_key (event_row P ev)) \<noteq> None"
  shows "batches_effect P cs db = db\<lparr>current_items :=
     foldl (upsert ci_id ci_upd_event) (current_items db) (concat (map (\<lambda>c. map (folded_row P) (the (foldCurrentItems c))) cs))\<rparr>"
  using assms
proof (induction cs arbitrary: db)
  case (Cons c cs)
  have "insert_all_do_nothing ie_key (item_events db) (map (event_row P) c) = (item_events db, [])"
    by (rule insert_all_present) (use Cons.prems in auto)
  then have c: "batch_effect P c db = db\<lparr>current_items :=
      foldl (upsert ci_id ci_upd_event) (current_items db) (map (folded_row P) (the (foldCurrentItems c)))\<rparr>"
    by (simp add: batch_effect_def batch_new_def bucket_deltas_def group_by_def)
  show ?case using Cons.prems by (simp add: c Cons.IH)
qed simp

lemma batches_effect_replay: "batches_effect P cs (batches_effect P cs db) = batches_effect P cs db"
proof -
  have known: "lookup ie_key (item_events (batches_effect P cs db)) (ie_key (event_row P ev)) \<noteq> None" if "ev \<in> set (concat cs)" for ev
    unfolding item_events_batches using insert_all_lookup_new[of "event_row P ev" "map (event_row P) (concat cs)" ie_key "item_events db"] that by auto
  then have "batches_effect P cs (batches_effect P cs db) = (batches_effect P cs db)\<lparr>current_items := current_items (batches_effect P cs db)\<rparr>"
    by (subst batches_effect_known) (simp_all add: current_items_batches items_ev.foldl_upsert_replay_any)
  then show ?thesis by simp
qed

section \<open>Drawn events lie in their hour\<close>

lemma offset_bound:
  assumes "0 \<le> x" "x \<le> 1 - 1 / 2 ^ 53"
  shows "0 \<le> fmul (fmul x 3600) 1000000000" "fmul (fmul x 3600) 1000000000 < 3600000000000"
proof -
  define y :: real where "y = (1 - 1 / 2 ^ 53) * 3600"
  have y: "2 ^ 11 \<le> y" "y < 2 ^ 12" "0 < y" by (simp_all add: y_def)
  have "\<lfloor>log 2 y\<rfloor> = 11"
    using floor_log_eq_powr_iff[of y 2 11] y by (simp add: powr_numeral)
  then have e: "fl_exp y = 11" using y by (simp add: fl_exp_def)
  define m where "m = round_even (y / 2 powi (- 41))"
  have fly: "fl y = of_int m * 2 powi (- 41)" using fl_scaled[OF y(3)] e by (simp add: m_def)
  have "\<bar>fl y - y\<bar> \<le> \<bar>y\<bar> / 2 ^ 53" by (rule fl_err[OF normal_range]) (use y in simp)
  moreover have "y + \<bar>y\<bar> / 2 ^ 53 < 3600" by (simp add: y_def)
  ultimately have "fl y < 3600" by linarith
  then have "real_of_int m < of_int (3600 * 2 ^ 41)" by (simp add: fly power_int_minus_divide)
  then have "m < 3600 * 2 ^ 41" by (simp only: of_int_less_iff)
  then have "m \<le> 3600 * 2 ^ 41 - 1" by simp
  then have "real_of_int m \<le> of_int (3600 * 2 ^ 41 - 1)" by (simp only: of_int_le_iff)
  then have fy: "fl y \<le> 3600 - 1 / 2 ^ 41" by (simp add: fly power_int_minus_divide field_simps)
  have "x * 3600 \<le> y" using assms(2) by (simp add: y_def)
  then have a: "fmul x 3600 \<le> 3600 - 1 / 2 ^ 41" unfolding fmul_def using fl_mono fy order_trans by blast
  have a0: "0 \<le> fmul x 3600" using assms(1) by (simp add: fmul_def fl_nonneg)
  then show "0 \<le> fmul (fmul x 3600) 1000000000" by (simp add: fmul_def fl_nonneg)
  define z :: real where "z = (3600 - 1 / 2 ^ 41) * 1000000000"
  have z: "0 < z" by (simp add: z_def)
  have "\<bar>fl z - z\<bar> \<le> \<bar>z\<bar> / 2 ^ 53" by (rule fl_err[OF normal_range]) (simp add: z_def)
  moreover have "z + \<bar>z\<bar> / 2 ^ 53 < 3600000000000" by (simp add: z_def)
  ultimately have "fl z < 3600000000000" by linarith
  moreover have "fmul (fmul x 3600) 1000000000 \<le> fl z"
    unfolding fmul_def[of "fmul x 3600"] by (rule fl_mono) (use a in \<open>simp add: z_def\<close>)
  ultimately show "fmul (fmul x 3600) 1000000000 < 3600000000000" by linarith
qed

definition event_planned :: "Item list \<Rightarrow> go_time \<Rightarrow> EventRecord \<Rightarrow> bool" where
  "event_planned items hourStart ev \<longleftrightarrow>
     hourStart \<le> ev_EventTime ev \<and> ev_EventTime ev < hourStart + Hour \<and>
     ev_EventType ev \<in> {''created'', ''deleted''} \<and>
     (\<exists>item \<in> set items. ev_ItemID ev = si_ID item \<and> ev_ItemName ev = si_Name item)"

lemma draw_event_planned:
  assumes "rng_ok R" "items \<noteq> []" "draw_event R items hourStart g = (ev, g')"
  shows "event_planned items hourStart ev"
proof -
  obtain x g1 where x: "rg_Float64 R g = (x, g1)" by fastforce
  obtain i g2 where i: "rg_IntN R (int (length items)) g1 = (i, g2)" by fastforce
  obtain t g3 where t: "rg_Float64 R g2 = (t, g3)" by fastforce
  have xr: "0 \<le> x" "x \<le> 1 - 1 / 2 ^ 53" using assms(1) x unfolding rng_ok_def by (metis fst_conv)+
  have ir: "0 \<le> i" "i < int (length items)"
    using assms(1,2) i unfolding rng_ok_def by (metis fst_conv length_greater_0_conv of_nat_0_less_iff)+
  let ?o = "fmul (fmul x 3600) 1000000000"
  note o = offset_bound[OF xr]
  have fo: "0 \<le> \<lfloor>?o\<rfloor>" "\<lfloor>?o\<rfloor> < 3600000000000" using o by (simp_all add: floor_less_iff)
  then have "float_to_int64 ?o = \<lfloor>?o\<rfloor>" using o(1) by (simp add: float_to_int64_def in_int64_def)
  moreover have "items ! nat i \<in> set items" using ir by simp
  ultimately show ?thesis
    using assms(3) fo x i t
    by (auto simp: draw_event_def drawEventType_def event_planned_def Let_def Hour_def split: if_splits)
qed

lemma draw_event_storable:
  assumes "rng_ok R" "items \<noteq> []" "\<forall>it \<in> set items. text_ok (si_Name it)"
  shows "event_storable (fst (draw_event R items hs g))"
  using draw_event_planned[OF assms(1,2) surjective_pairing[of "draw_event R items hs g"]] assms(3)
  by (auto simp: event_planned_def event_storable_def event_type_ok_def)

lemma gen_events_planned:
  "rng_ok R \<Longrightarrow> items \<noteq> [] \<Longrightarrow> gen_events R items hs n g = (es, g') \<Longrightarrow> ev \<in> set es \<Longrightarrow> event_planned items hs ev"
proof (induction n arbitrary: g es)
  case (Suc n)
  obtain ev1 g1 where d: "draw_event R items hs g = (ev1, g1)" by fastforce
  obtain rest g2 where r: "gen_events R items hs n g1 = (rest, g2)" by fastforce
  have "es = ev1 # rest" "g2 = g'" using Suc.prems(3) d r by simp_all
  then show ?case using Suc.IH[OF Suc.prems(1,2) r[unfolded \<open>g2 = g'\<close>]] Suc.prems draw_event_planned[OF _ _ d] by auto
qed simp

lemma gen_hours_planned:
  "rng_ok R \<Longrightarrow> items \<noteq> [] \<Longrightarrow> gen_hours R rate items ws h n g = (es, g') \<Longrightarrow> ev \<in> set es \<Longrightarrow>
   \<exists>k. h \<le> k \<and> k < h + n \<and> event_planned items (ws + int k * Hour) ev"
proof (induction n arbitrary: h g es)
  case (Suc n)
  let ?hs = "ws + int h * Hour"
  obtain es1 g1 where e1: "gen_events R items ?hs (nat (hour_count rate ?hs)) g = (es1, g1)" by fastforce
  obtain es2 g2 where e2: "gen_hours R rate items ws (Suc h) n g1 = (es2, g2)" by fastforce
  have es: "es = es1 @ es2" "g2 = g'" using Suc.prems(3) e1 e2 by (simp_all add: Let_def)
  consider "ev \<in> set es1" | "ev \<in> set es2" using Suc.prems(4) es by auto
  then show ?case
  proof cases
    case 1
    then show ?thesis using gen_events_planned[OF Suc.prems(1,2) e1] by auto
  next
    case 2
    then obtain k where "Suc h \<le> k" "k < Suc h + n" "event_planned items (ws + int k * Hour) ev"
      using Suc.IH[OF Suc.prems(1,2) e2[unfolded es(2)]] by blast
    then show ?thesis by (intro exI[of _ k]) simp
  qed
qed simp

lemma window_offset_exact: "1 \<le> days \<Longrightarrow> days \<le> 106751 \<Longrightarrow> window_offset days = - (days * 24 * Hour)"
  by (simp add: window_offset_def wrap64_id in_int64_def Hour_def)

lemma window_hours_exact:
  assumes "1 \<le> days" "days \<le> 106751"
  shows "window_hours e (e - days * 24 * Hour) = days * 24"
proof -
  let ?d = "days * 24 * Hour"
  have d: "time_Sub e (e - ?d) = ?d" using assms by (simp add: time_Sub_def Hour_def)
  have m: "go_div ?d Hour = days * 24" "go_mod ?d Hour = 0"
    using assms by (simp_all add: go_div_nonneg go_mod_nonneg Hour_def)
  have f: "fl (of_int (days * 24)) = of_int (days * 24)" using assms by (intro fl_of_int) simp
  have "duration_Hours ?d = fl (fl (of_int (days * 24)) + fl (0 / (60 * 60 * 1000000000)))"
    unfolding duration_Hours_def m fadd_def fdiv_def by simp
  also have "\<dots> = of_int (days * 24)" by (simp only: f div_0 fl_0 add_0_right)
  finally have "duration_Hours ?d = of_int (days * 24)" .
  moreover have "in_int64 (days * 24)" using assms by (simp add: in_int64_def)
  ultimately show ?thesis unfolding window_hours_def d by (simp only: float_to_int64_of_int)
qed

section \<open>Properties\<close>

text \<open>A generator and a world for the witnesses: a counter, no cancellation, no faults.\<close>

definition rng_zero :: "nat rng" where
  "rng_zero = \<lparr>rg_Float64 = (\<lambda>g. (0, g)), rg_IntN = (\<lambda>n g. (0, g))\<rparr>"

definition calm :: seed_world where
  "calm = \<lparr>sw_ctxHour = (\<lambda>_. False), sw_ctxFlush = (\<lambda>_. False), sw_faults = (\<lambda>_. no_faults)\<rparr>"

lemma rng_zero_ok: "rng_ok rng_zero"
  by (simp add: rng_ok_def rng_zero_def)

context seed_store
begin

definition pending_ok :: "('s, 'g) seed_state \<Rightarrow> bool" where
  "pending_ok st \<longleftrightarrow> (\<forall>ev \<in> set (ss_pending st). event_storable ev)"

lemma flush_live:
  assumes "\<And>i. sw_faults w i = no_faults" "pending_ok st"
  shows "\<exists>st'. seed_flush batch w st = (None, st') \<and> pending_ok st'"
proof (cases "ss_pending st = []")
  case False
  obtain r s' where "batch no_faults (ss_pending st) (ss_store st) = (Inr r, s')"
    using batch_live assms(2) unfolding pending_ok_def by blast
  with False show ?thesis by (simp add: seed_flush_def assms(1) pending_ok_def del: no_faults_apply)
qed (use assms(2) in \<open>simp add: seed_flush_def\<close>)

lemma seed_events_live:
  assumes "\<And>i. sw_faults w i = no_faults" "pending_ok st"
    and plan: "\<And>hs g. event_storable (fst (draw_event R items hs g))"
  shows "\<exists>st'. seed_events batch w R items bs h T hs n st = (None, st') \<and> pending_ok st'"
  using assms(2)
proof (induction n arbitrary: st)
  case (Suc n)
  obtain ev g where d: "draw_event R items hs (ss_rng st) = (ev, g)" by fastforce
  define st1 where "st1 = st\<lparr>ss_pending := ss_pending st @ [ev], ss_rng := g\<rparr>"
  have "event_storable ev" using plan[of hs "ss_rng st"] d by simp
  then have ok: "pending_ok st1" using Suc.prems by (simp add: pending_ok_def st1_def)
  obtain st2 where f: "seed_flush batch w st1 = (None, st2)" "pending_ok st2" using flush_live[OF assms(1) ok] by blast
  have "seed_events batch w R items bs h T hs (Suc n) st =
      (if int (length (ss_pending st1)) \<ge> bs then seed_events batch w R items bs h T hs n st2
       else seed_events batch w R items bs h T hs n st1)"
    using d f(1) by (simp add: st1_def Let_def)
  then show ?case using Suc.IH[OF ok] Suc.IH[OF f(2)] by simp
qed simp

lemma seed_hours_live:
  assumes "\<And>i. sw_faults w i = no_faults" "\<And>h. \<not> sw_ctxHour w h" "pending_ok st"
    and plan: "\<And>hs g. event_storable (fst (draw_event R items hs g))"
  shows "\<exists>st'. seed_hours batch w R rate items bs T ws h n st = (None, st') \<and> pending_ok st'"
  using assms(3)
proof (induction n arbitrary: st h)
  case (Suc n)
  let ?hs = "ws + int h * Hour"
  obtain st1 where e: "seed_events batch w R items bs (int h) T ?hs (nat (hour_count rate ?hs)) st = (None, st1)" "pending_ok st1"
    using seed_events_live[OF assms(1) Suc.prems plan] by blast
  then show ?case using Suc.IH[OF e(2)] assms(2) by (simp add: Let_def)
qed simp

lemma SeederRun_live:
  assumes "items \<noteq> []" "0 < sc_Days cfg" "\<And>i. sw_faults w i = no_faults" "\<And>h. \<not> sw_ctxHour w h"
    and names: "rng_ok R" "\<forall>it \<in> set items. text_ok (si_Name it)"
  shows "\<exists>n s'. SeederRun batch w R newPCG cosf cfg profile items s = ((n, None), s')"
proof -
  let ?T = "window_hours (window_end cfg) (window_start cfg)"
  let ?st0 = "\<lparr>ss_store = s, ss_pending = [], ss_totalWritten = 0, ss_calls = 0, ss_rng = seed_rng newPCG cfg\<rparr>"
  have ok: "pending_ok ?st0" by (simp add: pending_ok_def)
  obtain st where h: "seed_hours batch w R (seed_rate cosf cfg profile) items (batch_size cfg) ?T (window_start cfg) 0 (nat ?T) ?st0 = (None, st)"
    "pending_ok st" using seed_hours_live[OF assms(3,4) ok draw_event_storable[OF names(1) assms(1) names(2)]] by blast
  obtain st1 where f: "seed_flush batch w st = (None, st1)" using flush_live[OF assms(3) h(2)] by blast
  have rate: "(\<lambda>t. Rate cosf t profile (fl (of_int (time_Unix (sc_RefTime cfg)))) (sc_Scale cfg)) = seed_rate cosf cfg profile"
    by (simp add: seed_rate_def fun_eq_iff)
  show ?thesis
    using assms(1,2) h f unfolding SeederRun_def Let_def rate
    by (simp add: batch_size_def[symmetric] window_end_def[symmetric] window_start_def[symmetric]
        seed_rng_def[unfolded Let_def, symmetric])
qed

end

text \<open>C9: a seed run over the real store. Without a database fault or a cancellation, with a generator that keeps its
  documented ranges and with item names that PostgreSQL can hold, it reports success; and whenever it
  reports success, the tables are those of the planned history written batch by batch, the batches together
  are exactly the planned events in order, and the reported count is the number of raw rows that were
  added.\<close>
theorem SeederRun_complete:
  assumes "items \<noteq> []" "0 < sc_Days cfg"
    and "SeederRun (IngestEventsBatch P) w R newPCG cosf cfg profile items db = ((n, res), db')"
  shows "((\<forall>i. sw_faults w i = no_faults) \<and> (\<forall>h. \<not> sw_ctxHour w h)
        \<and> rng_ok R \<and> (\<forall>it \<in> set items. text_ok (si_Name it)) \<longrightarrow> res = None)
    \<and> (res = None \<longrightarrow> (\<exists>cs. concat cs = planned_events R newPCG cosf cfg profile items
      \<and> db' = batches_effect P cs db
      \<and> n = int (length (item_events db')) - int (length (item_events db))))"
proof -
  from store_seed.SeederRun_run[OF assms] batches_concat
  have "res = None \<longrightarrow> (\<exists>cs. concat cs = planned_events R newPCG cosf cfg profile items
      \<and> db' = batches_effect P cs db \<and> n = int (length (item_events db')) - int (length (item_events db)))"
    unfolding batches_effect_def by (cases res) force+
  moreover have "res = None" if "\<forall>i. sw_faults w i = no_faults" "\<forall>h. \<not> sw_ctxHour w h"
    "rng_ok R" "\<forall>it \<in> set items. text_ok (si_Name it)"
    using store_seed.SeederRun_live[OF assms(1,2), of w R P newPCG cosf profile db] that assms(3)
    by (simp del: no_faults_apply)
  ultimately show ?thesis by blast
qed

text \<open>A flat profile: one event per second.\<close>

definition flat_profile :: Profile where
  "flat_profile = \<lparr>pr_BaseRatePerS = 1, pr_Diurnal = \<lparr>di_Amplitude = 0, di_PhaseHours = 14\<rparr>,
     pr_WeekdayCoefficients = [1, 1, 1, 1, 1, 1, 1], pr_NoisePct = 0, pr_Trend = \<lparr>tr_PctPerDay = 0\<rparr>,
     pr_Anomalies = []\<rparr>"

definition sample_config :: SeederConfig where
  "sample_config = \<lparr>sc_Days = 1, sc_SeedValue = 42, sc_Scale = 1, sc_RefTime = 1750000000 * Second, sc_BatchSize = 0\<rparr>"

definition sample_items :: "Item list" where
  "sample_items = [\<lparr>si_ID = 7, si_Name = ''widget''\<rparr>]"

lemma sample_config_sel [simp]: "sc_Days sample_config = 1" "sample_items \<noteq> []"
  by (simp_all add: sample_config_def sample_items_def)

lemma sample_names: "\<forall>it \<in> set sample_items. text_ok (si_Name it)"
  by (simp add: sample_items_def text_ok_def)

lemma Rate_flat: "Rate cosf t flat_profile ref scale = 1"
proof -
  have "mondayIndex x = (float_to_int64 (ffloor (fdiv x secondsPerDay)) + 3) mod 7" for x
    by (simp add: mondayIndex_def Let_def weekday_index)
  then have "nat (mondayIndex x) < 7" for x by simp
  moreover have "[1, 1, 1, 1, 1, 1, 1] ! i = (1::real)" if "i < 7" for i
    using that by (auto simp: less_Suc_eq numeral_eq_Suc)
  ultimately have "[1, 1, 1, 1, 1, 1, 1] ! nat (mondayIndex x) = (1::real)" for x by blast
  then show ?thesis
    by (simp add: Rate_def flat_profile_def Let_def flops anomaly_product_def)
qed

lemma sample_plan_ne: "planned_events rng_zero (\<lambda>_ _. 0) cos sample_config flat_profile sample_items \<noteq> []"
proof -
  have T: "window_hours (window_end sample_config) (window_start sample_config) = 24"
    using window_hours_exact[of 1 "window_end sample_config"] window_offset_exact[of 1] by (simp add: window_start_def)
  have n: "hour_count (seed_rate cos sample_config flat_profile) hs = 3600" for hs
    by (simp add: hour_count_def Let_def seed_rate_def Rate_flat fmul_def fround_def float_to_int64_def in_int64_def)
  have ge: "fst (gen_events rng_zero sample_items hs k g) \<noteq> []" if "0 < k" for hs k g
    using that by (cases k) (simp_all add: case_prod_beta)
  have "fst (gen_hours rng_zero (seed_rate cos sample_config flat_profile) sample_items ws h m g) \<noteq> []" if "0 < m" for ws h m g
    using that ge[of 3600] by (cases m) (simp_all add: case_prod_beta Let_def n)
  then show ?thesis by (simp add: planned_events_def T)
qed

theorem SeederRun_complete_witness:
  "\<exists>n db'. SeederRun (IngestEventsBatch pgx_us) calm rng_zero (\<lambda>_ _. 0) cos sample_config flat_profile sample_items empty_db
     = ((n, None), db')"
proof -
  obtain n res db' where run: "SeederRun (IngestEventsBatch pgx_us) calm rng_zero (\<lambda>_ _. 0) cos sample_config flat_profile sample_items empty_db
      = ((n, res), db')" by (metis prod.collapse)
  have "0 < sc_Days sample_config" by simp
  from SeederRun_complete[OF sample_config_sel(2) this run] have "res = None"
    using sample_names rng_zero_ok by (simp add: calm_def)
  with run show ?thesis by blast
qed

text \<open>C17: a seed run that stops early, for whichever reason (a failing batch, a cancellation at the top of an hour,
  during a flush or at the final flush, an acknowledgement lost on the way): the tables are those of whole
  batches that form a prefix of the planned history, so no event is written in part or out of order, and
  the reported count never exceeds the rows that were added.\<close>
theorem SeederRun_partial:
  assumes "items \<noteq> []" "0 < sc_Days cfg"
    and "SeederRun (IngestEventsBatch P) w R newPCG cosf cfg profile items db = ((n, Some e), db')"
  shows "\<exists>cs. prefix (concat cs) (planned_events R newPCG cosf cfg profile items)
      \<and> db' = batches_effect P cs db
      \<and> 0 \<le> n \<and> n \<le> int (length (item_events db')) - int (length (item_events db))"
  using store_seed.SeederRun_run[OF assms] unfolding batches_effect_def by force

text \<open>C18: re-running a seed with the same configuration is a no-op: if two runs in a row both report success, the
  second changes no table and reports zero events, whatever faults each of them met.\<close>
theorem SeederRun_rerun_noop:
  assumes "items \<noteq> []" "0 < sc_Days cfg"
    and "SeederRun (IngestEventsBatch P) w R newPCG cosf cfg profile items db = ((n, None), db')"
    and "SeederRun (IngestEventsBatch P) w' R newPCG cosf cfg profile items db' = ((n', None), db'')"
  shows "db'' = db' \<and> n' = 0"
proof -
  let ?cs = "batches (batch_size cfg) (planned_events R newPCG cosf cfg profile items)"
  have 1: "db' = batches_effect P ?cs db"
    using store_seed.SeederRun_run[OF assms(1,2,3)] by (simp add: batches_effect_def)
  have 2: "db'' = batches_effect P ?cs db'" "n' = int (length (item_events db'')) - int (length (item_events db'))"
    using store_seed.SeederRun_run[OF assms(1,2,4)] by (simp_all add: batches_effect_def)
  then show ?thesis using 1 batches_effect_replay by simp
qed

text \<open>C23: the planned history lies in its window. For 1 to 106751 days (the range of a Duration) the window is
  exactly that many days, ends at the hour of the reference time and is cut into days * 24 hours; every
  planned event falls inside one of these hours, is a creation or a deletion, and refers to one of the given
  items.\<close>
theorem planned_events_in_window:
  assumes "rng_ok R" "items \<noteq> []" "1 \<le> sc_Days cfg" "sc_Days cfg \<le> 106751"
    and "ev \<in> set (planned_events R newPCG cosf cfg profile items)"
  shows "window_end cfg - window_start cfg = sc_Days cfg * 24 * Hour
    \<and> window_end cfg mod Hour = 0 \<and> window_end cfg \<le> sc_RefTime cfg \<and> sc_RefTime cfg < window_end cfg + Hour
    \<and> window_start cfg \<le> ev_EventTime ev \<and> ev_EventTime ev < window_end cfg
    \<and> (\<exists>k. 0 \<le> k \<and> k < sc_Days cfg * 24 \<and> event_planned items (window_start cfg + k * Hour) ev)"
proof -
  have ws: "window_start cfg = window_end cfg - sc_Days cfg * 24 * Hour"
    using window_offset_exact[OF assms(3,4)] by (simp add: window_start_def)
  have T: "window_hours (window_end cfg) (window_start cfg) = sc_Days cfg * 24"
    unfolding ws by (rule window_hours_exact[OF assms(3,4)])
  obtain es g' where gen: "gen_hours R (seed_rate cosf cfg profile) items (window_start cfg) 0
      (nat (sc_Days cfg * 24)) (seed_rng newPCG cfg) = (es, g')" by fastforce
  have "ev \<in> set es" using assms(5) gen by (simp add: planned_events_def T)
  from gen_hours_planned[OF assms(1,2) gen this] obtain k where
    k: "k < nat (sc_Days cfg * 24)" "event_planned items (window_start cfg + int k * Hour) ev" by auto
  have kb: "0 \<le> int k" "int k + 1 \<le> sc_Days cfg * 24" using k(1) by linarith+
  have "(int k + 1) * Hour \<le> sc_Days cfg * 24 * Hour" using kb(2) by (intro mult_right_mono) (simp_all add: Hour_def)
  then have "window_start cfg \<le> ev_EventTime ev \<and> ev_EventTime ev < window_end cfg"
    using k(2) ws kb(1) unfolding event_planned_def distrib_right by (auto simp: Hour_def)
  moreover have "window_end cfg mod Hour = 0 \<and> window_end cfg \<le> sc_RefTime cfg \<and> sc_RefTime cfg < window_end cfg + Hour"
    using time_Truncate_bounds[of Hour "sc_RefTime cfg"] by (simp add: window_end_def)
  ultimately show ?thesis using k kb ws by (auto intro!: exI[of _ "int k"])
qed

text \<open>C40: one day more overflows the Duration: with 106752 days the window offset wraps around to the future, the loop
  runs over no hour at all, and the run reports success with nothing written.\<close>
theorem SeederRun_days_overflow:
  assumes "items \<noteq> []" "sc_Days cfg = 106752"
  shows "SeederRun batch w R newPCG cosf cfg profile items s = ((0, None), s)"
proof -
  have off: "window_offset 106752 = 9223371273709551616"
    by (simp add: window_offset_def wrap64_def Hour_def)
  have "window_hours e (e + 9223371273709551616) \<le> 0" for e
  proof -
    have s: "time_Sub e (e + 9223371273709551616) = - 9223371273709551616" by (simp add: time_Sub_def)
    have g: "go_div (- 9223371273709551616) Hour = - 2562047" "go_mod (- 9223371273709551616) Hour = - 2073709551616"
      by (simp_all add: go_mod_def go_div_def Hour_def)
    have f: "fl (of_int (- 2562047)) = of_int (- 2562047)" "fl (of_int (- 2073709551616)) = of_int (- 2073709551616)"
      by (rule fl_of_int, simp)+
    have "fl (- 2073709551616 / 3600000000000) \<le> 0" by (rule fl_nonpos) simp
    then have "duration_Hours (- 9223371273709551616) \<le> 0"
      unfolding duration_Hours_def g f fadd_def fdiv_def by (intro fl_nonpos) simp
    then show ?thesis unfolding window_hours_def s by (simp add: float_to_int64_def Let_def)
  qed
  then have "nat (window_hours e (e + 9223371273709551616)) = 0" for e by simp
  with assms off show ?thesis by (simp add: SeederRun_def Let_def seed_flush_def)
qed

text \<open>The witnesses of the remaining properties.\<close>

lemma sample_run:
  "\<exists>n db'. SeederRun (IngestEventsBatch P) calm rng_zero (\<lambda>_ _. 0) cos sample_config flat_profile sample_items db = ((n, None), db')"
  using sample_names rng_zero_ok by (intro store_seed.SeederRun_live) (simp_all add: calm_def)

theorem SeederRun_partial_witness:
  "\<exists>n e db' cs. SeederRun (IngestEventsBatch pgx_us) (calm\<lparr>sw_ctxHour := (\<lambda>_. True)\<rparr>) rng_zero (\<lambda>_ _. 0) cos sample_config flat_profile sample_items empty_db
       = ((n, Some e), db') \<and> db' = batches_effect pgx_us cs empty_db"
proof -
  let ?w = "calm\<lparr>sw_ctxHour := (\<lambda>_. True)\<rparr>"
  have T: "window_hours (window_end sample_config) (window_start sample_config) = 24"
    using window_hours_exact[of 1 "window_end sample_config"] window_offset_exact[of 1] by (simp add: window_start_def)
  have h: "seed_hours b ?w R rate items bs T' ws 0 (nat 24) st = (Some (SeedCanceled 0 T'), flushDetachedOnCancel b ?w st)"
    for b :: "db batch_op" and R :: "nat rng" and rate items bs T' ws st
    using seed_hours.simps(2)[of b ?w R rate items bs T' ws 0 23 st] by simp
  obtain n e db' where run: "SeederRun (IngestEventsBatch pgx_us) ?w rng_zero (\<lambda>_ _. 0) cos sample_config flat_profile sample_items empty_db
      = ((n, Some e), db')"
    unfolding SeederRun_def Let_def
    using T h by (simp add: window_end_def window_start_def)
  have "0 < sc_Days sample_config" by simp
  from SeederRun_partial[OF sample_config_sel(2) this run] run show ?thesis by blast
qed

theorem SeederRun_rerun_noop_witness:
  "\<exists>n db'. SeederRun (IngestEventsBatch pgx_us) calm rng_zero (\<lambda>_ _. 0) cos sample_config flat_profile sample_items empty_db = ((n, None), db')
     \<and> SeederRun (IngestEventsBatch pgx_us) calm rng_zero (\<lambda>_ _. 0) cos sample_config flat_profile sample_items db' = ((0, None), db')"
proof -
  obtain n db' where 1: "SeederRun (IngestEventsBatch pgx_us) calm rng_zero (\<lambda>_ _. 0) cos sample_config flat_profile sample_items empty_db
      = ((n, None), db')" using sample_run by blast
  obtain n' db'' where 2: "SeederRun (IngestEventsBatch pgx_us) calm rng_zero (\<lambda>_ _. 0) cos sample_config flat_profile sample_items db'
      = ((n', None), db'')" using sample_run by blast
  have "0 < sc_Days sample_config" by simp
  from SeederRun_rerun_noop[OF sample_config_sel(2) this 1 2] 1 2 show ?thesis by blast
qed

theorem planned_events_in_window_witness:
  "\<exists>ev. ev \<in> set (planned_events rng_zero (\<lambda>_ _. 0) cos sample_config flat_profile sample_items)
     \<and> ev_EventTime ev < window_end sample_config"
proof -
  obtain ev where ev: "ev \<in> set (planned_events rng_zero (\<lambda>_ _. 0) cos sample_config flat_profile sample_items)"
    using sample_plan_ne hd_in_set by blast
  have "1 \<le> sc_Days sample_config" "sc_Days sample_config \<le> 106751" by simp_all
  from planned_events_in_window[OF rng_zero_ok sample_config_sel(2) this ev] ev show ?thesis by blast
qed

theorem SeederRun_days_overflow_witness:
  "SeederRun (IngestEventsBatch pgx_us) calm rng_zero (\<lambda>_ _. 0) cos (sample_config\<lparr>sc_Days := 106752\<rparr>) flat_profile sample_items empty_db
     = ((0, None), empty_db)"
  by (rule SeederRun_days_overflow) simp_all

section \<open>Invariants of a run\<close>

text \<open>Whatever a batch of drawn events preserves, a run preserves.\<close>

locale batch_invariant =
  fixes batch :: "'s batch_op" and I :: "'s \<Rightarrow> bool" and Q :: "EventRecord \<Rightarrow> bool"
  assumes batch_keeps: "\<forall>ev \<in> set evs. Q ev \<Longrightarrow> I s \<Longrightarrow> I (snd (batch f evs s))"
begin

definition keeps :: "('s, 'g) seed_state \<Rightarrow> bool" where
  "keeps st \<longleftrightarrow> I (ss_store st) \<and> (\<forall>ev \<in> set (ss_pending st). Q ev)"

lemma flush_keeps: "keeps st \<Longrightarrow> keeps (snd (seed_flush batch w st))"
  using batch_keeps[of "ss_pending st" "ss_store st" "sw_faults w (ss_calls st)"]
  by (auto simp: keeps_def seed_flush_def Let_def split: prod.splits sum.splits)

lemma events_keep:
  assumes "\<And>hs g. Q (fst (draw_event R items hs g))" "keeps st"
  shows "keeps (snd (seed_events batch w R items bs h T hs n st))"
  using assms(2)
proof (induction n arbitrary: st)
  case (Suc n)
  obtain ev g where d: "draw_event R items hs (ss_rng st) = (ev, g)" by fastforce
  define st1 where "st1 = st\<lparr>ss_pending := ss_pending st @ [ev], ss_rng := g\<rparr>"
  have "Q ev" using assms(1)[of hs "ss_rng st"] d by simp
  then have st1: "keeps st1" using Suc.prems by (auto simp: keeps_def st1_def)
  obtain q st2 where f: "seed_flush batch w st1 = (q, st2)" by fastforce
  then have st2: "keeps st2" using flush_keeps[OF st1, of w] by simp
  have "seed_events batch w R items bs h T hs (Suc n) st =
      (if int (length (ss_pending st1)) \<ge> bs then
         (case q of Some e \<Rightarrow> if sw_ctxFlush w (ss_calls st1) then (Some (SeedCanceled h T), flushDetachedOnCancel batch w st2) else (Some e, st2)
          | None \<Rightarrow> seed_events batch w R items bs h T hs n st2)
       else seed_events batch w R items bs h T hs n st1)"
    using d f by (simp add: st1_def Let_def split: option.split)
  then show ?case
    using Suc.IH[OF st1] Suc.IH[OF st2] st2 flush_keeps[OF st2, of w] by (auto simp: flushDetachedOnCancel_def split: option.splits)
qed simp

lemma hours_keep:
  assumes "\<And>hs g. Q (fst (draw_event R items hs g))" "keeps st"
  shows "keeps (snd (seed_hours batch w R rate items bs T ws h n st))"
  using assms(2)
proof (induction n arbitrary: h st)
  case (Suc n)
  let ?hs = "ws + int h * Hour"
  obtain q st1 where e: "seed_events batch w R items bs (int h) T ?hs (nat (hour_count rate ?hs)) st = (q, st1)" by fastforce
  then have "keeps st1" using events_keep[OF assms(1) Suc.prems] by (metis snd_conv)
  from Suc.IH[OF this] this e flush_keeps[OF Suc.prems, of w] show ?case
    by (auto simp: Let_def flushDetachedOnCancel_def split: option.splits)
qed simp

lemma run_keeps:
  assumes "items \<noteq> [] \<Longrightarrow> (\<And>hs g. Q (fst (draw_event R items hs g)))"
    and "I s" "SeederRun batch w R newPCG cosf cfg profile items s = (r, s')"
  shows "I s'"
proof (cases "items = [] \<or> sc_Days cfg \<le> 0")
  case True
  then show ?thesis using assms(2,3) by (cases "items = []") (simp_all add: SeederRun_def)
next
  case False
  then have ne: "items \<noteq> []" "0 < sc_Days cfg" by auto
  obtain q st where h: "seed_hours batch w R (seed_rate cosf cfg profile) items (batch_size cfg)
      (window_hours (window_end cfg) (window_start cfg)) (window_start cfg) 0
      (nat (window_hours (window_end cfg) (window_start cfg))) (seed_start (seed_rng newPCG cfg) s) = (q, st)" by fastforce
  have "keeps (seed_start (seed_rng newPCG cfg) s)" using assms(2) by (simp add: keeps_def seed_start_def)
  then have st: "keeps st" using hours_keep[OF assms(1)[OF ne(1)]] h by (metis snd_conv)
  obtain q1 st1 where f: "seed_flush batch w st = (q1, st1)" by fastforce
  then have st1: "keeps st1" using flush_keeps[OF st, of w] by simp
  from assms(3) st st1 flush_keeps[OF st1, of w] f show ?thesis
    unfolding SeederRun_unfold[OF ne h] flushDetachedOnCancel_def
    by (auto simp: keeps_def split: option.splits if_splits)
qed

end

interpretation seed_reach: batch_invariant "IngestEventsBatch P" "\<lambda>db. store_reachable P (s\<lparr>m_db := db\<rparr>)" "\<lambda>_. True" for P s
proof
  show "store_reachable P (s\<lparr>m_db := snd (IngestEventsBatch P f evs db)\<rparr>)"
    if "store_reachable P (s\<lparr>m_db := db\<rparr>)" for f evs db
    using store_reachable.step[OF that store_step.batch[of P f evs _ "fst (IngestEventsBatch P f evs db)"
          "snd (IngestEventsBatch P f evs db)"]] by simp
qed

lemma SeederRun_reachable:
  assumes "store_reachable P s"
    and "SeederRun (IngestEventsBatch P) w R newPCG cosf cfg profile items (m_db s) = (r, db')"
  shows "store_reachable P (s\<lparr>m_db := db'\<rparr>)"
  using seed_reach.run_keeps[OF _ _ assms(2)] assms(1) by simp

end
