(* ===== verification/Grafana.thy ===== *)
theory Grafana
  imports Loadshape
begin

text \<open>
  \<^verbatim>\<open>internal/grafana\<close>: configuration, the annotations computed from a profile, and the client that replaces the
  annotations of an earlier seed run. The Grafana server is not part of the repository: the three
  requests the client sends are parameters (record \<open>grafana_http\<close>), and \<open>grafana_ok\<close> states what the
  annotation API documents of them. A reply is a transport error or a status with a decoded body.
\<close>

section \<open>Configuration and annotations\<close>

record GrafanaConfig =
  gf_URL :: string
  gf_User :: string
  gf_Password :: string

definition GrafanaConfigFromEnv :: "env \<Rightarrow> GrafanaConfig" where
  "GrafanaConfigFromEnv e =
     \<lparr>gf_URL = envString e ''GRAFANA_URL'' ''http://grafana:3000'',
      gf_User = envString e ''GRAFANA_USER'' ''admin'',
      gf_Password = envString e ''GRAFANA_PASSWORD'' ''admin''\<rparr>"

definition AnomalyTag :: string where
  "AnomalyTag = ''seed-anomaly''"

record Annotation =
  at_TimeUnixMilli :: int
  at_TimeEndUnixMilli :: int
  at_Tags :: "string list"
  at_Text :: string

text \<open>\<open>fmt2\<close> formats a float with the verb \<^verbatim>\<open>%.2f\<close>.\<close>

definition annotation_of :: "(real \<Rightarrow> string) \<Rightarrow> real \<Rightarrow> real \<Rightarrow> Anomaly \<Rightarrow> Annotation" where
  "annotation_of fmt2 refUnix scale a =
     (let (startUnix, endUnix) = AnomalyRealWindow a refUnix scale
      in \<lparr>at_TimeUnixMilli = float_to_int64 (fmul startUnix 1000),
          at_TimeEndUnixMilli = float_to_int64 (fmul endUnix 1000),
          at_Tags = [AnomalyTag, an_Type a],
          at_Text = an_Name a @ '' (seeded, x'' @ fmt2 (an_Multiplier a) @ '')''\<rparr>)"

definition ComputeAnnotations :: "(real \<Rightarrow> string) \<Rightarrow> Profile \<Rightarrow> go_time \<Rightarrow> real \<Rightarrow> Annotation list" where
  "ComputeAnnotations fmt2 profile refTime scale =
     (let refUnix = fl (of_int (time_Unix refTime))
      in map (annotation_of fmt2 refUnix scale) (pr_Anomalies profile))"

section \<open>The client\<close>

record apiAnnotation =
  api_ID :: int
  api_Time :: int
  api_TimeEnd :: int
  api_Tags :: "string list"
  api_Text :: string

text \<open>A request fails to be built or sent, or is answered with a status, the bytes of the body that can be read, and what the
  JSON decoder makes of them.\<close>

datatype 'a http_reply = RequestErr | Reply int string 'a

record 'g grafana_http =
  gh_GET :: "string \<Rightarrow> 'g \<Rightarrow> apiAnnotation list option http_reply \<times> 'g"
  gh_DELETE :: "string \<Rightarrow> 'g \<Rightarrow> unit http_reply \<times> 'g"
  gh_POST :: "string \<Rightarrow> apiAnnotation \<Rightarrow> 'g \<Rightarrow> unit http_reply \<times> 'g"

datatype grafana_error = HttpErr | UnexpectedStatus int string | DecodeErr

datatype replace_error = ListErr grafana_error | DeleteErr int grafana_error | CreateErr string grafana_error

text \<open>At most 1024 bytes of the body go into the error.\<close>

definition unexpectedStatus :: "int \<Rightarrow> string \<Rightarrow> grafana_error" where
  "unexpectedStatus st raw = UnexpectedStatus st (take 1024 raw)"

definition list_url :: "GrafanaConfig \<Rightarrow> string \<Rightarrow> string" where
  "list_url cfg tag = gf_URL cfg @ ''/api/annotations?limit=1000&tags='' @ tag"

definition delete_url :: "GrafanaConfig \<Rightarrow> int \<Rightarrow> string" where
  "delete_url cfg i = gf_URL cfg @ ''/api/annotations/'' @ itoa i"

definition create_url :: "GrafanaConfig \<Rightarrow> string" where
  "create_url cfg = gf_URL cfg @ ''/api/annotations''"

definition listByTag ::
  "'g grafana_http \<Rightarrow> GrafanaConfig \<Rightarrow> string \<Rightarrow> 'g \<Rightarrow> (grafana_error + apiAnnotation list) \<times> 'g" where
  "listByTag G cfg tag g =
     (case gh_GET G (list_url cfg tag) g of
        (RequestErr, g') \<Rightarrow> (Inl HttpErr, g')
      | (Reply st raw body, g') \<Rightarrow>
          (if st \<noteq> 200 then (Inl (unexpectedStatus st raw), g')
           else case body of None \<Rightarrow> (Inl DecodeErr, g') | Some out \<Rightarrow> (Inr out, g')))"

definition delete_annotation :: "'g grafana_http \<Rightarrow> GrafanaConfig \<Rightarrow> int \<Rightarrow> 'g \<Rightarrow> grafana_error option \<times> 'g" where
  "delete_annotation G cfg i g =
     (case gh_DELETE G (delete_url cfg i) g of
        (RequestErr, g') \<Rightarrow> (Some HttpErr, g')
      | (Reply st raw _, g') \<Rightarrow> (if st \<noteq> 200 then Some (unexpectedStatus st raw) else None, g'))"

definition api_of :: "Annotation \<Rightarrow> apiAnnotation" where
  "api_of a = \<lparr>api_ID = 0, api_Time = at_TimeUnixMilli a, api_TimeEnd = at_TimeEndUnixMilli a,
     api_Tags = at_Tags a, api_Text = at_Text a\<rparr>"

definition create_annotation :: "'g grafana_http \<Rightarrow> GrafanaConfig \<Rightarrow> Annotation \<Rightarrow> 'g \<Rightarrow> grafana_error option \<times> 'g" where
  "create_annotation G cfg a g =
     (case gh_POST G (create_url cfg) (api_of a) g of
        (RequestErr, g') \<Rightarrow> (Some HttpErr, g')
      | (Reply st raw _, g') \<Rightarrow> (if st \<noteq> 200 then Some (unexpectedStatus st raw) else None, g'))"

fun delete_all :: "'g grafana_http \<Rightarrow> GrafanaConfig \<Rightarrow> apiAnnotation list \<Rightarrow> 'g \<Rightarrow> replace_error option \<times> 'g" where
  "delete_all G cfg [] g = (None, g)"
| "delete_all G cfg (a # as) g =
     (case delete_annotation G cfg (api_ID a) g of
        (Some e, g') \<Rightarrow> (Some (DeleteErr (api_ID a) e), g')
      | (None, g') \<Rightarrow> delete_all G cfg as g')"

fun create_all :: "'g grafana_http \<Rightarrow> GrafanaConfig \<Rightarrow> Annotation list \<Rightarrow> 'g \<Rightarrow> replace_error option \<times> 'g" where
  "create_all G cfg [] g = (None, g)"
| "create_all G cfg (a # as) g =
     (case create_annotation G cfg a g of
        (Some e, g') \<Rightarrow> (Some (CreateErr (at_Text a) e), g')
      | (None, g') \<Rightarrow> create_all G cfg as g')"

definition ReplaceAnomalyAnnotations ::
  "'g grafana_http \<Rightarrow> GrafanaConfig \<Rightarrow> Annotation list \<Rightarrow> 'g \<Rightarrow> replace_error option \<times> 'g" where
  "ReplaceAnomalyAnnotations G cfg anns g =
     (case listByTag G cfg AnomalyTag g of
        (Inl e, g1) \<Rightarrow> (Some (ListErr e), g1)
      | (Inr existing, g1) \<Rightarrow>
          (case delete_all G cfg existing g1 of
             (Some e, g2) \<Rightarrow> (Some e, g2)
           | (None, g2) \<Rightarrow> create_all G cfg anns g2))"

section \<open>What the annotation API documents\<close>

text \<open>
  \<open>stored\<close> is what the server stores. A list by tag gives at most 1000 of the annotations carrying the tag,
  and all of them when there are no more; it changes nothing. A delete by id that is answered 200 removes
  that annotation. A create that is answered 200 stores the annotation under a new id. A request that
  is not answered 200 may or may not have been carried out.
\<close>

definition has_tag :: "string \<Rightarrow> apiAnnotation \<Rightarrow> bool" where
  "has_tag tag a \<longleftrightarrow> tag \<in> set (api_Tags a)"

definition grafana_ok :: "'g grafana_http \<Rightarrow> GrafanaConfig \<Rightarrow> ('g \<Rightarrow> apiAnnotation list) \<Rightarrow> bool" where
  "grafana_ok G cfg stored \<longleftrightarrow>
     (\<forall>tag g r g'. gh_GET G (list_url cfg tag) g = (r, g') \<longrightarrow> stored g' = stored g \<and>
        (\<forall>raw l. r = Reply 200 raw (Some l) \<longrightarrow> set l \<subseteq> set (filter (has_tag tag) (stored g)) \<and>
           (length (filter (has_tag tag) (stored g)) \<le> 1000 \<longrightarrow> set l = set (filter (has_tag tag) (stored g))))) \<and>
     (\<forall>i g r g'. gh_DELETE G (delete_url cfg i) g = (r, g') \<longrightarrow>
        stored g' = filter (\<lambda>a. api_ID a \<noteq> i) (stored g) \<or> ((\<forall>raw b. r \<noteq> Reply 200 raw b) \<and> stored g' = stored g)) \<and>
     (\<forall>a g r g'. gh_POST G (create_url cfg) a g = (r, g') \<longrightarrow>
        (\<exists>i. i \<notin> api_ID ` set (stored g) \<and> stored g' = stored g @ [a\<lparr>api_ID := i\<rparr>]) \<or>
        ((\<forall>raw b. r \<noteq> Reply 200 raw b) \<and> stored g' = stored g)) \<and>
     (\<forall>g. distinct (map api_ID (stored g)))"

section \<open>Replacing\<close>

definition strip_id :: "apiAnnotation \<Rightarrow> apiAnnotation" where
  "strip_id a = a\<lparr>api_ID := 0\<rparr>"

lemma strip_api_of [simp]: "strip_id ((api_of a)\<lparr>api_ID := i\<rparr>) = api_of a"
  by (simp add: strip_id_def api_of_def)

lemma delete_all_stored:
  assumes "grafana_ok G cfg stored" "delete_all G cfg l g = (r, g')"
  shows "\<exists>S. S \<subseteq> api_ID ` set l \<and> stored g' = filter (\<lambda>a. api_ID a \<notin> S) (stored g) \<and> (r = None \<longrightarrow> S = api_ID ` set l)"
  using assms(2)
proof (induction l arbitrary: g)
  case (Cons a l)
  obtain h g1 where d: "gh_DELETE G (delete_url cfg (api_ID a)) g = (h, g1)" by fastforce
  with assms(1) have step: "stored g1 = filter (\<lambda>x. api_ID x \<noteq> api_ID a) (stored g) \<or> ((\<forall>raw b. h \<noteq> Reply 200 raw b) \<and> stored g1 = stored g)"
    unfolding grafana_ok_def by blast
  show ?case
  proof (cases "\<exists>raw b. h = Reply 200 raw b")
    case True
    then have "delete_all G cfg l g1 = (r, g')" using Cons.prems d by (auto simp: delete_annotation_def)
    from Cons.IH[OF this] obtain S where S: "S \<subseteq> api_ID ` set l" "stored g' = filter (\<lambda>a. api_ID a \<notin> S) (stored g1)"
      "r = None \<longrightarrow> S = api_ID ` set l" by blast
    have "stored g1 = filter (\<lambda>x. api_ID x \<noteq> api_ID a) (stored g)" using step True by blast
    then have "stored g' = filter (\<lambda>x. api_ID x \<notin> insert (api_ID a) S) (stored g)"
      using S(2) by (auto intro: filter_cong)
    then show ?thesis using S by (intro exI[of _ "insert (api_ID a) S"]) auto
  next
    case False
    then have "r \<noteq> None" "g' = g1" using Cons.prems d by (auto simp: delete_annotation_def split: http_reply.splits if_splits)
    then show ?thesis using step
      by (elim disjE) (auto intro: exI[of _ "{api_ID a}"] exI[of _ "{}"])
  qed
qed (auto intro: exI[of _ "{}"])

lemma create_all_stored:
  assumes "grafana_ok G cfg stored" "create_all G cfg anns g = (r, g')"
  shows "\<exists>news n. stored g' = stored g @ news \<and> map strip_id news = map api_of (take n anns) \<and>
     (r = None \<longrightarrow> n = length anns)"
  using assms(2)
proof (induction anns arbitrary: g)
  case (Cons a anns)
  obtain h g1 where d: "gh_POST G (create_url cfg) (api_of a) g = (h, g1)" by fastforce
  with assms(1) have step: "(\<exists>i. stored g1 = stored g @ [(api_of a)\<lparr>api_ID := i\<rparr>]) \<or> ((\<forall>raw b. h \<noteq> Reply 200 raw b) \<and> stored g1 = stored g)"
    unfolding grafana_ok_def by blast
  show ?case
  proof (cases "\<exists>raw b. h = Reply 200 raw b")
    case True
    then have "create_all G cfg anns g1 = (r, g')" using Cons.prems d by (auto simp: create_annotation_def)
    from Cons.IH[OF this] obtain news n where n: "stored g' = stored g1 @ news"
      "map strip_id news = map api_of (take n anns)" "r = None \<longrightarrow> n = length anns" by blast
    obtain i where "stored g1 = stored g @ [(api_of a)\<lparr>api_ID := i\<rparr>]" using step True by blast
    with n show ?thesis
      by (intro exI[of _ "(api_of a)\<lparr>api_ID := i\<rparr> # news"] exI[of _ "Suc n"]) simp
  next
    case False
    then have r: "r \<noteq> None" "g' = g1"
      using Cons.prems d by (auto simp: create_annotation_def split: http_reply.splits if_splits)
    from step show ?thesis
    proof (elim disjE exE)
      fix i assume "stored g1 = stored g @ [(api_of a)\<lparr>api_ID := i\<rparr>]"
      with r show ?thesis by (intro exI[of _ "[(api_of a)\<lparr>api_ID := i\<rparr>]"] exI[of _ 1]) auto
    qed (use r in \<open>auto intro: exI[of _ "[]"] exI[of _ 0]\<close>)
  qed
qed simp

lemma has_tag_strip [simp]: "has_tag t (strip_id a) = has_tag t a"
  by (simp add: has_tag_def strip_id_def)

lemma filter_news_tagged:
  assumes "map strip_id news = map api_of anns" "\<forall>a \<in> set anns. AnomalyTag \<in> set (at_Tags a)"
  shows "filter (has_tag AnomalyTag) news = news"
proof -
  have "has_tag AnomalyTag a" if "a \<in> set news" for a
  proof -
    have "strip_id a \<in> api_of ` set anns" using that assms(1) by (metis image_eqI list.set_map)
    then have "has_tag AnomalyTag (strip_id a)" using assms(2) by (auto simp: has_tag_def api_of_def)
    then show ?thesis by simp
  qed
  then show ?thesis by (simp add: filter_id_conv)
qed

lemma filter_tag_none:
  assumes "distinct (map api_ID st)" "S \<subseteq> api_ID ` set (filter (has_tag t) st)"
  shows "filter (\<lambda>a. \<not> has_tag t a) (filter (\<lambda>a. api_ID a \<notin> S) st) = filter (\<lambda>a. \<not> has_tag t a) st"
proof -
  have "api_ID a \<notin> S" if "a \<in> set st" "\<not> has_tag t a" for a
    using that assms by (auto simp: distinct_map inj_on_def)
  then show ?thesis by (auto intro: filter_cong)
qed

lemma filter_tag_all:
  assumes "S = api_ID ` set (filter (has_tag t) st)"
  shows "filter (has_tag t) (filter (\<lambda>a. api_ID a \<notin> S) st) = []"
  using assms by (auto simp: filter_empty_conv)

text \<open>The replacement in its phases: nothing changed, or some tagged annotations deleted (all of them on success), or also new ones created.\<close>

lemma replace_phases:
  assumes "grafana_ok G cfg stored" "ReplaceAnomalyAnnotations G cfg anns g = (r, g')"
  obtains (unlisted) "r \<noteq> None" "stored g' = stored g"
  | (deleted) S where "r \<noteq> None" "S \<subseteq> api_ID ` set (filter (has_tag AnomalyTag) (stored g))"
      "stored g' = filter (\<lambda>a. api_ID a \<notin> S) (stored g)"
  | (created) S g2 where "create_all G cfg anns g2 = (r, g')" "S \<subseteq> api_ID ` set (filter (has_tag AnomalyTag) (stored g))"
      "stored g2 = filter (\<lambda>a. api_ID a \<notin> S) (stored g)"
      "length (filter (has_tag AnomalyTag) (stored g)) \<le> 1000 \<Longrightarrow> S = api_ID ` set (filter (has_tag AnomalyTag) (stored g))"
proof -
  obtain h g1 where l: "gh_GET G (list_url cfg AnomalyTag) g = (h, g1)" by fastforce
  with assms(1) have g1: "stored g1 = stored g" unfolding grafana_ok_def by blast
  show thesis
  proof (cases "\<exists>raw ex. h = Reply 200 raw (Some ex)")
    case False
    then have "r \<noteq> None" "g' = g1"
      using assms(2) l by (auto simp: ReplaceAnomalyAnnotations_def listByTag_def split: http_reply.splits option.splits if_splits)
    then show thesis using unlisted g1 by simp
  next
    case True
    then obtain raw ex where h: "h = Reply 200 raw (Some ex)" by blast
    have ex: "set ex \<subseteq> set (filter (has_tag AnomalyTag) (stored g))"
      "length (filter (has_tag AnomalyTag) (stored g)) \<le> 1000 \<longrightarrow> set ex = set (filter (has_tag AnomalyTag) (stored g))"
      using assms(1) l h unfolding grafana_ok_def by blast+
    obtain q g2 where d: "delete_all G cfg ex g1 = (q, g2)" by fastforce
    from delete_all_stored[OF assms(1) d] obtain S where S: "S \<subseteq> api_ID ` set ex"
      "stored g2 = filter (\<lambda>a. api_ID a \<notin> S) (stored g)" "q = None \<longrightarrow> S = api_ID ` set ex" using g1 by auto
    have sub: "S \<subseteq> api_ID ` set (filter (has_tag AnomalyTag) (stored g))" using S(1) ex(1) by blast
    have R: "(case q of Some e \<Rightarrow> (Some e, g2) | None \<Rightarrow> create_all G cfg anns g2) = (r, g')"
      using assms(2) l h d by (simp add: ReplaceAnomalyAnnotations_def listByTag_def split: option.splits)
    show thesis
    proof (cases q)
      case (Some e)
      then show thesis using R S(2) by (intro deleted[OF _ sub]) auto
    next
      case None
      then show thesis using R S(3) ex(2) by (intro created[OF _ sub S(2)]) simp_all
    qed
  qed
qed

text \<open>C24: replacing the annotations of an earlier seed run. Whatever happens on the way, an annotation without the
  seed tag is never touched; and when the client reports success (and the server held at most 1000 tagged
  annotations, the limit of the list request) the tagged annotations are exactly the new ones: none of the old
  ones is left and none of the new ones is doubled.\<close>
theorem ReplaceAnomalyAnnotations_replaces:
  assumes "grafana_ok G cfg stored" "\<forall>a \<in> set anns. AnomalyTag \<in> set (at_Tags a)"
    and "ReplaceAnomalyAnnotations G cfg anns g = (r, g')"
  shows "filter (\<lambda>a. \<not> has_tag AnomalyTag a) (stored g') = filter (\<lambda>a. \<not> has_tag AnomalyTag a) (stored g)
    \<and> (r = None \<and> length (filter (has_tag AnomalyTag) (stored g)) \<le> 1000 \<longrightarrow>
         map strip_id (filter (has_tag AnomalyTag) (stored g')) = map api_of anns)"
  using assms(1,3)
proof (cases rule: replace_phases)
  case (deleted S)
  have "distinct (map api_ID (stored g))" using assms(1) unfolding grafana_ok_def by blast
  from filter_tag_none[OF this] deleted show ?thesis by auto
next
  case (created S g2)
  have dist: "distinct (map api_ID (stored g))" using assms(1) unfolding grafana_ok_def by blast
  have keep: "filter (\<lambda>a. \<not> has_tag AnomalyTag a) (stored g2) = filter (\<lambda>a. \<not> has_tag AnomalyTag a) (stored g)"
    unfolding created(3) by (rule filter_tag_none[OF dist created(2)])
  from create_all_stored[OF assms(1) created(1)] obtain news n where n: "stored g' = stored g2 @ news"
    "map strip_id news = map api_of (take n anns)" "r = None \<longrightarrow> n = length anns" by blast
  have "\<forall>a \<in> set (take n anns). AnomalyTag \<in> set (at_Tags a)" using assms(2) by (meson in_set_takeD)
  then have new: "filter (has_tag AnomalyTag) news = news" by (rule filter_news_tagged[OF n(2)])
  then have "filter (\<lambda>a. \<not> has_tag AnomalyTag a) news = []" by (metis filter_empty_conv filter_id_conv)
  moreover have "filter (has_tag AnomalyTag) (stored g2) = []"
    if "length (filter (has_tag AnomalyTag) (stored g)) \<le> 1000"
    unfolding created(3) by (rule filter_tag_all[OF created(4)[OF that]])
  ultimately show ?thesis using n keep new by auto
qed auto

text \<open>A server in memory, for the witnesses: it stores what it was given under the next id.\<close>

definition mem_stored :: "apiAnnotation list \<Rightarrow> apiAnnotation list" where
  "mem_stored g = (if distinct (map api_ID g) then g else [])"

definition next_id :: "apiAnnotation list \<Rightarrow> int" where
  "next_id g = (if g = [] then 1 else Max (api_ID ` set g) + 1)"

definition mem_grafana :: "GrafanaConfig \<Rightarrow> apiAnnotation list grafana_http" where
  "mem_grafana cfg =
     \<lparr>gh_GET = (\<lambda>url g. (Reply 200 [] (Some (filter (\<lambda>a. \<exists>t \<in> set (api_Tags a). url = list_url cfg t) (mem_stored g))), g)),
      gh_DELETE = (\<lambda>url g. (Reply 200 [] (), filter (\<lambda>a. delete_url cfg (api_ID a) \<noteq> url) (mem_stored g))),
      gh_POST = (\<lambda>url a g. (Reply 200 [] (), mem_stored g @ [a\<lparr>api_ID := next_id (mem_stored g)\<rparr>]))\<rparr>"

lemma mem_stored_simps:
  "distinct (map api_ID (mem_stored g))"
  "mem_stored (filter Q (mem_stored g)) = filter Q (mem_stored g)"
  "i \<notin> api_ID ` set (mem_stored g) \<Longrightarrow> mem_stored (mem_stored g @ [a\<lparr>api_ID := i\<rparr>]) = mem_stored g @ [a\<lparr>api_ID := i\<rparr>]"
  by (auto simp: mem_stored_def distinct_map_filter)

lemma next_id_fresh: "next_id g \<notin> api_ID ` set g"
proof
  assume h: "next_id g \<in> api_ID ` set g"
  then have "g \<noteq> []" by auto
  then show False using Max_ge[OF _ h] h by (auto simp: next_id_def)
qed

lemma mem_grafana_ok: "grafana_ok (mem_grafana cfg) cfg mem_stored"
proof -
  have get: "filter (\<lambda>a. \<exists>t \<in> set (api_Tags a). list_url cfg tag = list_url cfg t) st = filter (has_tag tag) st" for tag st
    by (rule filter_cong) (auto simp: list_url_def has_tag_def)
  have del: "filter (\<lambda>a. delete_url cfg (api_ID a) \<noteq> delete_url cfg i) st = filter (\<lambda>a. api_ID a \<noteq> i) st" for i st
    by (rule filter_cong) (auto simp: delete_url_def dest: itoa_inj)
  have post: "\<exists>i. i \<notin> api_ID ` set (mem_stored g) \<and>
      mem_stored (mem_stored g @ [a\<lparr>api_ID := next_id (mem_stored g)\<rparr>]) = mem_stored g @ [a\<lparr>api_ID := i\<rparr>]" for g a
    by (rule exI[of _ "next_id (mem_stored g)"]) (rule conjI[OF next_id_fresh mem_stored_simps(3)[OF next_id_fresh]])
  show ?thesis
    unfolding grafana_ok_def
  proof (intro conjI allI impI)
    fix a g r g' assume "gh_POST (mem_grafana cfg) (create_url cfg) a g = (r, g')"
    then have "g' = mem_stored g @ [a\<lparr>api_ID := next_id (mem_stored g)\<rparr>]" by (simp add: mem_grafana_def)
    with post[of g a] show "(\<exists>i. i \<notin> api_ID ` set (mem_stored g) \<and> mem_stored g' = mem_stored g @ [a\<lparr>api_ID := i\<rparr>]) \<or>
        ((\<forall>raw b. r \<noteq> Reply 200 raw b) \<and> mem_stored g' = mem_stored g)" by blast
  qed (auto simp: mem_grafana_def get del mem_stored_simps(2) mem_stored_simps(1))
qed

lemma mem_grafana_succeeds: "fst (ReplaceAnomalyAnnotations (mem_grafana cfg) cfg anns g) = None"
proof -
  have "fst (delete_all (mem_grafana cfg) cfg l g) = None" for l g
    by (induction l arbitrary: g) (simp_all add: delete_annotation_def mem_grafana_def)
  moreover have "fst (create_all (mem_grafana cfg) cfg anns g) = None" for g
    by (induction anns arbitrary: g) (simp_all add: create_annotation_def mem_grafana_def)
  moreover obtain ex where "listByTag (mem_grafana cfg) cfg AnomalyTag g = (Inr ex, g)"
    by (simp add: listByTag_def mem_grafana_def)
  moreover obtain q g2 where "delete_all (mem_grafana cfg) cfg ex g = (q, g2)" by fastforce
  ultimately show ?thesis
    unfolding ReplaceAnomalyAnnotations_def by (metis (no_types, lifting) fst_conv old.prod.case option.simps(4) sum.case(2))
qed

definition sample_gcfg :: GrafanaConfig where
  "sample_gcfg = GrafanaConfigFromEnv (\<lambda>_. [])"

theorem ReplaceAnomalyAnnotations_replaces_witness:
  "\<exists>g'. ReplaceAnomalyAnnotations (mem_grafana sample_gcfg) sample_gcfg
       [\<lparr>at_TimeUnixMilli = 5, at_TimeEndUnixMilli = 9, at_Tags = [AnomalyTag, ''spike''], at_Text = ''new''\<rparr>]
       [\<lparr>api_ID = 1, api_Time = 2, api_TimeEnd = 3, api_Tags = [AnomalyTag], api_Text = ''old''\<rparr>] = (None, g')
     \<and> map api_Text (filter (has_tag AnomalyTag) (mem_stored g')) = [''new'']"
proof -
  let ?anns = "[\<lparr>at_TimeUnixMilli = 5, at_TimeEndUnixMilli = 9, at_Tags = [AnomalyTag, ''spike''], at_Text = ''new''\<rparr>]"
  let ?g = "[\<lparr>api_ID = 1, api_Time = 2, api_TimeEnd = 3, api_Tags = [AnomalyTag], api_Text = ''old''\<rparr>]"
  obtain r g' where run: "ReplaceAnomalyAnnotations (mem_grafana sample_gcfg) sample_gcfg ?anns ?g = (r, g')" by fastforce
  have r: "r = None" using mem_grafana_succeeds[of sample_gcfg ?anns ?g] run by simp
  have t: "\<forall>a \<in> set ?anns. AnomalyTag \<in> set (at_Tags a)" by simp
  have len: "length (filter (has_tag AnomalyTag) (mem_stored ?g)) \<le> 1000" by (simp add: mem_stored_def)
  have eq: "map strip_id (filter (has_tag AnomalyTag) (mem_stored g')) = map api_of ?anns"
    using ReplaceAnomalyAnnotations_replaces[OF mem_grafana_ok t run] r len by blast
  have "map api_Text (map strip_id l) = map api_Text l" for l by (induction l) (simp_all add: strip_id_def)
  then have "map api_Text (filter (has_tag AnomalyTag) (mem_stored g')) = map api_Text (map api_of ?anns)"
    unfolding eq[symmetric] by (rule sym)
  also have "\<dots> = [''new'']" by (simp add: api_of_def)
  finally have fin: "map api_Text (filter (has_tag AnomalyTag) (mem_stored g')) = [''new'']" .
  show ?thesis by (rule exI[of _ g'], rule conjI[OF run[unfolded r] fin])
qed

section \<open>What the annotations mark\<close>

lemma milli_start:
  assumes "0 \<le> t" "t \<le> 2 ^ 41" "s \<le> of_int t \<or> of_int t + 1 / 512 \<le> s" "0 \<le> s" "s \<le> 2 ^ 42"
  shows "float_to_int64 (fmul s 1000) \<le> t * 1000 \<longleftrightarrow> s \<le> of_int t"
proof -
  have f: "fl (of_int (t * 1000)) = of_int (t * 1000)" using assms(1,2) by (intro fl_of_int) simp
  have conv: "float_to_int64 (fmul s 1000) = \<lfloor>fl (s * 1000)\<rfloor>"
  proof -
    have "fl (s * 1000) \<le> fl (of_int (2 ^ 42 * 1000))" using assms(5) by (intro fl_mono) simp
    also have "\<dots> = of_int (2 ^ 42 * 1000)" by (rule fl_of_int) simp
    finally have "\<lfloor>fl (s * 1000)\<rfloor> \<le> 2 ^ 42 * 1000" by (simp add: floor_le_iff)
    moreover have "0 \<le> fl (s * 1000)" using assms(4) by (intro fl_nonneg) simp
    ultimately show ?thesis by (simp add: float_to_int64_def in_int64_def fmul_def)
  qed
  show ?thesis
  proof
    assume "s \<le> of_int t"
    then have "fl (s * 1000) \<le> fl (of_int (t * 1000))" by (intro fl_mono) simp
    then show "float_to_int64 (fmul s 1000) \<le> t * 1000" unfolding conv f by (simp add: floor_le_iff)
  next
    assume le: "float_to_int64 (fmul s 1000) \<le> t * 1000"
    have "of_int (t * 1000 + 1) \<le> fl (s * 1000)" if "of_int t + 1 / 512 \<le> s"
    proof -
      have "fl (of_int (t * 1000 + 1)) \<le> fl (s * 1000)" using that by (intro fl_mono) simp
      moreover have "fl (of_int (t * 1000 + 1)) = of_int (t * 1000 + 1)" using assms(1,2) by (intro fl_of_int) simp
      ultimately show ?thesis by simp
    qed
    then have "\<not> of_int t + 1 / 512 \<le> s" using le unfolding conv by (auto simp: floor_le_iff)
    then show "s \<le> of_int t" using assms(3) by blast
  qed
qed

lemma milli_end:
  assumes "0 \<le> t" "t \<le> 2 ^ 41" "of_int t \<le> s \<or> s \<le> of_int t - 1 / 512" "0 \<le> s" "s \<le> 2 ^ 42"
  shows "t * 1000 \<le> float_to_int64 (fmul s 1000) \<longleftrightarrow> of_int t \<le> s"
proof -
  have f: "fl (of_int (t * 1000)) = of_int (t * 1000)" using assms(1,2) by (intro fl_of_int) simp
  have conv: "float_to_int64 (fmul s 1000) = \<lfloor>fl (s * 1000)\<rfloor>"
  proof -
    have "fl (s * 1000) \<le> fl (of_int (2 ^ 42 * 1000))" using assms(5) by (intro fl_mono) simp
    also have "\<dots> = of_int (2 ^ 42 * 1000)" by (rule fl_of_int) simp
    finally have "\<lfloor>fl (s * 1000)\<rfloor> \<le> 2 ^ 42 * 1000" by (simp add: floor_le_iff)
    moreover have "0 \<le> fl (s * 1000)" using assms(4) by (intro fl_nonneg) simp
    ultimately show ?thesis by (simp add: float_to_int64_def in_int64_def fmul_def)
  qed
  show ?thesis
  proof
    assume "of_int t \<le> s"
    then have "fl (of_int (t * 1000)) \<le> fl (s * 1000)" by (intro fl_mono) simp
    then show "t * 1000 \<le> float_to_int64 (fmul s 1000)" unfolding conv f by (simp add: le_floor_iff)
  next
    assume le: "t * 1000 \<le> float_to_int64 (fmul s 1000)"
    have "fl (s * 1000) \<le> of_int (t * 1000 - 1)" if "s \<le> of_int t - 1 / 512"
    proof -
      have "fl (s * 1000) \<le> fl (of_int (t * 1000 - 1))" using that by (intro fl_mono) simp
      moreover have "fl (of_int (t * 1000 - 1)) = of_int (t * 1000 - 1)" using assms(1,2) by (intro fl_of_int) simp
      ultimately show ?thesis by simp
    qed
    then have "\<not> s \<le> of_int t - 1 / 512" using le unfolding conv by (auto simp: le_floor_iff)
    then show "of_int t \<le> s" using assms(3) by blast
  qed
qed

lemma window_bounds:
  assumes "0 \<le> ref" "ref \<le> 2 ^ 40" "\<bar>Y\<bar> \<le> 2 ^ 41" "- ref \<le> Y" "1 \<le> k"
  shows "0 \<le> fl (of_int ref + fl (of_int Y / of_int k))" "fl (of_int ref + fl (of_int Y / of_int k)) \<le> 2 ^ 42"
proof -
  have k: "(1::real) \<le> of_int k" using assms(5) by simp
  have lo: "- of_int ref \<le> of_int Y / (of_int k :: real)"
  proof -
    have "- of_int ref * of_int k \<le> - of_int ref * (1::real)" using k assms(1) by (intro mult_left_mono_neg) simp_all
    also have "\<dots> \<le> of_int Y" using assms(4) by (simp flip: of_int_minus)
    finally show ?thesis using k by (simp add: le_divide_eq)
  qed
  have up: "of_int Y / of_int k \<le> (2 ^ 41 :: real)"
  proof -
    have "real_of_int Y \<le> 2 ^ 41" using assms(3) by (metis abs_le_D1 of_int_le_iff of_int_numeral of_int_power)
    also have "\<dots> \<le> 2 ^ 41 * of_int k" using k by simp
    finally show ?thesis using k by (simp add: divide_le_eq)
  qed
  have "fl (of_int (- ref)) \<le> fl (of_int Y / of_int k)" using lo by (intro fl_mono) simp
  then have "- of_int ref \<le> fl (of_int Y / of_int k)" using fl_of_int[of "- ref"] assms(1,2) by simp
  then show "0 \<le> fl (of_int ref + fl (of_int Y / of_int k))" by (intro fl_nonneg) linarith
  have "fl (of_int Y / of_int k) \<le> fl (2 ^ 41)" using up by (rule fl_mono)
  then have "fl (of_int Y / of_int k) \<le> 2 ^ 41" by (simp only: fl_pow)
  moreover have "real_of_int ref \<le> 2 ^ 40" using assms(2) by (metis of_int_le_iff of_int_numeral of_int_power)
  ultimately have "of_int ref + fl (of_int Y / of_int k) \<le> (2 ^ 42 :: real)" by simp
  then have "fl (of_int ref + fl (of_int Y / of_int k)) \<le> fl (2 ^ 42)" by (rule fl_mono)
  then show "fl (of_int ref + fl (of_int Y / of_int k)) \<le> 2 ^ 42" by (simp only: fl_pow)
qed

lemma fl_gap_below:
  assumes "\<bar>r\<bar> \<le> 2 ^ 40" "\<bar>X\<bar> \<le> 2 ^ 41" "0 < k" "k \<le> 2 ^ 8" "X < (t - r) * k"
  shows "fl (of_int r + fl (of_int X / of_int k)) \<le> of_int t - 1 / 512"
proof -
  have "(- t - - r) * k < - X" using assms(5) by (simp add: algebra_simps)
  then have "of_int (- t) + 1 / 512 \<le> fl (of_int (- r) + fl (of_int (- X) / of_int k))"
    using assms by (intro fl_gap) simp_all
  moreover have "fl (of_int (- r) + fl (of_int (- X) / of_int k)) = - fl (of_int r + fl (of_int X / of_int k))"
    using fl_minus[of "of_int X / of_int k"] fl_minus[of "of_int r + fl (of_int X / of_int k)"] by simp
  ultimately show ?thesis by simp
qed

text \<open>C22: the annotations mark what was seeded. For a whole-second anomaly in a plausible range and a whole time scale up to
  256, the i-th annotation, read in milliseconds, contains exactly those whole seconds at which the rate
  function has the i-th anomaly active, although start and end are computed in binary64 and cut to
  milliseconds.\<close>
theorem ComputeAnnotations_mark_rate:
  assumes "i < length (pr_Anomalies p)" "a = pr_Anomalies p ! i" "time_Unix refTime = ref"
    and "0 \<le> ref" "ref \<le> 2 ^ 40" "0 \<le> t" "t \<le> 2 ^ 41" "0 < k" "k \<le> 2 ^ 8"
    and "fmul (an_OffsetDays a) secondsPerDay = of_int X" "\<bar>X\<bar> \<le> ref"
    and "fmul (an_DurationHours a) secondsPerHour = of_int L" "0 \<le> L" "L \<le> 2 ^ 40"
  shows "length (ComputeAnnotations fmt2 p refTime (of_int k)) = length (pr_Anomalies p)
    \<and> (at_TimeUnixMilli (ComputeAnnotations fmt2 p refTime (of_int k) ! i) \<le> t * 1000
       \<and> t * 1000 \<le> at_TimeEndUnixMilli (ComputeAnnotations fmt2 p refTime (of_int k) ! i)
       \<longleftrightarrow> anomaly_active a (profile_time (of_int t) (of_int ref) (of_int k)) (of_int ref))
    \<and> AnomalyTag \<in> set (at_Tags (ComputeAnnotations fmt2 p refTime (of_int k) ! i))"
proof -
  let ?s = "fl (of_int ref + fl (of_int X / of_int k))" and ?e = "fl (of_int ref + fl (of_int (X + L) / of_int k))"
  have b: "\<bar>ref\<bar> \<le> 2 ^ 40" "\<bar>X\<bar> \<le> 2 ^ 40" "\<bar>t\<bar> \<le> 2 ^ 41" "\<bar>X\<bar> \<le> 2 ^ 41" "\<bar>X + L\<bar> \<le> 2 ^ 41" "1 \<le> k"
    using assms by simp_all
  have w: "AnomalyRealWindow a (of_int ref) (of_int k) = (?s, ?e)"
    by (rule AnomalyRealWindow_int(3)[OF b(1) assms(10) b(2) assms(12-14)])
  have ann: "ComputeAnnotations fmt2 p refTime (of_int k) ! i = annotation_of fmt2 (of_int ref) (of_int k) a"
    using assms(1-5) fl_of_int[of ref] by (simp add: ComputeAnnotations_def Let_def)
  have gs: "?s \<le> of_int t \<or> of_int t + 1 / 512 \<le> ?s"
    using fl_gap[OF b(1,4) assms(8,9), of t] fl_le_int_iff[OF b(1,4,3) assms(8,9)] by linarith
  have ge: "of_int t \<le> ?e \<or> ?e \<le> of_int t - 1 / 512"
    using fl_gap_below[OF b(1,5) assms(8,9), of t] int_le_fl_iff[OF b(1,5,3) assms(8,9)] by linarith
  have ms: "float_to_int64 (fmul ?s 1000) \<le> t * 1000 \<longleftrightarrow> ?s \<le> of_int t"
    by (rule milli_start[OF assms(6,7) gs]) (rule window_bounds; use assms b in simp)+
  have me: "t * 1000 \<le> float_to_int64 (fmul ?e 1000) \<longleftrightarrow> of_int t \<le> ?e"
    by (rule milli_end[OF assms(6,7) ge]) (rule window_bounds; use assms b in simp)+
  have "?s \<le> of_int t \<and> of_int t \<le> ?e \<longleftrightarrow> anomaly_active a (profile_time (of_int t) (of_int ref) (of_int k)) (of_int ref)"
    by (rule AnomalyRealWindow_iff[OF b(1,3) assms(8,9,10) b(2) assms(12-14) w])
  moreover have "length (ComputeAnnotations fmt2 p refTime (of_int k)) = length (pr_Anomalies p)"
    by (simp add: ComputeAnnotations_def Let_def)
  ultimately show ?thesis using ms me by (simp add: ann annotation_of_def w)
qed

theorem ComputeAnnotations_mark_rate_witness:
  "at_TimeUnixMilli (ComputeAnnotations (\<lambda>_. ''0.00'') sample_profile (1750000000 * Second) (of_int 24) ! 0) \<le> (1750000000 - 6 * 3600) * 1000"
proof -
  have off: "fmul (an_OffsetDays sample_anomaly) secondsPerDay = of_int (- 518400)"
    using fl_of_int[of "- 518400"] by (simp add: fmul_def sample_anomaly_def secondsPerDay_def)
  have dur: "fmul (an_DurationHours sample_anomaly) secondsPerHour = of_int 14400"
    using fl_of_int[of 14400] by (simp add: fmul_def sample_anomaly_def secondsPerHour_def)
  have act: "anomaly_active sample_anomaly (profile_time (of_int (1750000000 - 6 * 3600)) (of_int 1750000000) (of_int 24)) (of_int 1750000000)"
    by (simp add: anomaly_active_def anomaly_start_def anomaly_end_def profile_time_def sample_anomaly_def
        secondsPerDay_def secondsPerHour_def flops)
  have p: "0 < length (pr_Anomalies sample_profile)" "sample_anomaly = pr_Anomalies sample_profile ! 0"
    by (simp_all add: sample_profile_def)
  have u: "time_Unix (1750000000 * Second) = 1750000000" by (simp add: time_Unix_def Second_def)
  from ComputeAnnotations_mark_rate[OF p u _ _ _ _ _ _ off _ dur, of "1750000000 - 6 * 3600" 24 "\<lambda>_. ''0.00''"] act
  show ?thesis by simp
qed

end
