(* ===== verification/Httpserver.thy ===== *)
theory Httpserver
  imports Store_Machine Go_Stdlib
begin

text \<open>
  \<^verbatim>\<open>internal/httpserver\<close>: the routes and the handlers. A request is a method and the decoded segments of a clean
  path; \<^verbatim>\<open>net/http\<close>'s \<^verbatim>\<open>ServeMux\<close> is modelled for the six registered patterns (a pattern with
  \<^verbatim>\<open>GET\<close> also matches \<^verbatim>\<open>HEAD\<close>, another method on such a path is answered 405, an unregistered path 404, and a
  single wildcard matches one non-empty segment; the text of its own 404 and 405 answers is left out). A JSON body is the
  value that is encoded; \<^verbatim>\<open>encoding/json\<close> refuses a time whose year is not between 0 and 9999 (the process runs in
  UTC), and then nothing is written after the header. The Prometheus
  handler of \<^verbatim>\<open>/metrics\<close> and the tracing middleware are left out of the response.

  The locale \<open>items_store\<close> is the read interface the handlers use, interpreted on the store.
\<close>

section \<open>Definitions\<close>

record request =
  rq_method :: string
  rq_path :: "string list"

record itemResponse =
  ir_ItemID :: int
  ir_Name :: string
  ir_FirstSeen :: go_time
  ir_LastSeen :: go_time
  ir_Tombstoned :: bool

record statEntry =
  se_EventType :: string
  se_Count :: int

record seedMarkerResponse =
  sr_Scale :: real
  sr_RefUnix :: int
  sr_Seed :: int
  sr_Days :: int
  sr_SeededAt :: go_time
  sr_EventsWritten :: int

datatype body = NoBody | ItemBody itemResponse | StatsBody "statEntry list" | MarkerBody seedMarkerResponse | MetricsPage

record response =
  rs_status :: int
  rs_body :: body

text \<open>The interface of the handlers to the store.\<close>

record 's ItemsStore =
  is_GetCurrentItem :: "int \<Rightarrow> 's \<Rightarrow> store_error + CurrentItem option"
  is_StatsLast24h :: "'s \<Rightarrow> store_error + BucketStat list"
  is_GetSeedMarker :: "'s \<Rightarrow> store_error + SeedMarker option"

text \<open>\<^verbatim>\<open>time.Time.MarshalJSON\<close>: 0000-01-01 and 10000-01-01 in seconds since 1970.\<close>

definition json_time_ok :: "go_time \<Rightarrow> bool" where
  "json_time_ok t \<longleftrightarrow> - 62167219200 * Second \<le> t \<and> t < 253402300800 * Second"

fun encodable :: "body \<Rightarrow> bool" where
  "encodable (ItemBody r) = (json_time_ok (ir_FirstSeen r) \<and> json_time_ok (ir_LastSeen r))"
| "encodable (MarkerBody r) = json_time_ok (sr_SeededAt r)"
| "encodable b = True"

text \<open>The header is sent before the body is encoded, and the error of the encoder is dropped.\<close>

definition writeJSON :: "int \<Rightarrow> body \<Rightarrow> response" where
  "writeJSON status b = \<lparr>rs_status = status, rs_body = (if encodable b then b else NoBody)\<rparr>"

definition WriteHeader :: "int \<Rightarrow> response" where
  "WriteHeader status = \<lparr>rs_status = status, rs_body = NoBody\<rparr>"

definition handleHealthz :: response where
  "handleHealthz = WriteHeader 200"

text \<open>The readiness handler also sets the gauge \<^verbatim>\<open>analytics_db_up\<close>.\<close>

definition handleReadyz :: "bool \<Rightarrow> response \<times> int" where
  "handleReadyz pingOk = (if \<not> pingOk then (WriteHeader 503, 0) else (WriteHeader 200, 1))"

definition handleGetItem :: "'s ItemsStore \<Rightarrow> string \<Rightarrow> 's \<Rightarrow> response" where
  "handleGetItem I item_id s =
     (case ParseInt64 item_id of
        None \<Rightarrow> WriteHeader 400
      | Some itemID \<Rightarrow>
          (case is_GetCurrentItem I itemID s of
             Inl _ \<Rightarrow> WriteHeader 500
           | Inr None \<Rightarrow> WriteHeader 404
           | Inr (Some item) \<Rightarrow>
               writeJSON 200 (ItemBody \<lparr>ir_ItemID = it_ItemID item, ir_Name = it_Name item,
                 ir_FirstSeen = it_FirstSeen item, ir_LastSeen = it_LastSeen item,
                 ir_Tombstoned = it_Tombstoned item\<rparr>)))"

definition handleStats :: "'s ItemsStore \<Rightarrow> 's \<Rightarrow> response" where
  "handleStats I s =
     (case is_StatsLast24h I s of
        Inl _ \<Rightarrow> WriteHeader 500
      | Inr stats \<Rightarrow>
          writeJSON 200 (StatsBody (map (\<lambda>stat. \<lparr>se_EventType = st_EventType stat, se_Count = st_Count stat\<rparr>) stats)))"

definition handleSeedMarker :: "'s ItemsStore \<Rightarrow> 's \<Rightarrow> response" where
  "handleSeedMarker I s =
     (case is_GetSeedMarker I s of
        Inl _ \<Rightarrow> WriteHeader 500
      | Inr None \<Rightarrow> WriteHeader 404
      | Inr (Some marker) \<Rightarrow>
          writeJSON 200 (MarkerBody \<lparr>sr_Scale = mk_Scale marker, sr_RefUnix = mk_RefUnix marker,
            sr_Seed = mk_Seed marker, sr_Days = mk_Days marker, sr_SeededAt = mk_SeededAt marker,
            sr_EventsWritten = mk_EventsWritten marker\<rparr>))"

definition is_get :: "string \<Rightarrow> bool" where
  "is_get m \<longleftrightarrow> m = ''GET'' \<or> m = ''HEAD''"

definition get_only :: "string \<Rightarrow> response \<Rightarrow> response" where
  "get_only m r = (if is_get m then r else WriteHeader 405)"

definition ServeHTTP :: "'s ItemsStore \<Rightarrow> bool \<Rightarrow> request \<Rightarrow> 's \<Rightarrow> int \<Rightarrow> response \<times> int" where
  "ServeHTTP I pingOk rq s dbUp =
     (let m = rq_method rq; p = rq_path rq in
      if p = [''healthz''] then (handleHealthz, dbUp)
      else if p = [''readyz''] then handleReadyz pingOk
      else if p = [''metrics''] then (\<lparr>rs_status = 200, rs_body = MetricsPage\<rparr>, dbUp)
      else if length p = 4 \<and> take 3 p = [''api'', ''v1'', ''items''] \<and> p ! 3 \<noteq> []
        then (get_only m (handleGetItem I (p ! 3) s), dbUp)
      else if p = [''api'', ''v1'', ''stats''] then (get_only m (handleStats I s), dbUp)
      else if p = [''api'', ''v1'', ''seed-marker''] then (get_only m (handleSeedMarker I s), dbUp)
      else (WriteHeader 404, dbUp))"

text \<open>Which requests get a span (\<^verbatim>\<open>otelhttp.WithFilter\<close>).\<close>

definition traced :: "request \<Rightarrow> bool" where
  "traced rq \<longleftrightarrow> rq_path rq \<noteq> [''healthz''] \<and> rq_path rq \<noteq> [''readyz''] \<and> rq_path rq \<noteq> [''metrics'']"

section \<open>The interface\<close>

text \<open>What a store promises to the handlers: a read that succeeds returns the state, and the items and the marker are
  keyed.\<close>

locale items_store =
  fixes I :: "'s ItemsStore" and known :: "int \<Rightarrow> 's \<Rightarrow> CurrentItem option"
  assumes get_ok: "is_GetCurrentItem I i s = Inr r \<Longrightarrow> r = known i s"
    and known_id: "known i s = Some it \<Longrightarrow> it_ItemID it = i"
begin

lemma get_item_status:
  assumes "in_int64 i"
  shows "handleGetItem I (itoa i) s =
     (case is_GetCurrentItem I i s of
        Inl _ \<Rightarrow> WriteHeader 500
      | Inr _ \<Rightarrow> (case known i s of
          None \<Rightarrow> WriteHeader 404
        | Some it \<Rightarrow> writeJSON 200 (ItemBody \<lparr>ir_ItemID = i, ir_Name = it_Name it, ir_FirstSeen = it_FirstSeen it,
            ir_LastSeen = it_LastSeen it, ir_Tombstoned = it_Tombstoned it\<rparr>)))"
  by (auto simp: handleGetItem_def ParseInt64_itoa[OF assms] known_id split: sum.split option.split dest: get_ok)

end

text \<open>The store provides the interface; every read may fail.\<close>

definition store_items :: "pgx \<Rightarrow> faults \<Rightarrow> pg_time \<Rightarrow> db ItemsStore" where
  "store_items P f now = \<lparr>is_GetCurrentItem = GetCurrentItem P f, is_StatsLast24h = StatsLast24h f now,
     is_GetSeedMarker = GetSeedMarker P f\<rparr>"

lemma store_items_sel [simp]:
  "is_GetCurrentItem (store_items P f now) = GetCurrentItem P f"
  "is_StatsLast24h (store_items P f now) = StatsLast24h f now"
  "is_GetSeedMarker (store_items P f now) = GetSeedMarker P f"
  by (simp_all add: store_items_def)

definition known_item :: "pgx \<Rightarrow> int \<Rightarrow> db \<Rightarrow> CurrentItem option" where
  "known_item P i db = map_option (\<lambda>r. \<lparr>it_ItemID = ci_id r, it_Name = ci_name r,
     it_FirstSeen = pg_dec P (ci_first r), it_LastSeen = pg_dec P (ci_last r),
     it_Tombstoned = (ci_tomb r \<noteq> None)\<rparr>) (lookup ci_id (current_items db) i)"

interpretation store_http: items_store "store_items P f now" "known_item P" for P f now
proof unfold_locales
  show "r = known_item P i s" if "is_GetCurrentItem (store_items P f now) i s = Inr r" for i s r
    using that by (auto simp: known_item_def GetCurrentItem_def split: option.splits if_splits)
  show "it_ItemID it = i" if "known_item P i s = Some it" for i s it
    using that by (auto simp: known_item_def dest!: lookup_SomeD)
qed

section \<open>Properties\<close>

text \<open>C33: the item endpoint over the real store. For every 64-bit id, GET with the id in decimal is answered 200 with that item
  exactly when the id has ever been seen by ingestion or reconcile, flagged as tombstoned exactly when its
  row is; 404 exactly when it never was; 500 exactly when the database fails. An item one of whose times has a year that
  JSON cannot carry is answered 200 with an empty body. A path that is not a 64-bit
  decimal is answered 400 without touching the database.\<close>
theorem http_get_item:
  "(in_int64 i \<longrightarrow>
     (f 0 \<noteq> Done \<longrightarrow> rs_status (handleGetItem (store_items P f now) (itoa i) db) = 500)
     \<and> (f 0 = Done \<longrightarrow>
        (case lookup ci_id (current_items db) i of
           None \<Rightarrow> handleGetItem (store_items P f now) (itoa i) db = WriteHeader 404
         | Some r \<Rightarrow> handleGetItem (store_items P f now) (itoa i) db = \<lparr>rs_status = 200, rs_body =
             (if json_time_ok (pg_dec P (ci_first r)) \<and> json_time_ok (pg_dec P (ci_last r))
              then ItemBody \<lparr>ir_ItemID = i, ir_Name = ci_name r, ir_FirstSeen = pg_dec P (ci_first r),
                ir_LastSeen = pg_dec P (ci_last r), ir_Tombstoned = (ci_tomb r \<noteq> None)\<rparr>
              else NoBody)\<rparr>)))
   \<and> (ParseInt64 seg = None \<longrightarrow> handleGetItem (store_items P f now) seg db = WriteHeader 400)"
proof -
  have "rs_status (handleGetItem (store_items P f now) (itoa i) db) = 500" if "in_int64 i" "f 0 \<noteq> Done"
    using that by (simp add: store_http.get_item_status GetCurrentItem_def WriteHeader_def)
  moreover have "case lookup ci_id (current_items db) i of
           None \<Rightarrow> handleGetItem (store_items P f now) (itoa i) db = WriteHeader 404
         | Some r \<Rightarrow> handleGetItem (store_items P f now) (itoa i) db = \<lparr>rs_status = 200, rs_body =
             (if json_time_ok (pg_dec P (ci_first r)) \<and> json_time_ok (pg_dec P (ci_last r))
              then ItemBody \<lparr>ir_ItemID = i, ir_Name = ci_name r, ir_FirstSeen = pg_dec P (ci_first r),
                ir_LastSeen = pg_dec P (ci_last r), ir_Tombstoned = (ci_tomb r \<noteq> None)\<rparr>
              else NoBody)\<rparr>" if "in_int64 i" "f 0 = Done"
    using that
    by (auto simp: store_http.get_item_status known_item_def GetCurrentItem_def writeJSON_def split: option.split)
  ultimately show ?thesis by (simp add: handleGetItem_def)
qed

theorem http_get_item_witness:
  "handleGetItem (store_items pgx_us no_faults 0) (itoa 5) empty_db = WriteHeader 404
   \<and> handleGetItem (store_items pgx_us no_faults 0) ''abc'' empty_db = WriteHeader 400"
proof -
  have i: "in_int64 5" by (simp add: in_int64_def)
  have s: "ParseInt64 ''abc'' = None"
    by (simp add: ParseInt64_def parse_uint_def is_digit_def)
  show ?thesis using http_get_item[of 5 no_faults pgx_us 0 empty_db "''abc''"] i s by (simp add: empty_db_def)
qed

text \<open>Readiness is the database and nothing else: the probe is answered 200 exactly when the ping succeeds, the
  gauge mirrors the last probe, no other request moves the gauge, and liveness is always 200.\<close>
theorem http_readiness:
  "(rs_status (fst (ServeHTTP I pingOk \<lparr>rq_method = m, rq_path = [''readyz'']\<rparr> s up)) = 200 \<longleftrightarrow> pingOk)
   \<and> snd (ServeHTTP I pingOk \<lparr>rq_method = m, rq_path = [''readyz'']\<rparr> s up) = (if pingOk then 1 else 0)
   \<and> (rq_path rq \<noteq> [''readyz''] \<longrightarrow> snd (ServeHTTP I pingOk rq s up) = up)
   \<and> rs_status (fst (ServeHTTP I pingOk \<lparr>rq_method = m, rq_path = [''healthz'']\<rparr> s up)) = 200"
  by (auto simp: ServeHTTP_def handleReadyz_def handleHealthz_def WriteHeader_def Let_def)

theorem http_readiness_witness:
  "snd (ServeHTTP (store_items pgx_us no_faults 0) False \<lparr>rq_method = ''GET'', rq_path = [''healthz'']\<rparr> empty_db 1) = 1"
  using http_readiness[of "store_items pgx_us no_faults 0" False "''GET''" empty_db 1 "\<lparr>rq_method = ''GET'', rq_path = [''healthz'']\<rparr>"]
  by simp

lemma scan_rows_Inr: "scan_rows f i rows = Inr out \<Longrightarrow> out = rows"
  by (induction rows arbitrary: i out) (auto split: if_splits sum.splits)

lemma scan_rows_no_faults: "scan_rows no_faults i rows = Inr rows"
  by (induction rows arbitrary: i) simp_all

lemma map_sort_key_sort: "map h (sort_key h xs) = sort (map h xs)"
proof (induction xs)
  case (Cons x xs)
  have "map h (insort_key h x ys) = insort (h x) (map h ys)" for ys by (induction ys) simp_all
  with Cons show ?case by simp
qed simp

lemma stats_rows_types:
  "map st_EventType (stats_rows now bs) = sort (remdups (map b_type (filter (\<lambda>b. b_start b \<ge> now - 24 * hour_us) bs)))"
proof -
  let ?g = "group_by b_type (filter (\<lambda>b. b_start b \<ge> now - 24 * hour_us) bs)"
  have "map st_EventType (stats_rows now bs) = map fst (sort_key fst ?g)"
    by (simp add: stats_rows_def Let_def case_prod_beta comp_def)
  also have "\<dots> = sort (map fst ?g)" by (rule map_sort_key_sort)
  finally show ?thesis by (simp add: group_by_def comp_def)
qed

lemma stats_rows_count:
  assumes "r \<in> set (stats_rows now bs)"
  shows "st_Count r = (\<Sum>b\<leftarrow>filter (\<lambda>b. b_start b \<ge> now - 24 * hour_us \<and> b_type b = st_EventType r) bs. b_count b)"
  using assms by (auto simp: stats_rows_def Let_def group_by_def conj_commute)

text \<open>C34: the statistics endpoint over the real store. When it answers 200 there is one entry per event type that has an hourly
  bucket starting within the last 24 hours, in strictly increasing order of the type, and its count is the sum
  of those buckets, no more and no less; it fails with 500 exactly when the query fails, and never otherwise.\<close>
theorem http_stats_totals:
  "(\<exists>es. handleStats (store_items P f now) db = writeJSON 200 (StatsBody es)
      \<and> sorted (map se_EventType es) \<and> distinct (map se_EventType es)
      \<and> set (map se_EventType es) = b_type ` {b \<in> set (event_buckets db). b_start b \<ge> now - 24 * hour_us}
      \<and> (\<forall>e \<in> set es. se_Count e =
           (\<Sum>b\<leftarrow>filter (\<lambda>b. b_start b \<ge> now - 24 * hour_us \<and> b_type b = se_EventType e) (event_buckets db). b_count b)))
   \<or> (handleStats (store_items P f now) db = WriteHeader 500 \<and> (\<exists>i. f i \<noteq> Done))"
proof (cases "StatsLast24h f now db")
  case (Inl e)
  have "\<exists>i. f i \<noteq> Done"
  proof (rule ccontr)
    assume "\<nexists>i. f i \<noteq> Done"
    then have "f = no_faults" by (auto simp: no_faults_def)
    then show False using Inl by (simp add: StatsLast24h_def scan_rows_no_faults)
  qed
  then show ?thesis using Inl by (simp add: handleStats_def)
next
  case (Inr stats)
  let ?rows = "stats_rows now (event_buckets db)"
  let ?e = "\<lambda>stat. \<lparr>se_EventType = st_EventType stat, se_Count = st_Count stat\<rparr>"
  have st: "stats = ?rows"
    using Inr by (auto simp: StatsLast24h_def split: if_splits sum.splits dest: scan_rows_Inr)
  have ty: "map se_EventType (map ?e ?rows) = map st_EventType ?rows" by simp
  show ?thesis
  proof (rule disjI1, intro exI[of _ "map ?e ?rows"] conjI)
    show "handleStats (store_items P f now) db = writeJSON 200 (StatsBody (map ?e ?rows))"
      using Inr st by (simp add: handleStats_def)
    show "\<forall>e \<in> set (map ?e ?rows). se_Count e =
        (\<Sum>b\<leftarrow>filter (\<lambda>b. b_start b \<ge> now - 24 * hour_us \<and> b_type b = se_EventType e) (event_buckets db). b_count b)"
      using stats_rows_count by auto
  qed (unfold ty stats_rows_types, auto)
qed

theorem http_stats_totals_witness:
  "handleStats (store_items pgx_us no_faults 0) empty_db = writeJSON 200 (StatsBody [])"
  using http_stats_totals[of pgx_us no_faults 0 empty_db] by (auto simp: empty_db_def)

end
