(* ===== verification/Store_Migrate.thy ===== *)
theory Store_Migrate
  imports Store Go_Stdlib
begin

text \<open>
  \<^verbatim>\<open>internal/store/pool.go\<close> and \<^verbatim>\<open>internal/store/migrate.go\<close>: the bounded connection retry and the migration
  runner. The embedded directory is a list of entries; the effect of a migration's SQL on the schema is a
  parameter \<open>exec\<close> (\<open>None\<close> when PostgreSQL rejects the script). \<^verbatim>\<open>schema_migrations\<close> is the list of recorded
  versions in the order of recording, or \<open>None\<close> while the table does not exist. Every statement may fail,
  and the acknowledgement of a commit may be lost; the i-th call of a run has outcome \<open>f i\<close>.
\<close>

section \<open>\<^verbatim>\<open>Connect\<close>\<close>

text \<open>One attempt: what \<^verbatim>\<open>pgxpool.New\<close> and \<^verbatim>\<open>Ping\<close> return, and whether the context is cancelled during the pause.\<close>

record connect_attempt =
  ca_new :: bool
  ca_ping :: bool
  ca_cancelled :: bool

datatype connect_result = Connected | ConnectCanceled | ConnectFailed int

text \<open>The second component counts the pools left open: \<^verbatim>\<open>Connect\<close> closes a pool whose ping fails.\<close>

fun connect_loop :: "(nat \<Rightarrow> connect_attempt) \<Rightarrow> int \<Rightarrow> nat \<Rightarrow> nat \<Rightarrow> connect_result \<times> nat \<times> nat" where
  "connect_loop w attempts i 0 = (ConnectFailed attempts, 0, i)"
| "connect_loop w attempts i (Suc left) =
     (let a = w i in
      if ca_new a \<and> ca_ping a then (Connected, 1, Suc i)
      else if int i = attempts - 1 then (ConnectFailed attempts, 0, Suc i)
      else if ca_cancelled a then (ConnectCanceled, 0, Suc i)
      else connect_loop w attempts (Suc i) left)"

definition Connect :: "(nat \<Rightarrow> connect_attempt) \<Rightarrow> int \<Rightarrow> connect_result \<times> nat \<times> nat" where
  "Connect w attempts = connect_loop w attempts 0 (nat attempts)"

section \<open>\<^verbatim>\<open>Migrate\<close>\<close>

record dir_entry =
  de_name :: string
  de_isDir :: bool
  de_sql :: "string option"

datatype migrate_error =
    CreateMigrations | ReadDirErr | CheckMigration string | ReadMigration string
  | BeginMigration string | ApplyMigration string | RecordMigration string | CommitMigration string

record 'd mig_state =
  mg_versions :: "string list option"
  mg_schema :: 'd

definition sql_names :: "dir_entry list \<Rightarrow> string list" where
  "sql_names entries = sort (map de_name (filter (\<lambda>e. \<not> de_isDir e \<and> HasSuffix (de_name e) ''.sql'') entries))"

definition read_file :: "dir_entry list \<Rightarrow> string \<Rightarrow> string option" where
  "read_file entries name = Option.bind (find (\<lambda>e. de_name e = name) entries) de_sql"

definition recorded :: "'d mig_state \<Rightarrow> string list" where
  "recorded s = (case mg_versions s of None \<Rightarrow> [] | Some vs \<Rightarrow> vs)"

text \<open>One migration in its own transaction; it starts with call number \<open>i\<close> and makes four calls.\<close>

definition applyOne ::
  "(string \<Rightarrow> 'd \<Rightarrow> 'd option) \<Rightarrow> faults \<Rightarrow> nat \<Rightarrow> string \<Rightarrow> string \<Rightarrow> 'd mig_state \<Rightarrow> migrate_error option \<times> 'd mig_state" where
  "applyOne exec f i version sql s =
     (if f i \<noteq> Done then (Some (BeginMigration version), s)
      else case (if f (i + 1) = Done then exec sql (mg_schema s) else None) of
        None \<Rightarrow> (Some (ApplyMigration version), s)
      | Some d \<Rightarrow>
          (if f (i + 2) \<noteq> Done \<or> version \<in> set (recorded s) then (Some (RecordMigration version), s)
           else let s' = s\<lparr>mg_versions := Some (recorded s @ [version]), mg_schema := d\<rparr>
                in case f (i + 3) of
                     Done \<Rightarrow> (None, s')
                   | Failed \<Rightarrow> (Some (CommitMigration version), s)
                   | Lost \<Rightarrow> (Some (CommitMigration version), s')))"

fun migrate_loop ::
  "(string \<Rightarrow> 'd \<Rightarrow> 'd option) \<Rightarrow> dir_entry list \<Rightarrow> faults \<Rightarrow> nat \<Rightarrow> string list \<Rightarrow> 'd mig_state
   \<Rightarrow> migrate_error option \<times> 'd mig_state" where
  "migrate_loop exec entries f i [] s = (None, s)"
| "migrate_loop exec entries f i (name # names) s =
     (let version = TrimSuffix name ''.sql'' in
      if f i \<noteq> Done then (Some (CheckMigration version), s)
      else if version \<in> set (recorded s) then migrate_loop exec entries f (i + 1) names s
      else case read_file entries name of
        None \<Rightarrow> (Some (ReadMigration name), s)
      | Some sql \<Rightarrow>
          (case applyOne exec f (i + 1) version sql s of
             (Some e, s') \<Rightarrow> (Some e, s')
           | (None, s') \<Rightarrow> migrate_loop exec entries f (i + 5) names s'))"

definition Migrate ::
  "(string \<Rightarrow> 'd \<Rightarrow> 'd option) \<Rightarrow> dir_entry list option \<Rightarrow> faults \<Rightarrow> 'd mig_state \<Rightarrow> migrate_error option \<times> 'd mig_state" where
  "Migrate exec dir f s =
     (let s1 = (if f 0 = Failed then s else s\<lparr>mg_versions := Some (recorded s)\<rparr>) in
      if f 0 \<noteq> Done then (Some CreateMigrations, s1)
      else case dir of
        None \<Rightarrow> (Some ReadDirErr, s1)
      | Some entries \<Rightarrow> migrate_loop exec entries f 1 (sql_names entries) s1)"

section \<open>Lemmas\<close>

text \<open>The schema that results from the scripts of the given versions, in their order.\<close>

fun replay :: "(string \<Rightarrow> 'd \<Rightarrow> 'd option) \<Rightarrow> dir_entry list \<Rightarrow> string list \<Rightarrow> 'd \<Rightarrow> 'd option" where
  "replay exec entries [] d = Some d"
| "replay exec entries (v # vs) d =
     Option.bind (read_file entries (v @ ''.sql'')) (\<lambda>sql. Option.bind (exec sql d) (replay exec entries vs))"

lemma replay_append:
  "replay exec entries (us @ vs) d = Option.bind (replay exec entries us d) (replay exec entries vs)"
  by (induction us arbitrary: d) (auto simp: bind_assoc split: Option.bind_splits)

text \<open>The state is consistent with the embedded migrations: each version is recorded at most once, and the schema is what the
  recorded scripts, in order, make of the initial schema.\<close>

definition mig_ok :: "(string \<Rightarrow> 'd \<Rightarrow> 'd option) \<Rightarrow> dir_entry list \<Rightarrow> 'd \<Rightarrow> 'd mig_state \<Rightarrow> bool" where
  "mig_ok exec entries d0 s \<longleftrightarrow> distinct (recorded s) \<and> replay exec entries (recorded s) d0 = Some (mg_schema s)"

lemma recorded_upd [simp]: "recorded (s\<lparr>mg_versions := Some vs\<rparr>) = vs" "recorded (s\<lparr>mg_versions := Some vs, mg_schema := d\<rparr>) = vs"
  by (simp_all add: recorded_def)

lemma applyOne_cases:
  assumes "applyOne exec f i v sql s = (r, s')"
  obtains (failed) e where "r = Some e" "s' = s"
  | (applied) d where "exec sql (mg_schema s) = Some d" "v \<notin> set (recorded s)"
      "s' = s\<lparr>mg_versions := Some (recorded s @ [v]), mg_schema := d\<rparr>"
proof -
  have "(\<exists>e. r = Some e \<and> s' = s) \<or> (\<exists>d. exec sql (mg_schema s) = Some d \<and> v \<notin> set (recorded s) \<and>
      s' = s\<lparr>mg_versions := Some (recorded s @ [v]), mg_schema := d\<rparr>)"
    using assms by (auto simp: applyOne_def Let_def split: if_splits option.splits outcome.splits)
  then show ?thesis using failed applied by blast
qed

lemma mig_ok_apply:
  assumes "mig_ok exec entries d0 s" "read_file entries (v @ ''.sql'') = Some sql" "exec sql (mg_schema s) = Some d" "v \<notin> set (recorded s)"
  shows "mig_ok exec entries d0 (s\<lparr>mg_versions := Some (recorded s @ [v]), mg_schema := d\<rparr>)"
  using assms by (simp add: mig_ok_def replay_append)

lemma sql_name_split: "name \<in> set (sql_names entries) \<Longrightarrow> TrimSuffix name ''.sql'' @ ''.sql'' = name"
  by (auto simp: sql_names_def TrimSuffix_def HasSuffix_def suffix_def)

lemma trim_new:
  assumes "set (name # names) \<subseteq> set (sql_names entries)" "distinct (name # names)"
  shows "TrimSuffix name ''.sql'' \<notin> set (map (\<lambda>n. TrimSuffix n ''.sql'') names)"
  using assms sql_name_split[of _ entries] by (auto simp del: append_Cons) (metis subsetD)

lemma applyOne_ok:
  assumes "mig_ok exec entries d0 s" "read_file entries (v @ ''.sql'') = Some sql" "applyOne exec f i v sql s = (q, s1)"
  shows "mig_ok exec entries d0 s1 \<and> (recorded s1 = recorded s \<and> q \<noteq> None \<or> recorded s1 = recorded s @ [v])"
  using assms(3)
proof (cases rule: applyOne_cases)
  case (applied d)
  then show ?thesis using mig_ok_apply[OF assms(1,2) applied(1,2)] by simp
qed (use assms(1) in simp)

lemma migrate_loop_ok:
  assumes "mig_ok exec entries d0 s" "set names \<subseteq> set (sql_names entries)" "distinct names"
    and "migrate_loop exec entries f i names s = (r, s')"
  shows "mig_ok exec entries d0 s' \<and> prefix (recorded s) (recorded s')
    \<and> prefix (recorded s') (recorded s @ filter (\<lambda>v. v \<notin> set (recorded s)) (map (\<lambda>n. TrimSuffix n ''.sql'') names))
    \<and> (r = None \<longrightarrow> recorded s' = recorded s @
         filter (\<lambda>v. v \<notin> set (recorded s)) (map (\<lambda>n. TrimSuffix n ''.sql'') names))"
  using assms
proof (induction names arbitrary: i s)
  case (Cons name names)
  let ?v = "TrimSuffix name ''.sql''" and ?vs = "map (\<lambda>n. TrimSuffix n ''.sql'') names"
  have nm: "?v @ ''.sql'' = name" using Cons.prems(2) by (intro sql_name_split) auto
  have sub: "set names \<subseteq> set (sql_names entries)" "distinct names" using Cons.prems(2,3) by simp_all
  consider "f i \<noteq> Done" | "f i = Done" "?v \<in> set (recorded s)"
    | "f i = Done" "?v \<notin> set (recorded s)" "read_file entries name = None"
    | sql where "f i = Done" "?v \<notin> set (recorded s)" "read_file entries name = Some sql" by fastforce
  then show ?case
  proof cases
    case 2
    then have l: "migrate_loop exec entries f (i + 1) names s = (r, s')" using Cons.prems(4) by (simp add: Let_def)
    show ?thesis using Cons.IH[OF Cons.prems(1) sub l] 2 by simp
  next
    case (4 sql)
    obtain q s1 where a: "applyOne exec f (i + 1) ?v sql s = (q, s1)" by fastforce
    note ok = applyOne_ok[OF Cons.prems(1) _ a, unfolded nm, OF 4(3)]
    have pre: "prefix (recorded s @ [?v]) (recorded s @ ?v # vs)" "prefix (recorded s) (recorded s @ ?v # vs)" for vs
      by (simp_all add: prefix_def)
    show ?thesis
    proof (cases q)
      case (Some e)
      then have "s1 = s'" "r = Some e" using Cons.prems(4) 4 a by (auto simp: Let_def)
      then show ?thesis using ok 4(2) pre by auto
    next
      case None
      then have l: "migrate_loop exec entries f (i + 5) names s1 = (r, s')" using Cons.prems(4) 4 a by (simp add: Let_def)
      have rec1: "recorded s1 = recorded s @ [?v]" using ok None by simp
      have "filter (\<lambda>v. v \<notin> set (recorded s1)) ?vs = filter (\<lambda>v. v \<notin> set (recorded s)) ?vs"
        by (rule filter_cong) (use trim_new[OF Cons.prems(2,3)] in \<open>auto simp: rec1 simp del: set_map\<close>)
      then show ?thesis using Cons.IH[OF conjunct1[OF ok] sub l] rec1 4(2) by (auto simp: prefix_def)
    qed
  qed (use Cons.prems in \<open>auto simp: Let_def\<close>)
qed simp

lemma sql_names_distinct: "distinct (map de_name entries) \<Longrightarrow> distinct (sql_names entries)"
  by (simp add: sql_names_def distinct_map_filter)

lemma recorded_created [simp]: "recorded (s\<lparr>mg_versions := Some (recorded s)\<rparr>) = recorded s"
  by simp

lemma Migrate_ok:
  assumes "distinct (map de_name entries)" "mig_ok exec entries d0 s" "Migrate exec (Some entries) f s = (r, s')"
  shows "mig_ok exec entries d0 s' \<and> prefix (recorded s) (recorded s')
    \<and> prefix (recorded s') (recorded s @ filter (\<lambda>v. v \<notin> set (recorded s)) (map (\<lambda>n. TrimSuffix n ''.sql'') (sql_names entries)))
    \<and> (r = None \<longrightarrow> recorded s' = recorded s @
         filter (\<lambda>v. v \<notin> set (recorded s)) (map (\<lambda>n. TrimSuffix n ''.sql'') (sql_names entries)))"
proof (cases "f 0 = Done")
  case True
  let ?s1 = "s\<lparr>mg_versions := Some (recorded s)\<rparr>"
  have l: "migrate_loop exec entries f 1 (sql_names entries) ?s1 = (r, s')"
    using assms(3) True by (simp add: Migrate_def)
  have ok: "mig_ok exec entries d0 ?s1" using assms(2) by (simp add: mig_ok_def)
  show ?thesis using migrate_loop_ok[OF ok order_refl sql_names_distinct[OF assms(1)] l] by simp
next
  case False
  then have "r \<noteq> None" "recorded s' = recorded s" "mg_schema s' = mg_schema s"
    using assms(3) by (auto simp: Migrate_def Let_def)
  then show ?thesis using assms(2) by (auto simp: mig_ok_def)
qed

section \<open>Properties\<close>

lemma migrate_loop_skip:
  "\<forall>n \<in> set names. TrimSuffix n ''.sql'' \<in> set (recorded t) \<Longrightarrow> migrate_loop exec entries no_faults i names t = (None, t)"
  by (induction names arbitrary: i) (simp_all add: Let_def)

lemma migrate_loop_versions:
  "migrate_loop exec entries f i names t = (q, t') \<Longrightarrow> mg_versions t \<noteq> None \<Longrightarrow> mg_versions t' \<noteq> None"
proof (induction names arbitrary: i t)
  case (Cons n names)
  obtain q1 t1 where a: "applyOne exec f (Suc i) (TrimSuffix n ''.sql'') (the (read_file entries n)) t = (q1, t1)" by fastforce
  have "mg_versions t1 \<noteq> None" using a Cons.prems(2) by (cases rule: applyOne_cases) auto
  with Cons a show ?case by (auto simp: Let_def split: if_splits option.splits)
qed simp

lemma Migrate_again_noop:
  assumes "Migrate exec (Some entries) f s = (None, s')"
    and "\<forall>n \<in> set (sql_names entries). TrimSuffix n ''.sql'' \<in> set (recorded s')"
  shows "Migrate exec (Some entries) no_faults s' = (None, s')"
proof -
  have "mg_versions s' \<noteq> None"
    using assms(1) migrate_loop_versions[of exec entries f 1 "sql_names entries"]
    by (auto simp: Migrate_def Let_def split: if_splits)
  then have "s'\<lparr>mg_versions := Some (recorded s')\<rparr> = s'" by (cases s') (auto simp: recorded_def)
  with migrate_loop_skip[OF assms(2)] show ?thesis by (simp add: Migrate_def)
qed

text \<open>The migration runner, whatever statement fails and whichever commit acknowledgement is lost: the schema is always
  the one that the recorded versions, each applied exactly once and in the order of recording, make of the
  initial schema (no script is ever applied without being recorded or the other way round), and recorded versions
  are never lost. When it reports success, exactly the versions of the directory that were missing have been
  applied, in filename order; running it again is then a success that changes nothing.\<close>
theorem Migrate_consistent:
  assumes "distinct (map de_name entries)" "mig_ok exec entries d0 s" "Migrate exec (Some entries) f s = (r, s')"
  shows "distinct (recorded s') \<and> replay exec entries (recorded s') d0 = Some (mg_schema s')
    \<and> prefix (recorded s) (recorded s')
    \<and> (r = None \<longrightarrow> recorded s' = recorded s @
         filter (\<lambda>v. v \<notin> set (recorded s)) (map (\<lambda>n. TrimSuffix n ''.sql'') (sql_names entries))
       \<and> Migrate exec (Some entries) no_faults s' = (None, s'))"
proof -
  note ok = Migrate_ok[OF assms]
  have "Migrate exec (Some entries) no_faults s' = (None, s')" if "r = None"
    using Migrate_again_noop[OF assms(3)[unfolded that]] ok that by auto
  then show ?thesis using ok by (simp add: mig_ok_def)
qed

definition sample_dir :: "dir_entry list" where
  "sample_dir = [\<lparr>de_name = ''0002_b.sql'', de_isDir = False, de_sql = Some ''B''\<rparr>,
     \<lparr>de_name = ''0001_a.sql'', de_isDir = False, de_sql = Some ''A''\<rparr>]"

theorem Migrate_consistent_witness:
  "\<exists>s'. Migrate (\<lambda>sql d. Some (d @ [sql])) (Some sample_dir) no_faults \<lparr>mg_versions = None, mg_schema = []\<rparr> = (None, s')
     \<and> recorded s' = [''0001_a'', ''0002_b''] \<and> mg_schema s' = [''A'', ''B'']"
proof -
  let ?exec = "\<lambda>sql d. Some (d @ [sql])" and ?s = "\<lparr>mg_versions = None, mg_schema = []\<rparr> :: string list mig_state"
  have names: "sql_names sample_dir = [''0001_a.sql'', ''0002_b.sql'']"
    by (simp add: sql_names_def sample_dir_def HasSuffix_def suffix_def)
  have d: "distinct (map de_name sample_dir)" by (simp add: sample_dir_def)
  have ok: "mig_ok ?exec sample_dir [] ?s" by (simp add: mig_ok_def recorded_def)
  obtain r s' where run: "Migrate ?exec (Some sample_dir) no_faults ?s = (r, s')" by fastforce
  have trim: "TrimSuffix ''0001_a.sql'' ''.sql'' = ''0001_a''" "TrimSuffix ''0002_b.sql'' ''.sql'' = ''0002_b''"
    using TrimSuffix_append[of "''0001_a''" "''.sql''"] TrimSuffix_append[of "''0002_b''" "''.sql''"] by simp_all
  have files: "read_file sample_dir ''0001_a.sql'' = Some ''A''" "read_file sample_dir ''0002_b.sql'' = Some ''B''"
    by (simp_all add: read_file_def sample_dir_def)
  have r: "r = None"
    using run by (simp add: Migrate_def names recorded_def Let_def applyOne_def files trim)
  have rec: "recorded s' = [''0001_a'', ''0002_b'']"
    using Migrate_consistent[OF d ok run] r by (simp add: names trim recorded_def)
  have "replay ?exec sample_dir (recorded s') [] = Some (mg_schema s')"
    using Migrate_consistent[OF d ok run] by blast
  then have "mg_schema s' = [''A'', ''B'']" by (simp add: rec files)
  then show ?thesis using run r rec by simp
qed

lemma connect_loop_bound:
  "connect_loop w attempts i left = (r, openPools, tried) \<Longrightarrow>
   i \<le> tried \<and> tried \<le> i + left \<and> openPools = (if r = Connected then 1 else 0)"
proof (induction left arbitrary: i)
  case (Suc left)
  then show ?case by (fastforce simp: Let_def split: if_splits)
qed auto

lemma connect_loop_ok:
  "connect_loop w attempts i left = (Connected, openPools, tried) \<Longrightarrow> i < tried \<and> ca_new (w (tried - 1)) \<and> ca_ping (w (tried - 1))"
proof (induction left arbitrary: i)
  case (Suc left)
  then show ?case by (fastforce simp: Let_def split: if_splits)
qed auto

lemma connect_loop_tried:
  "connect_loop w attempts i left = (r, openPools, tried) \<Longrightarrow> r \<noteq> Connected \<Longrightarrow> i \<le> j \<Longrightarrow> j < tried \<Longrightarrow>
   \<not> (ca_new (w j) \<and> ca_ping (w j))"
proof (induction left arbitrary: i)
  case (Suc left)
  then show ?case by (cases "j = i") (auto simp: Let_def split: if_splits)
qed auto

lemma connect_loop_live:
  assumes "\<forall>j. \<not> ca_cancelled (w j)" "int i + int left = attempts"
    and "i \<le> j" "j < i + left" "ca_new (w j)" "ca_ping (w j)"
  shows "fst (connect_loop w attempts i left) = Connected"
  using assms(2-4)
proof (induction left arbitrary: i)
  case (Suc left)
  show ?case
  proof (cases "j = i")
    case True
    with assms(5,6) show ?thesis by (simp add: Let_def)
  next
    case False
    with Suc.prems have "fst (connect_loop w attempts (Suc i) left) = Connected" by (intro Suc.IH) auto
    with False Suc.prems assms(1) show ?thesis by (auto simp: Let_def)
  qed
qed simp

text \<open>The connection loop makes at most the configured number of attempts, returns a pool exactly when an attempt's
  dial and ping both succeed before a cancellation, and never leaks a pool: the only pool left open is the
  one it returns.\<close>
theorem Connect_bounded:
  "case Connect w attempts of (r, openPools, tried) \<Rightarrow>
     int tried \<le> max 0 attempts
     \<and> openPools = (if r = Connected then 1 else 0)
     \<and> (r = Connected \<longrightarrow> (\<exists>i < tried. i = tried - 1 \<and> ca_new (w i) \<and> ca_ping (w i)))
     \<and> (r \<noteq> Connected \<longrightarrow> (\<forall>i < tried. \<not> (ca_new (w i) \<and> ca_ping (w i))))
     \<and> ((\<exists>i < nat attempts. ca_new (w i) \<and> ca_ping (w i)) \<and> (\<forall>i. \<not> ca_cancelled (w i)) \<longrightarrow> r = Connected)"
proof -
  obtain r n t where c: "connect_loop w attempts 0 (nat attempts) = (r, n, t)" by (meson prod_cases3)
  note b = connect_loop_bound[OF c]
  have "r = Connected" if "i < nat attempts" "ca_new (w i)" "ca_ping (w i)" "\<forall>i. \<not> ca_cancelled (w i)" for i
    using connect_loop_live[OF that(4), of 0 "nat attempts" attempts i] that c by simp
  moreover have "\<exists>i < t. i = t - 1 \<and> ca_new (w i) \<and> ca_ping (w i)" if "r = Connected"
    using connect_loop_ok[OF c[unfolded that]] by auto
  ultimately show ?thesis using b connect_loop_tried[OF c] by (auto simp: Connect_def c)
qed

theorem Connect_bounded_witness:
  "Connect (\<lambda>i. \<lparr>ca_new = True, ca_ping = (i = 2), ca_cancelled = False\<rparr>) 10 = (Connected, 1, 3)"
proof -
  let ?w = "\<lambda>i. \<lparr>ca_new = True, ca_ping = (i = (2::nat)), ca_cancelled = False\<rparr>"
  have "fst (Connect ?w 10) = Connected" "fst (snd (Connect ?w 10)) = 1"
    using Connect_bounded[where w = ?w and attempts = 10] by (auto split: prod.splits)
  moreover have "snd (snd (Connect ?w 10)) = 3"
    using Connect_bounded[where w = ?w and attempts = 10] calculation by (auto split: prod.splits)
  ultimately show ?thesis by (metis prod.collapse)
qed

end
