(* ===== verification/Cmd.thy ===== *)
theory Cmd
  imports Retention Interference Seeder Grafana Httpserver Store_Migrate
begin

text \<open>
  \<^verbatim>\<open>cmd/analytics\<close>: the subcommands. \<open>seed\<close> is the whole seed command with every early return, over the models of the
  components it calls; what it gets from outside (arguments, environment, files, clock, network) is the record
  \<open>seed_env\<close>. \<open>serve\<close> is modelled by the sequence of its start, stop and wait actions, the deferred ones included,
  since the order of shutdown is what it has to get right. Logging is left out.
\<close>

section \<open>The seed command\<close>

definition envFloat :: "(string \<Rightarrow> real option) \<Rightarrow> env \<Rightarrow> string \<Rightarrow> real \<Rightarrow> real" where
  "envFloat ParseFloat e key def =
     (let v = e key in
      if v = [] then def else case ParseFloat v of None \<Rightarrow> def | Some f \<Rightarrow> f)"

text \<open>\<^verbatim>\<open>slices.SortFunc\<close> by id (the ids of a ListItems reply are distinct, so the order is determined).\<close>

definition fetchBackendItems :: "bool \<Rightarrow> proto_item list option \<Rightarrow> Item list option" where
  "fetchBackendItems dialOk resp =
     (if \<not> dialOk then None
      else map_option (\<lambda>protoItems. sort_key si_ID (map (\<lambda>it. \<lparr>si_ID = pi_Id it, si_Name = pi_Name it\<rparr>) protoItems)) resp)"

record ('d, 'r, 'g) seed_env =
  sv_env :: env
  sv_flags :: "string \<Rightarrow> string list \<Rightarrow> (int \<times> int \<times> string) option"
  sv_ParseFloat :: "string \<Rightarrow> real option"
  sv_ParseDuration :: "string \<Rightarrow> go_duration option"
  sv_refTime :: go_time
  sv_ReadFile :: "string \<Rightarrow> string option"
  sv_unmarshal :: "string \<Rightarrow> Profile option"
  sv_unmarshalShape :: "string \<Rightarrow> real list option"
  sv_connect :: "nat \<Rightarrow> connect_attempt"
  sv_exec :: "string \<Rightarrow> 'd \<Rightarrow> 'd option"
  sv_dir :: "dir_entry list option"
  sv_migFaults :: faults
  sv_dial :: bool
  sv_list :: "proto_item list option"
  sv_world :: seed_world
  sv_rng :: "'r rng"
  sv_newPCG :: "64 word \<Rightarrow> 64 word \<Rightarrow> 'r"
  sv_cos :: "real \<Rightarrow> real"
  sv_retStart :: go_time
  sv_retDuration :: go_duration
  sv_retFaults :: faults
  sv_seededAt :: go_time
  sv_markerFaults :: faults
  sv_grafana :: "'g grafana_http"
  sv_fmt2 :: "real \<Rightarrow> string"

record ('d, 'g) world_state =
  ws_mig :: "'d mig_state"
  ws_db :: db
  ws_grafana :: 'g

definition zero_retention :: retention_metrics where
  "zero_retention = \<lparr>rm_success = 0, rm_failure = 0, rm_deletedRows = 0, rm_lastSuccess = 0, rm_durations = []\<rparr>"

text \<open>The part of the command after the items have been fetched.\<close>

definition seed_data ::
  "pgx \<Rightarrow> ('d, 'r, 'g) seed_env \<Rightarrow> int \<Rightarrow> int \<Rightarrow> real \<Rightarrow> Profile \<Rightarrow> Item list \<Rightarrow> ('d, 'g) world_state
   \<Rightarrow> int \<times> ('d, 'g) world_state" where
  "seed_data P E days seedValue scale profile items ws =
     (let ((written, runErr), db1) = SeederRun (IngestEventsBatch P) (sv_world E) (sv_rng E) (sv_newPCG E) (sv_cos E)
            \<lparr>sc_Days = days, sc_SeedValue = seedValue, sc_Scale = scale, sc_RefTime = sv_refTime E, sc_BatchSize = 0\<rparr>
            profile items (ws_db ws)
      in if runErr \<noteq> None then (1, ws\<lparr>ws_db := db1\<rparr>)
         else let (db2, _) = RunOnce (DeleteEventsOlderThan P) (RetentionConfigFromEnv (sv_ParseDuration E) (sv_env E))
                    (sv_retStart E) (sv_retDuration E) (sv_retFaults E) (db1, zero_retention);
                  (res, db3) = UpsertSeedMarker P (sv_markerFaults E)
                    \<lparr>mk_Scale = scale, mk_RefUnix = time_Unix (sv_refTime E), mk_Seed = seedValue, mk_Days = days,
                     mk_SeededAt = sv_seededAt E, mk_EventsWritten = written\<rparr> db2
              in case res of
                   Inl _ \<Rightarrow> (1, ws\<lparr>ws_db := db3\<rparr>)
                 | Inr _ \<Rightarrow>
                     (let anns = ComputeAnnotations (sv_fmt2 E) profile (sv_refTime E) scale;
                          (annErr, g) = ReplaceAnomalyAnnotations (sv_grafana E) (GrafanaConfigFromEnv (sv_env E)) anns (ws_grafana ws)
                      in (0, ws\<lparr>ws_db := db3, ws_grafana := g\<rparr>)))"

definition seed ::
  "pgx \<Rightarrow> ('d, 'r, 'g) seed_env \<Rightarrow> string list \<Rightarrow> ('d, 'g) world_state \<Rightarrow> int \<times> ('d, 'g) world_state" where
  "seed P E args ws =
     (case sv_flags E (envString (sv_env E) ''ANALYTICS_LOADPROFILE_PATH'' ''../../loadprofile/profile.json'') args of
        None \<Rightarrow> (2, ws)
      | Some (days, seedValue, profilePath) \<Rightarrow>
          (let scale = envFloat (sv_ParseFloat E) (sv_env E) ''DEMO_TIME_SCALE'' 1 in
           case sv_ReadFile E profilePath of
             None \<Rightarrow> (1, ws)
           | Some profileBytes \<Rightarrow>
               (case ParseProfile (sv_unmarshal E) (sv_unmarshalShape E) profileBytes of
                  Inl _ \<Rightarrow> (1, ws)
                | Inr profile \<Rightarrow>
                    if fst (Connect (sv_connect E) 10) \<noteq> Connected then (1, ws)
                    else case Migrate (sv_exec E) (sv_dir E) (sv_migFaults E) (ws_mig ws) of
                      (Some _, mig) \<Rightarrow> (1, ws\<lparr>ws_mig := mig\<rparr>)
                    | (None, mig) \<Rightarrow>
                        (case fetchBackendItems (sv_dial E) (sv_list E) of
                           None \<Rightarrow> (1, ws\<lparr>ws_mig := mig\<rparr>)
                         | Some items \<Rightarrow>
                             if items = [] then (1, ws\<lparr>ws_mig := mig\<rparr>)
                             else seed_data P E days seedValue scale profile items (ws\<lparr>ws_mig := mig\<rparr>)))))"

section \<open>The serve command\<close>

datatype action =
    OtelInit | OpenPool | RunMigrate | StartIngest | StartRetention | StartHTTP
  | CancelIngest | CancelRetention | WaitIngest | WaitRetention | ShutdownHTTP
  | ClosePool | OtelShutdown | StopSignals

datatype stop_cause = SignalReceived | HTTPFailed

text \<open>A return runs the deferred actions, last deferred first.\<close>

definition return_with :: "int \<Rightarrow> action list \<Rightarrow> action list \<Rightarrow> int \<times> action list" where
  "return_with code trace defers = (code, trace @ defers)"

definition serve :: "bool \<Rightarrow> bool \<Rightarrow> stop_cause \<Rightarrow> bool \<Rightarrow> int \<times> action list" where
  "serve connectOk migrateOk cause shutdownOk =
     (let d0 = [StopSignals];
          t1 = [OtelInit]; d1 = OtelShutdown # d0 in
      if \<not> connectOk then return_with 1 t1 d1
      else let t2 = t1 @ [OpenPool]; d2 = ClosePool # d1; t3 = t2 @ [RunMigrate] in
      if \<not> migrateOk then return_with 1 t3 d2
      else let d3 = CancelIngest # d2; t4 = t3 @ [StartIngest];
               d4 = CancelRetention # d3; t5 = t4 @ [StartRetention, StartHTTP];
               stop = [CancelIngest, CancelRetention, WaitIngest, WaitRetention] in
      case cause of
        HTTPFailed \<Rightarrow> return_with 1 (t5 @ stop) d4
      | SignalReceived \<Rightarrow>
          if \<not> shutdownOk then return_with 1 (t5 @ stop @ [ShutdownHTTP]) d4
          else return_with 0 (t5 @ stop @ [ShutdownHTTP]) d4)"

section \<open>Health check and dispatch\<close>

definition healthcheckPort :: "(string \<Rightarrow> string option) \<Rightarrow> env \<Rightarrow> string" where
  "healthcheckPort splitPort e =
     (case splitPort (envString e ''ANALYTICS_HTTP_ADDR'' '':8082'') of None \<Rightarrow> ''8082'' | Some port \<Rightarrow> port)"

text \<open>\<open>get base path\<close> is the status of a GET, or \<open>None\<close> when the request fails.\<close>

fun probe :: "(string \<Rightarrow> string \<Rightarrow> int option) \<Rightarrow> string \<Rightarrow> string list \<Rightarrow> int" where
  "probe get base [] = 0"
| "probe get base (path # paths) =
     (case get base path of
        None \<Rightarrow> 1
      | Some status \<Rightarrow> if status \<noteq> 200 then 1 else probe get base paths)"

definition healthcheck :: "(string \<Rightarrow> string option) \<Rightarrow> env \<Rightarrow> (string \<Rightarrow> string \<Rightarrow> int option) \<Rightarrow> int" where
  "healthcheck splitPort e get =
     probe get (''http://localhost:'' @ healthcheckPort splitPort e) [''/healthz'', ''/readyz'']"

definition run :: "int \<Rightarrow> (string list \<Rightarrow> int) \<Rightarrow> int \<Rightarrow> string list \<Rightarrow> int" where
  "run serveCode seedCode healthCode args =
     (let cmd = (if args \<noteq> [] then hd args else ''serve'') in
      if cmd = ''serve'' then serveCode
      else if cmd = ''seed'' then seedCode (tl args)
      else if cmd = ''healthcheck'' then healthCode
      else 2)"

section \<open>Lemmas on the seed command\<close>

lemma batches_effect_marker [simp]: "seed_marker (batches_effect P cs db) = seed_marker db"
  by (induction cs arbitrary: db) (simp_all add: batch_effect_def)

lemma SeederRun_marker:
  assumes "SeederRun (IngestEventsBatch P) w R newPCG cosf cfg profile items db = ((n, res), db')"
  shows "seed_marker db' = seed_marker db"
proof (cases "items = [] \<or> sc_Days cfg \<le> 0")
  case True
  then show ?thesis using assms by (cases "items = []") (simp_all add: SeederRun_def)
next
  case False
  with store_seed.SeederRun_run[OF _ _ assms] obtain cs where "db' = batches_effect P cs db"
    unfolding batches_effect_def by (cases res) force+
  then show ?thesis by simp
qed

lemma RunOnce_marker:
  assumes "RunOnce (DeleteEventsOlderThan P) cfg t d f (db, m) = (db', m')"
  shows "seed_marker db' = seed_marker db"
  using store_ret.runOnce_other[of P cfg t d f "(db, m)"] assms by (simp add: RunOnce_def retention_frame_def)

definition seed_cfg :: "('d, 'r, 'g) seed_env \<Rightarrow> int \<Rightarrow> int \<Rightarrow> real \<Rightarrow> SeederConfig" where
  "seed_cfg E days seedValue scale =
     \<lparr>sc_Days = days, sc_SeedValue = seedValue, sc_Scale = scale, sc_RefTime = sv_refTime E, sc_BatchSize = 0\<rparr>"

definition seed_generate ::
  "pgx \<Rightarrow> ('d, 'r, 'g) seed_env \<Rightarrow> int \<Rightarrow> int \<Rightarrow> real \<Rightarrow> Profile \<Rightarrow> Item list \<Rightarrow> db \<Rightarrow> (int \<times> seeder_error option) \<times> db" where
  "seed_generate P E days seedValue scale profile items db =
     SeederRun (IngestEventsBatch P) (sv_world E) (sv_rng E) (sv_newPCG E) (sv_cos E)
       (seed_cfg E days seedValue scale) profile items db"

definition seed_record :: "('d, 'r, 'g) seed_env \<Rightarrow> int \<Rightarrow> int \<Rightarrow> real \<Rightarrow> int \<Rightarrow> SeedMarker" where
  "seed_record E days seedValue scale written =
     \<lparr>mk_Scale = scale, mk_RefUnix = time_Unix (sv_refTime E), mk_Seed = seedValue, mk_Days = days,
      mk_SeededAt = sv_seededAt E, mk_EventsWritten = written\<rparr>"

definition seed_retain :: "pgx \<Rightarrow> ('d, 'r, 'g) seed_env \<Rightarrow> db \<Rightarrow> db \<times> retention_metrics" where
  "seed_retain P E db = RunOnce (DeleteEventsOlderThan P) (RetentionConfigFromEnv (sv_ParseDuration E) (sv_env E))
     (sv_retStart E) (sv_retDuration E) (sv_retFaults E) (db, zero_retention)"

lemmas seed_parts = seed_generate_def seed_cfg_def seed_record_def seed_retain_def

lemma seed_data_cases:
  assumes "seed_data P E days seedValue scale profile items ws = (c, ws')"
  obtains (gen_err) written e db1 where
      "seed_generate P E days seedValue scale profile items (ws_db ws) = ((written, Some e), db1)"
      "c = 1" "ws' = ws\<lparr>ws_db := db1\<rparr>"
  | (marker_err) written db1 db2 m2 e db3 where
      "seed_generate P E days seedValue scale profile items (ws_db ws) = ((written, None), db1)"
      "seed_retain P E db1 = (db2, m2)"
      "UpsertSeedMarker P (sv_markerFaults E) (seed_record E days seedValue scale written) db2 = (Inl e, db3)"
      "c = 1" "ws' = ws\<lparr>ws_db := db3\<rparr>"
  | (ok) written db1 db2 m2 db3 g where
      "seed_generate P E days seedValue scale profile items (ws_db ws) = ((written, None), db1)"
      "seed_retain P E db1 = (db2, m2)"
      "UpsertSeedMarker P (sv_markerFaults E) (seed_record E days seedValue scale written) db2 = (Inr (), db3)"
      "c = 0" "ws' = ws\<lparr>ws_db := db3, ws_grafana := g\<rparr>"
proof -
  obtain written runErr db1 where
    g: "seed_generate P E days seedValue scale profile items (ws_db ws) = ((written, runErr), db1)" by (metis surj_pair)
  obtain db2 m2 where r: "seed_retain P E db1 = (db2, m2)" by fastforce
  obtain res db3 where
    u: "UpsertSeedMarker P (sv_markerFaults E) (seed_record E days seedValue scale written) db2 = (res, db3)" by fastforce
  note raw = g[unfolded seed_parts] r[unfolded seed_parts] u[unfolded seed_parts]
  show thesis
  proof (cases runErr)
    case (Some e)
    then show ?thesis using assms raw(1) by (intro gen_err[OF g[unfolded Some]]) (simp_all add: seed_data_def)
  next
    case None
    show ?thesis
    proof (cases res)
      case (Inl e)
      then show ?thesis using assms raw None
        by (intro marker_err[OF g[unfolded None] r u[unfolded Inl]]) (simp_all add: seed_data_def)
    next
      case (Inr x)
      then have u': "UpsertSeedMarker P (sv_markerFaults E) (seed_record E days seedValue scale written) db2 = (Inr (), db3)"
        using u by simp
      let ?g = "snd (ReplaceAnomalyAnnotations (sv_grafana E) (GrafanaConfigFromEnv (sv_env E))
          (ComputeAnnotations (sv_fmt2 E) profile (sv_refTime E) scale) (ws_grafana ws))"
      show ?thesis using assms raw None Inr
        by (intro ok[OF g[unfolded None] r u', of ?g]) (simp_all add: seed_data_def Let_def case_prod_beta)
    qed
  qed
qed

text \<open>The command either stops before the data work, with only migrations applied, or reaches it with what it has
  parsed, read and fetched.\<close>

definition seed_ready ::
  "('d, 'r, 'g) seed_env \<Rightarrow> string list \<Rightarrow> ('d, 'g) world_state \<Rightarrow> int \<Rightarrow> int \<Rightarrow> Profile \<Rightarrow> Item list \<Rightarrow> 'd mig_state \<Rightarrow> bool" where
  "seed_ready E args ws days seedValue profile items mig \<longleftrightarrow>
     (\<exists>path bytes. sv_flags E (envString (sv_env E) ''ANALYTICS_LOADPROFILE_PATH'' ''../../loadprofile/profile.json'') args
          = Some (days, seedValue, path)
        \<and> sv_ReadFile E path = Some bytes
        \<and> ParseProfile (sv_unmarshal E) (sv_unmarshalShape E) bytes = Inr profile)
     \<and> fst (Connect (sv_connect E) 10) = Connected
     \<and> Migrate (sv_exec E) (sv_dir E) (sv_migFaults E) (ws_mig ws) = (None, mig)
     \<and> fetchBackendItems (sv_dial E) (sv_list E) = Some items \<and> items \<noteq> []"

definition seed_scale :: "('d, 'r, 'g) seed_env \<Rightarrow> real" where
  "seed_scale E = envFloat (sv_ParseFloat E) (sv_env E) ''DEMO_TIME_SCALE'' 1"

definition seed_flags :: "('d, 'r, 'g) seed_env \<Rightarrow> string list \<Rightarrow> (int \<times> int \<times> string) option" where
  "seed_flags E args =
     sv_flags E (envString (sv_env E) ''ANALYTICS_LOADPROFILE_PATH'' ''../../loadprofile/profile.json'') args"

lemma seed_cases:
  assumes "seed P E args ws = (c, ws')"
  obtains (usage) "seed_flags E args = None" "c = 2" "ws' = ws"
  | (early) mig where "seed_flags E args \<noteq> None" "c = 1" "ws' = ws\<lparr>ws_mig := mig\<rparr>"
      "\<nexists>days seedValue profile items mig. seed_ready E args ws days seedValue profile items mig"
  | (work) days seedValue profile items mig where "seed_ready E args ws days seedValue profile items mig"
      "seed_data P E days seedValue (seed_scale E) profile items (ws\<lparr>ws_mig := mig\<rparr>) = (c, ws')"
proof -
  have stop: thesis if "seed_flags E args \<noteq> None" "c = 1" "ws' = ws"
      "\<nexists>days seedValue profile items mig. seed_ready E args ws days seedValue profile items mig"
    using early[of "ws_mig ws"] that by simp
  show thesis
    using assms unfolding seed_def Let_def
    by (auto split: option.splits sum.splits prod.splits if_splits
        intro: usage stop early work simp: seed_ready_def seed_scale_def seed_flags_def)
qed

lemma seed_ready_run:
  assumes "seed_ready E args ws days seedValue profile items mig"
  shows "seed P E args ws = seed_data P E days seedValue (seed_scale E) profile items (ws\<lparr>ws_mig := mig\<rparr>)"
  using assms by (auto simp: seed_def seed_ready_def seed_scale_def)

lemma seed_success:
  assumes "seed P E args ws = (0, ws')"
  obtains days seedValue profile items mig written db1 where "seed_ready E args ws days seedValue profile items mig"
    "SeederRun (IngestEventsBatch P) (sv_world E) (sv_rng E) (sv_newPCG E) (sv_cos E)
       (seed_cfg E days seedValue (seed_scale E)) profile items (ws_db ws) = ((written, None), db1)"
    "lookup sm_id (seed_marker (ws_db ws')) 1 = Some (marker_row P (seed_record E days seedValue (seed_scale E) written))"
  using assms
proof (cases rule: seed_cases)
  case (work days seedValue profile items mig)
  from work(2) show ?thesis
  proof (cases rule: seed_data_cases)
    case (ok written db1 db2 m2 db3 g)
    from ok(3) have "lookup sm_id (seed_marker db3) 1 = Some (marker_row P (seed_record E days seedValue (seed_scale E) written))"
      by (auto elim!: UpsertSeedMarker_cases simp: lookup_marker)
    with ok(1,5) work(1) that show ?thesis by (simp add: seed_generate_def)
  qed simp_all
qed simp_all

section \<open>Properties\<close>

text \<open>A concrete environment for the seed command: an unreachable Grafana, a closing retention pass that fails, a
  database and a backend that answer.\<close>

definition sample_env :: "(unit, nat, unit) seed_env" where
  "sample_env = \<lparr>sv_env = (\<lambda>_. []), sv_flags = (\<lambda>path args. if args = [] then Some (1, 42, path) else None),
     sv_ParseFloat = (\<lambda>_. None), sv_ParseDuration = (\<lambda>_. None), sv_refTime = 1750000000 * Second,
     sv_ReadFile = (\<lambda>_. Some ''profile''), sv_unmarshal = (\<lambda>_. Some flat_profile),
     sv_unmarshalShape = (\<lambda>_. Some [1, 1, 1, 1, 1, 1, 1]),
     sv_connect = (\<lambda>_. \<lparr>ca_new = True, ca_ping = True, ca_cancelled = False\<rparr>), sv_exec = (\<lambda>_. Some), sv_dir = Some [],
     sv_migFaults = no_faults, sv_dial = True, sv_list = Some [\<lparr>pi_Id = 7, pi_Name = ''widget''\<rparr>], sv_world = calm,
     sv_rng = rng_zero, sv_newPCG = (\<lambda>_ _. 0), sv_cos = cos, sv_retStart = 1750000100 * Second, sv_retDuration = Second,
     sv_retFaults = (\<lambda>_. Failed), sv_seededAt = 1750000100 * Second, sv_markerFaults = no_faults,
     sv_grafana = \<lparr>gh_GET = (\<lambda>_ g. (RequestErr, g)), gh_DELETE = (\<lambda>_ g. (RequestErr, g)), gh_POST = (\<lambda>_ _ g. (RequestErr, g))\<rparr>,
     sv_fmt2 = (\<lambda>_. ''0.00'')\<rparr>"

definition sample_ws :: "(unit, unit) world_state" where
  "sample_ws = \<lparr>ws_mig = \<lparr>mg_versions = None, mg_schema = ()\<rparr>, ws_db = empty_db, ws_grafana = ()\<rparr>"

lemma sample_ready:
  "seed_ready sample_env [] sample_ws 1 42 flat_profile sample_items \<lparr>mg_versions = Some [], mg_schema = ()\<rparr>"
  unfolding seed_ready_def
  by (simp add: sample_env_def sample_ws_def ParseProfile_def flat_profile_def Connect_def eval_nat_numeral
      Migrate_def recorded_def sql_names_def fetchBackendItems_def sample_items_def)

text \<open>C13: the contract of the seed marker. When the command exits 0, the whole planned run succeeded and the marker
  the service then serves is exactly this run's, with its scale, reference time, seed, days and the number of
  events it wrote. When it exits with anything else, the marker of an earlier run is untouched
  (unless the acknowledgement of the marker's own commit was lost) and Grafana was not touched.\<close>
theorem seed_marker_contract:
  assumes "seed P E args ws = (c, ws')"
  shows "(c = 0 \<longrightarrow> (\<exists>days seedValue profile items mig written db1.
      seed_ready E args ws days seedValue profile items mig
      \<and> SeederRun (IngestEventsBatch P) (sv_world E) (sv_rng E) (sv_newPCG E) (sv_cos E)
          (seed_cfg E days seedValue (seed_scale E)) profile items (ws_db ws) = ((written, None), db1)
      \<and> GetSeedMarker P no_faults (ws_db ws') = Inr (Some \<lparr>mk_Scale = seed_scale E, mk_RefUnix = time_Unix (sv_refTime E),
          mk_Seed = seedValue, mk_Days = days, mk_SeededAt = pg_dec P (pg_enc P (sv_seededAt E)), mk_EventsWritten = written\<rparr>)))
    \<and> (c \<noteq> 0 \<longrightarrow> (c = 1 \<or> c = 2) \<and> ws_grafana ws' = ws_grafana ws
        \<and> (sv_markerFaults E 0 \<noteq> Lost \<longrightarrow> seed_marker (ws_db ws') = seed_marker (ws_db ws)))"
  using assms
proof (cases rule: seed_cases)
  case (work days seedValue profile items mig)
  from work(2) show ?thesis
  proof (cases rule: seed_data_cases)
    case (gen_err written e db1)
    then have "seed_marker db1 = seed_marker (ws_db ws)"
      using SeederRun_marker by (simp add: seed_generate_def) blast
    with gen_err show ?thesis by simp
  next
    case (marker_err written db1 db2 m2 e db3)
    have "seed_marker db1 = seed_marker (ws_db ws)" "seed_marker db2 = seed_marker db1"
      using marker_err(1,2) SeederRun_marker RunOnce_marker by (simp_all add: seed_generate_def seed_retain_def) blast+
    with marker_err show ?thesis by (auto elim!: UpsertSeedMarker_cases)
  next
    case ok
    then have "seed P E args ws = (0, ws')" using assms by simp
    then obtain days seedValue profile items mig written db1 where r: "seed_ready E args ws days seedValue profile items mig"
        "SeederRun (IngestEventsBatch P) (sv_world E) (sv_rng E) (sv_newPCG E) (sv_cos E)
          (seed_cfg E days seedValue (seed_scale E)) profile items (ws_db ws) = ((written, None), db1)"
        "lookup sm_id (seed_marker (ws_db ws')) 1 = Some (marker_row P (seed_record E days seedValue (seed_scale E) written))"
      by (rule seed_success)
    from r(3) have "GetSeedMarker P no_faults (ws_db ws') = Inr (Some \<lparr>mk_Scale = seed_scale E, mk_RefUnix = time_Unix (sv_refTime E),
          mk_Seed = seedValue, mk_Days = days, mk_SeededAt = pg_dec P (pg_enc P (sv_seededAt E)), mk_EventsWritten = written\<rparr>)"
      by (simp add: GetSeedMarker_def marker_row_def seed_record_def)
    with r(1,2) ok(4) show ?thesis by blast
  qed
qed auto

lemma seed_live:
  assumes "seed_ready E args ws days seedValue profile items mig" "0 < days" "days < 2 ^ 31"
    and "\<forall>i. sw_faults (sv_world E) i = no_faults" "\<forall>h. \<not> sw_ctxHour (sv_world E) h"
    and "sv_markerFaults E 0 = Done" "rng_ok (sv_rng E)" "\<forall>it \<in> set items. text_ok (si_Name it)"
  shows "fst (seed P E args ws) = 0 \<and> sorted (map si_ID items)"
proof -
  have "items \<noteq> []" "sorted (map si_ID items)"
    using assms(1) by (auto simp: seed_ready_def fetchBackendItems_def split: if_splits)
  moreover obtain n db1 where "seed_generate P E days seedValue (seed_scale E) profile items (ws_db ws) = ((n, None), db1)"
    using store_seed.SeederRun_live[OF \<open>items \<noteq> []\<close>, of "seed_cfg E days seedValue (seed_scale E)" "sv_world E"
        "sv_rng E" P "sv_newPCG E" "sv_cos E" profile "ws_db ws"] assms(2,4,5,7,8)
    by (auto simp: seed_generate_def seed_cfg_def simp del: no_faults_apply)
  moreover obtain c ws' where s: "seed P E args ws = (c, ws')" by fastforce
  ultimately show ?thesis using assms(2,3,6) unfolding seed_ready_run[OF assms(1)]
    by (cases rule: seed_data_cases[OF s[unfolded seed_ready_run[OF assms(1)]]])
      (auto simp: s[unfolded seed_ready_run[OF assms(1)]] UpsertSeedMarker_def int4_ok_def seed_record_def)
qed

text \<open>A seed never fails on decoration. Once the arguments, the profile, the database, the migrations and the
  backend items are fine (the names among them), a database that answers and no cancellation give exit code 0, whatever Grafana
  answers and whether or not the closing retention pass succeeds; a fetched item list is used in increasing
  order of id.\<close>
theorem seed_succeeds:
  assumes "seed_ready E args ws days seedValue profile items mig" "0 < days" "days < 2 ^ 31"
    and "\<forall>i. sw_faults (sv_world E) i = no_faults" "\<forall>h. \<not> sw_ctxHour (sv_world E) h"
    and "sv_markerFaults E 0 = Done" "rng_ok (sv_rng E)" "\<forall>it \<in> set items. text_ok (si_Name it)"
  shows "fst (seed P E args ws) = 0 \<and> sorted (map si_ID items)"
  by (rule seed_live[OF assms])

theorem seed_succeeds_witness:
  "fst (seed pgx_us sample_env [] sample_ws) = 0"
proof -
  have "\<forall>i. sw_faults (sv_world sample_env) i = no_faults" "\<forall>h. \<not> sw_ctxHour (sv_world sample_env) h"
    "sv_markerFaults sample_env 0 = Done" "rng_ok (sv_rng sample_env)"
    by (simp_all add: sample_env_def calm_def rng_zero_ok)
  from seed_succeeds[OF sample_ready _ _ this sample_names, of pgx_us] show ?thesis by simp
qed

theorem seed_marker_contract_witness:
  "\<exists>ws' m. seed pgx_us sample_env [] sample_ws = (0, ws') \<and> GetSeedMarker pgx_us no_faults (ws_db ws') = Inr (Some m)
   \<and> mk_Scale m = 1 \<and> mk_RefUnix m = 1750000000 \<and> mk_SeededAt m = 1750000100 * Second"
proof -
  have "\<forall>i. sw_faults (sv_world sample_env) i = no_faults" "\<forall>h. \<not> sw_ctxHour (sv_world sample_env) h"
    "sv_markerFaults sample_env 0 = Done" "rng_ok (sv_rng sample_env)"
    by (simp_all add: sample_env_def calm_def rng_zero_ok)
  from seed_live[OF sample_ready _ _ this sample_names, of pgx_us] have "fst (seed pgx_us sample_env [] sample_ws) = 0" by simp
  then obtain ws' where run: "seed pgx_us sample_env [] sample_ws = (0, ws')" by (metis prod.collapse)
  have env: "seed_scale sample_env = 1" "time_Unix (sv_refTime sample_env) = 1750000000" "sv_seededAt sample_env = 1750000100 * Second"
    by (simp_all add: seed_scale_def envFloat_def sample_env_def time_Unix_def Second_def)
  have codec: "pg_dec pgx_us (pg_enc pgx_us (1750000100 * Second)) = 1750000100 * Second"
    by (simp add: pgx_us_def Second_def)
  from seed_marker_contract[OF run] env codec run show ?thesis by fastforce
qed

lemma seed_ready_unique:
  assumes "seed_ready E args ws days seedValue profile items mig" "seed_ready E args ws days' seedValue' profile' items' mig'"
  shows "days' = days \<and> seedValue' = seedValue \<and> profile' = profile \<and> items' = items"
  using assms by (auto simp: seed_ready_def)

lemma seed_data_exit:
  assumes "seed_data P E days seedValue scale profile items ws = (c, ws')"
  shows "(c = 0 \<longleftrightarrow> (\<exists>written db1. SeederRun (IngestEventsBatch P) (sv_world E) (sv_rng E) (sv_newPCG E) (sv_cos E)
      (seed_cfg E days seedValue scale) profile items (ws_db ws) = ((written, None), db1)
      \<and> days < 2 ^ 31 \<and> sv_markerFaults E 0 = Done)) \<and> (c = 0 \<or> c = 1)"
  using assms
proof (cases rule: seed_data_cases)
  case (ok written db1 db2 m2 db3 g)
  have "sv_markerFaults E 0 = Done \<and> int4_ok days"
    using ok(3) by (cases rule: UpsertSeedMarker_cases) (simp_all add: seed_record_def)
  with ok(1,4) show ?thesis by (simp add: int4_ok_def seed_generate_def)
next
  case (gen_err written e db1)
  then show ?thesis by (simp add: seed_generate_def)
next
  case (marker_err written db1 db2 m2 e db3)
  have "0 < days" using marker_err(1) by (auto simp: seed_generate_def seed_cfg_def SeederRun_def split: if_splits)
  then have "\<not> (days < 2 ^ 31 \<and> sv_markerFaults E 0 = Done)"
    using marker_err(3) by (auto simp: UpsertSeedMarker_def int4_ok_def seed_record_def)
  with marker_err(4) show ?thesis by simp
qed

text \<open>C32: what the exit code of the seed command says. It is 2 exactly when the flags are rejected; 0 exactly when the inputs
  were fine, the whole generation succeeded, the days fit the marker's 32-bit column and its write was acknowledged; and 1 otherwise. A command that
  stops before the generation has touched neither the tables nor Grafana.\<close>
theorem seed_exit_codes:
  assumes "seed P E args ws = (c, ws')"
  shows "(c = 2 \<longleftrightarrow> seed_flags E args = None)
    \<and> (c = 0 \<longleftrightarrow> (\<exists>days seedValue profile items mig written db1.
         seed_ready E args ws days seedValue profile items mig
         \<and> SeederRun (IngestEventsBatch P) (sv_world E) (sv_rng E) (sv_newPCG E) (sv_cos E)
             (seed_cfg E days seedValue (seed_scale E)) profile items (ws_db ws) = ((written, None), db1)
         \<and> days < 2 ^ 31 \<and> sv_markerFaults E 0 = Done))
    \<and> (c = 0 \<or> c = 1 \<or> c = 2)
    \<and> ((\<nexists>days seedValue profile items mig. seed_ready E args ws days seedValue profile items mig) \<longrightarrow>
         ws_db ws' = ws_db ws \<and> ws_grafana ws' = ws_grafana ws)"
  using assms
proof (cases rule: seed_cases)
  case usage
  then have "\<not> seed_ready E args ws days seedValue profile items mig" for days seedValue profile items mig
    by (auto simp: seed_ready_def seed_flags_def)
  with usage show ?thesis by simp
next
  case (work days seedValue profile items mig)
  have flags: "seed_flags E args \<noteq> None" using work(1) by (auto simp: seed_ready_def seed_flags_def)
  have db: "ws_db (ws\<lparr>ws_mig := mig\<rparr>) = ws_db ws" by simp
  note ex = seed_data_exit[OF work(2), unfolded db]
  have "c = 0 \<longleftrightarrow> (\<exists>days seedValue profile items mig written db1. seed_ready E args ws days seedValue profile items mig
      \<and> SeederRun (IngestEventsBatch P) (sv_world E) (sv_rng E) (sv_newPCG E) (sv_cos E)
          (seed_cfg E days seedValue (seed_scale E)) profile items (ws_db ws) = ((written, None), db1)
      \<and> days < 2 ^ 31 \<and> sv_markerFaults E 0 = Done)"
    using ex work(1) seed_ready_unique[OF work(1)] by blast
  moreover have "c = 0 \<or> c = 1" "c \<noteq> 2" using ex by auto
  ultimately show ?thesis using flags work(1) by blast
qed auto

theorem seed_exit_codes_witness:
  "fst (seed pgx_us sample_env [''--bogus-flag''] sample_ws) = 2"
proof -
  obtain c ws' where run: "seed pgx_us sample_env [''--bogus-flag''] sample_ws = (c, ws')" by fastforce
  have "seed_flags sample_env [''--bogus-flag''] = None" by (simp add: seed_flags_def sample_env_def)
  with seed_exit_codes[OF run] run show ?thesis by simp
qed

text \<open>\<open>before a b xs\<close>: \<open>b\<close> occurs in \<open>xs\<close>, and \<open>a\<close> occurs before its first occurrence.\<close>

fun before :: "'a \<Rightarrow> 'a \<Rightarrow> 'a list \<Rightarrow> bool" where
  "before a b [] = False"
| "before a b (x # xs) = (x \<noteq> b \<and> (if x = a then b \<in> set xs else before a b xs))"

text \<open>The shutdown order of the service, on every path. The exit code is 0 exactly for a clean start, a signal and a
  clean HTTP shutdown. An opened pool is closed exactly once; whenever the background goroutines were started,
  each was cancelled and then awaited before the pool it uses is closed, and the HTTP server was asked to drain
  before that when the service stops on a signal; the tracer is shut down after everything that could still
  emit spans.\<close>
theorem serve_shutdown_order:
  "(fst (serve connectOk migrateOk cause shutdownOk) = 0 \<longleftrightarrow> connectOk \<and> migrateOk \<and> cause = SignalReceived \<and> shutdownOk)
   \<and> count_list (snd (serve connectOk migrateOk cause shutdownOk)) ClosePool
       = count_list (snd (serve connectOk migrateOk cause shutdownOk)) OpenPool
   \<and> (StartIngest \<in> set (snd (serve connectOk migrateOk cause shutdownOk)) \<longrightarrow>
        before RunMigrate StartIngest (snd (serve connectOk migrateOk cause shutdownOk))
        \<and> before CancelIngest WaitIngest (snd (serve connectOk migrateOk cause shutdownOk))
        \<and> before WaitIngest ClosePool (snd (serve connectOk migrateOk cause shutdownOk)))
   \<and> (StartRetention \<in> set (snd (serve connectOk migrateOk cause shutdownOk)) \<longrightarrow>
        before RunMigrate StartRetention (snd (serve connectOk migrateOk cause shutdownOk))
        \<and> before CancelRetention WaitRetention (snd (serve connectOk migrateOk cause shutdownOk))
        \<and> before WaitRetention ClosePool (snd (serve connectOk migrateOk cause shutdownOk)))
   \<and> (connectOk \<and> migrateOk \<and> cause = SignalReceived \<longrightarrow>
        before ShutdownHTTP ClosePool (snd (serve connectOk migrateOk cause shutdownOk)))
   \<and> (connectOk \<longrightarrow> before ClosePool OtelShutdown (snd (serve connectOk migrateOk cause shutdownOk)))"
  by (cases connectOk; cases migrateOk; cases cause; cases shutdownOk)
    (simp_all add: serve_def return_with_def Let_def)

theorem serve_shutdown_order_witness:
  "before WaitIngest ClosePool (snd (serve True True HTTPFailed True)) \<and> fst (serve True True HTTPFailed True) = 1"
proof -
  have "StartIngest \<in> set (snd (serve True True HTTPFailed True))" "fst (serve True True HTTPFailed True) = 1"
    by (simp_all add: serve_def return_with_def Let_def)
  with serve_shutdown_order[of True True HTTPFailed True] show ?thesis by blast
qed

text \<open>The health check and the server agree. Probing the service's own endpoints exits 0 exactly when the
  database ping behind the readiness endpoint succeeds, whatever the store contains and whatever the other endpoints
  would answer; an unreachable server always gives 1; and every unknown subcommand exits 2.\<close>
theorem healthcheck_readiness:
  "healthcheck splitPort e
     (\<lambda>base path. Some (rs_status (fst (ServeHTTP I pingOk \<lparr>rq_method = ''GET'', rq_path = [tl path]\<rparr> s up))))
     = (if pingOk then 0 else 1)
   \<and> healthcheck splitPort e (\<lambda>base path. None) = 1
   \<and> (run serveCode seedCode healthCode (cmd # args) =
        (if cmd = ''serve'' then serveCode else if cmd = ''seed'' then seedCode args
         else if cmd = ''healthcheck'' then healthCode else 2))"
  by (simp add: healthcheck_def ServeHTTP_def handleHealthz_def handleReadyz_def WriteHeader_def run_def)

section \<open>The whole service over time\<close>

text \<open>Activities on the same database: runs of the ingest client, interleaved with any store calls of others, runs of
  the retention job, and seed commands, each with its own configuration and its own script of what the outside does.\<close>

datatype ('d, 'r, 'g) task =
    IngestTask IngestConfig "round list" "store_call list list" ingest_metrics
  | RetentionTask RetentionConfig go_time go_duration faults "retention_input list" retention_metrics
  | SeedTask "('d, 'r, 'g) seed_env" "string list" "'d mig_state" 'g

definition run_task :: "pgx \<Rightarrow> ('d, 'r, 'g) task \<Rightarrow> db \<Rightarrow> db" where
  "run_task P t db =
     (case t of
        IngestTask cfg rs calls m \<Rightarrow> (case IngestRun (shared_ds P) cfg rs ((db, calls), m) of (res, waits, s', m') \<Rightarrow> fst s')
      | RetentionTask cfg start d f ins m \<Rightarrow>
          (case RetentionRun (DeleteEventsOlderThan P) cfg start d f ins (db, m) of (st, db', m') \<Rightarrow> db')
      | SeedTask E args mig g \<Rightarrow> ws_db (snd (seed P E args \<lparr>ws_mig = mig, ws_db = db, ws_grafana = g\<rparr>)))"

definition service_history :: "pgx \<Rightarrow> ('d, 'r, 'g) task list \<Rightarrow> db" where
  "service_history P ts = foldl (\<lambda>db t. run_task P t db) empty_db ts"

lemma db_reachable_marker: "db_reachable P db \<Longrightarrow> UpsertSeedMarker P f m db = (r, db') \<Longrightarrow> db_reachable P db'"
  using db_reachable_ops(4) by (metis snd_conv)

lemma db_reachable_seed:
  assumes "db_reachable P (ws_db ws)" "seed P E args ws = (c, ws')"
  shows "db_reachable P (ws_db ws')"
proof -
  have gen: "db_reachable P db1" if "seed_generate P E days v sc p items (ws_db ws) = (r, db1)" for days v sc p items r db1
  proof -
    obtain ex where s: "store_reachable P \<lparr>m_db = ws_db ws, m_expired = ex\<rparr>" using assms(1) by (auto simp: db_reachable_def)
    have "SeederRun (IngestEventsBatch P) (sv_world E) (sv_rng E) (sv_newPCG E) (sv_cos E) (seed_cfg E days v sc) p items
        (m_db \<lparr>m_db = ws_db ws, m_expired = ex\<rparr>) = (r, db1)" using that by (simp add: seed_generate_def)
    from SeederRun_reachable[OF s this] show ?thesis by (auto simp: db_reachable_def)
  qed
  have ret: "db_reachable P db2" if "db_reachable P db1" "seed_retain P E db1 = (db2, m2)" for db1 db2 m2
    using retention_reach.once_keeps[of P "(db1, zero_retention)"] that by (metis RunOnce_def fst_conv seed_retain_def)
  from assms(2) show ?thesis
  proof (cases rule: seed_cases)
    case work
    from work(2) show ?thesis
      by (cases rule: seed_data_cases) (auto dest: gen ret db_reachable_marker)
  qed (use assms(1) in simp_all)
qed

lemma run_task_reachable:
  assumes "db_reachable P db"
  shows "db_reachable P (run_task P t db)"
proof -
  show ?thesis
  proof (cases t)
    case (IngestTask cfg rs calls m)
    obtain res waits s' m' where "IngestRun (shared_ds P) cfg rs ((db, calls), m) = (res, waits, s', m')" by (metis prod_cases4)
    with shared_run_reachable[OF this] IngestTask assms show ?thesis by (simp add: run_task_def)
  next
    case (RetentionTask cfg start d f ins m)
    obtain st db' m' where "RetentionRun (DeleteEventsOlderThan P) cfg start d f ins (db, m) = (st, db', m')" by (metis prod_cases3)
    with retention_reach.run_keeps[of P "(db, m)" cfg start d f ins] RetentionTask assms show ?thesis
      by (simp add: run_task_def)
  next
    case (SeedTask E args mig g)
    obtain c ws' where "seed P E args \<lparr>ws_mig = mig, ws_db = db, ws_grafana = g\<rparr> = (c, ws')" by fastforce
    with db_reachable_seed[of P "\<lparr>ws_mig = mig, ws_db = db, ws_grafana = g\<rparr>" E args c ws'] SeedTask assms show ?thesis
      by (simp add: run_task_def)
  qed
qed

lemma service_history_reachable: "db_reachable P (service_history P ts)"
proof (induction ts rule: rev_induct)
  case Nil
  show ?case by (simp add: service_history_def db_reachable_empty)
next
  case (snoc t ts)
  then show ?case using run_task_reachable by (simp add: service_history_def)
qed


text \<open>A task during which no retention pass runs.\<close>

fun keeps_all :: "('d, 'r, 'g) task \<Rightarrow> bool" where
  "keeps_all (IngestTask cfg rs calls m) = (\<forall>cs \<in> set calls. \<forall>call \<in> set cs. \<not> expires call)"
| "keeps_all t = False"

lemma run_task_exact:
  assumes "db_exact P db" "keeps_all t"
  shows "db_exact P (run_task P t db)"
proof (cases t)
  case (IngestTask cfg rs calls m)
  obtain res waits s' m' where run: "IngestRun (shared_ds P) cfg rs ((db, calls), m) = (res, waits, s', m')" by (metis prod_cases4)
  with shared_run_exact[OF run] IngestTask assms show ?thesis by (simp add: run_task_def)
qed (use assms in simp_all)

lemma service_history_exact: "\<forall>t \<in> set ts. keeps_all t \<Longrightarrow> db_exact P (service_history P ts)"
proof (induction ts rule: rev_induct)
  case Nil
  show ?case by (simp add: service_history_def db_exact_empty)
next
  case (snoc t ts)
  then show ?case using run_task_exact[of P _ t] by (simp add: service_history_def)
qed

text \<open>A history with one event: the client connects, reconciles an empty snapshot and receives it.\<close>

definition one_event_history :: "(unit, nat, unit) task list" where
  "one_event_history = [IngestTask (IngestConfigFromEnv (\<lambda>_. None) (\<lambda>_. []))
     [\<lparr>ro_ctxErr = False, ro_rand = (\<lambda>n. n - 1), ro_waitCancelled = False,
       ro_cycle = \<lparr>cy_dial = True, cy_list = Some [], cy_now = 0, cy_faults = no_faults, cy_open = True,
         cy_recvs = [RecvEvent created_widget [\<lparr>at_faults = no_faults, at_cancelled = False\<rparr>], RecvEOF]\<rparr>,
       ro_ctxErrAfter = True\<rparr>] [] zero_metrics]"

lemma one_event_history_db:
  "service_history pgx_us one_event_history = event_effect pgx_us (handle_record created_widget ''created'') empty_db"
proof -
  let ?ev = "handle_record created_widget ''created''"
  have rec: "ds_ReconcileSnapshot (shared_ds pgx_us) no_faults [] 0 (empty_db, []) = (Inr (0, 0), empty_db, [])"
    by (simp add: shared_ds_def others_def ReconcileSnapshot_def update_where_def empty_db_def)
  have to: "to_record created_widget = Some ?ev" by (simp add: to_record_def created_widget_def eventTypeNames_def)
  have ing: "ds_IngestEvent (shared_ds pgx_us) no_faults ?ev (empty_db, []) = (Inr True, event_effect pgx_us ?ev empty_db, [])"
    using IngestEvent_no_faults[of ?ev pgx_us empty_db]
    by (simp add: handle_record_def created_widget_def storable_defs shared_ds_def others_def event_fresh_def empty_db_def)
  show ?thesis
    using handleEvent_wellformed[OF to ing]
    by (simp add: service_history_def one_event_history_def run_task_def IngestRun_def cycle_def snapshotReconcile_def
        set_connected_def rec Let_def)
qed

end
