(* ===== verification/Serve.thy ===== *)
theory Serve
  imports Cmd
begin

text \<open>
  \<^verbatim>\<open>serve\<close> as a concurrent program: the main goroutine, statement by statement with its stack of deferred actions,
  beside the ingest goroutine, the retention goroutine, the HTTP server with its requests in flight and the
  signal. Each call of a goroutine to the store is one step. The sequential function \<^const>\<open>serve\<close> is the
  specification of the main goroutine: every complete run executes one of its action sequences. Invariants are proved
  by rule induction over the reachable states.
\<close>

section \<open>State\<close>

datatype main_pc =
    MInit | MConnect | MMigrate | MStartIngest | MStartRetention | MStartHTTP | MSelect
  | MCancelIngest stop_cause | MCancelRetention stop_cause | MWaitIngest stop_cause | MWaitRetention stop_cause
  | MShutdown | MDrain | MReturn int | MExit int

datatype gstate = NotStarted | GRunning | GFinished

datatype http_state = HNone | HListening | HFailed | HClosed

datatype pool_user = UseIngest | UseRetention | UseHandler

text \<open>\<open>v_late\<close> records the uses of the pool after it was closed.\<close>

record serve_state =
  v_pc :: main_pc
  v_defers :: "action list"
  v_trace :: "action list"
  v_db :: db
  v_pool :: bool
  v_ctxDone :: bool
  v_ingestCancel :: bool
  v_retentionCancel :: bool
  v_ingest :: gstate
  v_retention :: gstate
  v_http :: http_state
  v_inflight :: nat
  v_late :: "pool_user list"

definition serve_init :: "db \<Rightarrow> serve_state" where
  "serve_init db = \<lparr>v_pc = MInit, v_defers = [StopSignals], v_trace = [], v_db = db, v_pool = False,
     v_ctxDone = False, v_ingestCancel = False, v_retentionCancel = False, v_ingest = NotStarted,
     v_retention = NotStarted, v_http = HNone, v_inflight = 0, v_late = []\<rparr>"

text \<open>The effect of an action of the main goroutine; \<^verbatim>\<open>stop()\<close> of \<^verbatim>\<open>signal.NotifyContext\<close> also cancels the context.\<close>

fun act_effect :: "action \<Rightarrow> serve_state \<Rightarrow> serve_state" where
  "act_effect OpenPool s = s\<lparr>v_pool := True\<rparr>"
| "act_effect ClosePool s = s\<lparr>v_pool := False\<rparr>"
| "act_effect StartIngest s = s\<lparr>v_ingest := GRunning\<rparr>"
| "act_effect StartRetention s = s\<lparr>v_retention := GRunning\<rparr>"
| "act_effect StartHTTP s = s\<lparr>v_http := HListening\<rparr>"
| "act_effect CancelIngest s = s\<lparr>v_ingestCancel := True\<rparr>"
| "act_effect CancelRetention s = s\<lparr>v_retentionCancel := True\<rparr>"
| "act_effect ShutdownHTTP s = s\<lparr>v_http := HClosed\<rparr>"
| "act_effect StopSignals s = s\<lparr>v_ctxDone := True\<rparr>"
| "act_effect a s = s"

definition act :: "action \<Rightarrow> main_pc \<Rightarrow> serve_state \<Rightarrow> serve_state" where
  "act a pc s = (act_effect a s)\<lparr>v_trace := v_trace s @ [a], v_pc := pc\<rparr>"

definition push_defer :: "action \<Rightarrow> serve_state \<Rightarrow> serve_state" where
  "push_defer a s = s\<lparr>v_defers := a # v_defers s\<rparr>"

definition use_pool :: "pool_user \<Rightarrow> serve_state \<Rightarrow> serve_state" where
  "use_pool u s = (if v_pool s then s else s\<lparr>v_late := v_late s @ [u]\<rparr>)"

definition exited :: "serve_state \<Rightarrow> bool" where
  "exited s \<longleftrightarrow> (\<exists>c. v_pc s = MExit c)"

section \<open>The goroutines\<close>

text \<open>One store call of the ingest client, of the retention job.\<close>

inductive ingest_op :: "pgx \<Rightarrow> db \<Rightarrow> db \<Rightarrow> bool" for P where
  ingest_event: "IngestEvent P f ev db = (r, db') \<Longrightarrow> ingest_op P db db'"
| ingest_snapshot: "ReconcileSnapshot P f items now db = (r, db') \<Longrightarrow> ingest_op P db db'"

inductive retention_op :: "pgx \<Rightarrow> db \<Rightarrow> db \<Rightarrow> bool" for P where
  retain: "DeleteEventsOlderThan P f cutoff db = (r, db') \<Longrightarrow> retention_op P db db'"

text \<open>A call on a closed pool fails and changes nothing.\<close>

definition pool_call :: "(db \<Rightarrow> db \<Rightarrow> bool) \<Rightarrow> pool_user \<Rightarrow> serve_state \<Rightarrow> serve_state \<Rightarrow> bool" where
  "pool_call op u s s' \<longleftrightarrow>
     (if v_pool s then (\<exists>db'. op (v_db s) db' \<and> s' = s\<lparr>v_db := db'\<rparr>) else s' = use_pool u s)"

inductive main_step :: "serve_state \<Rightarrow> serve_state \<Rightarrow> bool" where
  otel: "v_pc s = MInit \<Longrightarrow> main_step s (push_defer OtelShutdown (act OtelInit MConnect s))"
| connect_ok: "v_pc s = MConnect \<Longrightarrow> main_step s (push_defer ClosePool (act OpenPool MMigrate s))"
| connect_err: "v_pc s = MConnect \<Longrightarrow> main_step s (s\<lparr>v_pc := MReturn 1\<rparr>)"
| migrate_ok: "v_pc s = MMigrate \<Longrightarrow> main_step s (act RunMigrate MStartIngest s)"
| migrate_err: "v_pc s = MMigrate \<Longrightarrow> main_step s (act RunMigrate (MReturn 1) s)"
| start_ingest: "v_pc s = MStartIngest \<Longrightarrow> main_step s (act StartIngest MStartRetention (push_defer CancelIngest s))"
| start_retention: "v_pc s = MStartRetention \<Longrightarrow> main_step s (act StartRetention MStartHTTP (push_defer CancelRetention s))"
| start_http: "v_pc s = MStartHTTP \<Longrightarrow> main_step s (act StartHTTP MSelect s)"
| select_signal: "v_pc s = MSelect \<Longrightarrow> v_ctxDone s \<Longrightarrow> main_step s (s\<lparr>v_pc := MCancelIngest SignalReceived\<rparr>)"
| select_err: "v_pc s = MSelect \<Longrightarrow> v_http s = HFailed \<Longrightarrow> main_step s (s\<lparr>v_pc := MCancelIngest HTTPFailed\<rparr>)"
| cancel_ingest: "v_pc s = MCancelIngest c \<Longrightarrow> main_step s (act CancelIngest (MCancelRetention c) s)"
| cancel_retention: "v_pc s = MCancelRetention c \<Longrightarrow> main_step s (act CancelRetention (MWaitIngest c) s)"
| wait_ingest: "v_pc s = MWaitIngest c \<Longrightarrow> v_ingest s = GFinished \<Longrightarrow> main_step s (act WaitIngest (MWaitRetention c) s)"
| wait_retention: "v_pc s = MWaitRetention c \<Longrightarrow> v_retention s = GFinished \<Longrightarrow>
    main_step s (act WaitRetention (if c = HTTPFailed then MReturn 1 else MShutdown) s)"
| shutdown: "v_pc s = MShutdown \<Longrightarrow> main_step s (act ShutdownHTTP MDrain s)"
| drained: "v_pc s = MDrain \<Longrightarrow> v_inflight s = 0 \<Longrightarrow> main_step s (s\<lparr>v_pc := MReturn 0\<rparr>)"
| drain_timeout: "v_pc s = MDrain \<Longrightarrow> main_step s (s\<lparr>v_pc := MReturn 1\<rparr>)"
| run_defer: "v_pc s = MReturn c \<Longrightarrow> v_defers s = a # ds \<Longrightarrow> main_step s ((act a (MReturn c) s)\<lparr>v_defers := ds\<rparr>)"
| exit: "v_pc s = MReturn c \<Longrightarrow> v_defers s = [] \<Longrightarrow> main_step s (s\<lparr>v_pc := MExit c\<rparr>)"

text \<open>The other goroutines and the outside; they end with the process.\<close>

inductive side_step :: "pgx \<Rightarrow> serve_state \<Rightarrow> serve_state \<Rightarrow> bool" for P where
  signal: "side_step P s (s\<lparr>v_ctxDone := True\<rparr>)"
| ingest_call: "v_ingest s = GRunning \<Longrightarrow> pool_call (ingest_op P) UseIngest s s' \<Longrightarrow> side_step P s s'"
| ingest_return: "v_ingest s = GRunning \<Longrightarrow> v_ctxDone s \<or> v_ingestCancel s \<Longrightarrow> side_step P s (s\<lparr>v_ingest := GFinished\<rparr>)"
| retention_call: "v_retention s = GRunning \<Longrightarrow> pool_call (retention_op P) UseRetention s s' \<Longrightarrow> side_step P s s'"
| retention_return: "v_retention s = GRunning \<Longrightarrow> v_ctxDone s \<or> v_retentionCancel s \<Longrightarrow>
    side_step P s (s\<lparr>v_retention := GFinished\<rparr>)"
| http_error: "v_http s = HListening \<Longrightarrow> side_step P s (s\<lparr>v_http := HFailed\<rparr>)"
| request: "v_http s = HListening \<Longrightarrow> side_step P s (s\<lparr>v_inflight := v_inflight s + 1\<rparr>)"
| handler_read: "0 < v_inflight s \<Longrightarrow> side_step P s (use_pool UseHandler s)"
| handler_end: "0 < v_inflight s \<Longrightarrow> side_step P s (s\<lparr>v_inflight := v_inflight s - 1\<rparr>)"

inductive serve_step :: "pgx \<Rightarrow> serve_state \<Rightarrow> serve_state \<Rightarrow> bool" for P where
  main: "main_step s s' \<Longrightarrow> serve_step P s s'"
| side: "\<not> exited s \<Longrightarrow> side_step P s s' \<Longrightarrow> serve_step P s s'"

inductive serve_reachable :: "pgx \<Rightarrow> db \<Rightarrow> serve_state \<Rightarrow> bool" for P db where
  init: "serve_reachable P db (serve_init db)"
| step: "serve_reachable P db s \<Longrightarrow> serve_step P s s' \<Longrightarrow> serve_reachable P db s'"

inductive_cases serve_stepE: "serve_step P s s'"
inductive_cases side_stepE: "side_step P s s'"
inductive_cases ingest_opE: "ingest_op P db db'"
inductive_cases retention_opE: "retention_op P db db'"

section \<open>The main goroutine follows its specification\<close>

abbreviation d_base :: "action list" where "d_base \<equiv> [OtelShutdown, StopSignals]"
abbreviation d_pool :: "action list" where "d_pool \<equiv> ClosePool # d_base"
abbreviation d_full :: "action list" where "d_full \<equiv> CancelRetention # CancelIngest # d_pool"
abbreviation t_migrated :: "action list" where "t_migrated \<equiv> [OtelInit, OpenPool, RunMigrate]"
abbreviation t_started :: "action list" where
  "t_started \<equiv> [OtelInit, OpenPool, RunMigrate, StartIngest, StartRetention, StartHTTP]"
abbreviation t_stopped :: "action list" where
  "t_stopped \<equiv> t_started @ [CancelIngest, CancelRetention, WaitIngest, WaitRetention]"

lemma serve_simps:
  "serve False migrateOk cause shutdownOk = (1, OtelInit # d_base)"
  "serve True False cause shutdownOk = (1, t_migrated @ d_pool)"
  "serve True True HTTPFailed shutdownOk = (1, t_stopped @ d_full)"
  "serve True True SignalReceived shutdownOk = (if shutdownOk then 0 else 1, t_stopped @ ShutdownHTTP # d_full)"
  by (simp_all add: serve_def return_with_def Let_def)

text \<open>Where the main goroutine is, what it has executed and what it has deferred.\<close>

fun pc_inv :: "main_pc \<Rightarrow> action list \<Rightarrow> action list \<Rightarrow> bool" where
  "pc_inv MInit t d = (t = [] \<and> d = [StopSignals])"
| "pc_inv MConnect t d = (t = [OtelInit] \<and> d = d_base)"
| "pc_inv MMigrate t d = (t = [OtelInit, OpenPool] \<and> d = d_pool)"
| "pc_inv MStartIngest t d = (t = t_migrated \<and> d = d_pool)"
| "pc_inv MStartRetention t d = (t = t_migrated @ [StartIngest] \<and> d = CancelIngest # d_pool)"
| "pc_inv MStartHTTP t d = (t = t_migrated @ [StartIngest, StartRetention] \<and> d = d_full)"
| "pc_inv MSelect t d = (t = t_started \<and> d = d_full)"
| "pc_inv (MCancelIngest c) t d = (t = t_started \<and> d = d_full)"
| "pc_inv (MCancelRetention c) t d = (t = t_started @ [CancelIngest] \<and> d = d_full)"
| "pc_inv (MWaitIngest c) t d = (t = t_started @ [CancelIngest, CancelRetention] \<and> d = d_full)"
| "pc_inv (MWaitRetention c) t d = (t = t_started @ [CancelIngest, CancelRetention, WaitIngest] \<and> d = d_full)"
| "pc_inv MShutdown t d = (t = t_stopped \<and> d = d_full)"
| "pc_inv MDrain t d = (t = t_stopped @ [ShutdownHTTP] \<and> d = d_full)"
| "pc_inv (MReturn c) t d = ((\<exists>connectOk migrateOk cause shutdownOk. serve connectOk migrateOk cause shutdownOk = (c, t @ d))
    \<and> length d \<le> 5 \<and> set d \<subseteq> set d_full)"
| "pc_inv (MExit c) t d = ((\<exists>connectOk migrateOk cause shutdownOk. serve connectOk migrateOk cause shutdownOk = (c, t)) \<and> d = [])"

abbreviation at_inv :: "serve_state \<Rightarrow> bool" where
  "at_inv s \<equiv> pc_inv (v_pc s) (v_trace s) (v_defers s)"

lemma act_effect_frame [simp]:
  "v_pc (act_effect a s) = v_pc s" "v_trace (act_effect a s) = v_trace s" "v_defers (act_effect a s) = v_defers s"
  "v_late (act_effect a s) = v_late s" "v_inflight (act_effect a s) = v_inflight s" "v_db (act_effect a s) = v_db s"
  by (cases a; simp)+

lemma act_sel [simp]:
  "v_pc (act a pc s) = pc" "v_trace (act a pc s) = v_trace s @ [a]" "v_defers (act a pc s) = v_defers s"
  "v_late (act a pc s) = v_late s" "v_inflight (act a pc s) = v_inflight s" "v_db (act a pc s) = v_db s"
  by (simp_all add: act_def)

lemma push_defer_sel [simp]:
  "v_pc (push_defer a s) = v_pc s" "v_trace (push_defer a s) = v_trace s" "v_defers (push_defer a s) = a # v_defers s"
  "v_late (push_defer a s) = v_late s" "v_inflight (push_defer a s) = v_inflight s" "v_db (push_defer a s) = v_db s"
  by (simp_all add: push_defer_def)

lemma main_step_at:
  assumes "main_step s s'" "at_inv s"
  shows "at_inv s'"
  using assms
proof cases
  case connect_err
  then show ?thesis using assms(2) serve_simps(1) by (auto intro!: exI[of _ False])
next
  case migrate_err
  then show ?thesis using assms(2) serve_simps(2) by simp blast
next
  case (wait_retention c)
  show ?thesis
  proof (cases c)
    case HTTPFailed
    then show ?thesis using wait_retention assms(2) serve_simps(3)
      by (auto intro!: exI[of _ True] exI[of _ HTTPFailed])
  qed (use wait_retention assms(2) in auto)
next
  case drained
  then show ?thesis using assms(2) serve_simps(4)[of True]
    by (auto intro!: exI[of _ True] exI[of _ SignalReceived])
next
  case drain_timeout
  then show ?thesis using assms(2) serve_simps(4)[of False]
    by (simp) (metis (full_types))
qed (use assms(2) in auto)

lemma side_step_frame:
  "side_step P s s' \<Longrightarrow> v_pc s' = v_pc s \<and> v_trace s' = v_trace s \<and> v_defers s' = v_defers s \<and> v_pool s' = v_pool s"
  by (auto elim!: side_stepE simp: pool_call_def use_pool_def split: if_splits)

lemma serve_step_at: "serve_step P s s' \<Longrightarrow> at_inv s \<Longrightarrow> at_inv s'"
  by (auto elim!: serve_stepE dest: main_step_at side_step_frame)

lemma reachable_at: "serve_reachable P db s \<Longrightarrow> at_inv s"
  by (induction rule: serve_reachable.induct) (auto simp: serve_init_def intro: serve_step_at)

section \<open>Resources\<close>

text \<open>Orders that every beginning of a run respects.\<close>

definition ordered :: "action list \<Rightarrow> bool" where
  "ordered t \<longleftrightarrow>
     (StartIngest \<in> set t \<or> StartRetention \<in> set t \<or> StartHTTP \<in> set t \<longrightarrow> OpenPool \<in> set t) \<and>
     (ClosePool \<in> set t \<and> StartIngest \<in> set t \<longrightarrow> WaitIngest \<in> set t) \<and>
     (ClosePool \<in> set t \<and> StartRetention \<in> set t \<longrightarrow> WaitRetention \<in> set t)"

lemma serve_prefix_ordered:
  assumes "serve connectOk migrateOk cause shutdownOk = (c, t @ d)"
  shows "ordered t"
proof -
  have "snd (serve connectOk migrateOk cause shutdownOk)
      \<in> {OtelInit # d_base, t_migrated @ d_pool, t_stopped @ d_full, t_stopped @ ShutdownHTTP # d_full}"
    by (cases connectOk; cases migrateOk; cases cause) (simp_all add: serve_simps)
  moreover have "prefix t (snd (serve connectOk migrateOk cause shutdownOk))" using assms by simp
  ultimately show ?thesis by (auto simp: prefix_Cons ordered_def)
qed

lemma at_inv_ordered: "at_inv s \<Longrightarrow> ordered (v_trace s)"
proof (cases "v_pc s")
  case (MReturn c)
  then show "at_inv s \<Longrightarrow> ordered (v_trace s)" by (auto intro: serve_prefix_ordered)
next
  case (MExit c)
  assume "at_inv s"
  then obtain a b e f where "serve a b e f = (c, v_trace s @ [])" using MExit by auto
  then show ?thesis by (rule serve_prefix_ordered)
qed (auto simp: ordered_def)

lemma at_inv_closed:
  "at_inv s \<Longrightarrow> ClosePool \<in> set (v_trace s) \<Longrightarrow> (\<exists>c. v_pc s = MReturn c \<or> v_pc s = MExit c)"
  by (cases "v_pc s") auto

definition res_inv :: "serve_state \<Rightarrow> bool" where
  "res_inv s \<longleftrightarrow>
     (v_pool s \<longleftrightarrow> OpenPool \<in> set (v_trace s) \<and> ClosePool \<notin> set (v_trace s)) \<and>
     (v_ingest s = NotStarted \<longleftrightarrow> StartIngest \<notin> set (v_trace s)) \<and>
     (WaitIngest \<in> set (v_trace s) \<longrightarrow> v_ingest s = GFinished) \<and>
     (v_retention s = NotStarted \<longleftrightarrow> StartRetention \<notin> set (v_trace s)) \<and>
     (WaitRetention \<in> set (v_trace s) \<longrightarrow> v_retention s = GFinished) \<and>
     (CancelIngest \<in> set (v_trace s) \<longrightarrow> v_ingestCancel s) \<and>
     (CancelRetention \<in> set (v_trace s) \<longrightarrow> v_retentionCancel s) \<and>
     (v_http s = HNone \<longleftrightarrow> StartHTTP \<notin> set (v_trace s)) \<and>
     (ShutdownHTTP \<in> set (v_trace s) \<longrightarrow> v_http s = HClosed) \<and>
     (0 < v_inflight s \<longrightarrow> StartHTTP \<in> set (v_trace s)) \<and>
     (v_pc s = MReturn 0 \<or> v_pc s = MExit 0 \<longrightarrow> v_inflight s = 0 \<and> v_http s = HClosed) \<and>
     set (v_late s) \<subseteq> {UseHandler} \<and>
     (v_late s \<noteq> [] \<longrightarrow> (\<exists>c. c \<noteq> 0 \<and> (v_pc s = MReturn c \<or> v_pc s = MExit c)))"

lemma res_invD:
  assumes "res_inv s"
  shows "v_pool s \<longleftrightarrow> OpenPool \<in> set (v_trace s) \<and> ClosePool \<notin> set (v_trace s)"
    "v_ingest s = NotStarted \<longleftrightarrow> StartIngest \<notin> set (v_trace s)"
    "WaitIngest \<in> set (v_trace s) \<Longrightarrow> v_ingest s = GFinished"
    "v_retention s = NotStarted \<longleftrightarrow> StartRetention \<notin> set (v_trace s)"
    "WaitRetention \<in> set (v_trace s) \<Longrightarrow> v_retention s = GFinished"
    "0 < v_inflight s \<Longrightarrow> StartHTTP \<in> set (v_trace s)"
    "v_pc s = MReturn 0 \<or> v_pc s = MExit 0 \<Longrightarrow> v_inflight s = 0"
    "set (v_late s) \<subseteq> {UseHandler}"
    "v_late s \<noteq> [] \<Longrightarrow> \<exists>c. c \<noteq> 0 \<and> (v_pc s = MReturn c \<or> v_pc s = MExit c)"
    "CancelIngest \<in> set (v_trace s) \<Longrightarrow> v_ingestCancel s" "CancelRetention \<in> set (v_trace s) \<Longrightarrow> v_retentionCancel s"
  using assms unfolding res_inv_def by blast+

lemma main_step_res:
  assumes "main_step s s'" "at_inv s" "res_inv s"
  shows "res_inv s'"
  using assms(1)
proof cases
  case (run_defer c a ds)
  then have "a \<in> {CancelRetention, CancelIngest, ClosePool, OtelShutdown, StopSignals}" using assms(2) by auto
  then show ?thesis using run_defer assms(3) unfolding res_inv_def by (elim insertE emptyE) (simp_all add: act_def)
qed (use assms(2,3) in \<open>simp_all add: res_inv_def act_def push_defer_def split: if_splits\<close>)

lemma running_pool:
  assumes "at_inv s" "res_inv s" "v_ingest s = GRunning \<or> v_retention s = GRunning"
  shows "v_pool s"
proof -
  have "StartIngest \<in> set (v_trace s) \<or> StartRetention \<in> set (v_trace s)"
    using assms(3) res_invD(2,4)[OF assms(2)] by auto
  moreover have "ClosePool \<notin> set (v_trace s)"
  proof
    assume "ClosePool \<in> set (v_trace s)"
    then show False
      using assms(3) at_inv_ordered[OF assms(1)] res_invD(2-5)[OF assms(2)] unfolding ordered_def by force
  qed
  ultimately show ?thesis using at_inv_ordered[OF assms(1)] res_invD(1)[OF assms(2)] unfolding ordered_def by blast
qed

lemma handler_closed:
  assumes "at_inv s" "res_inv s" "0 < v_inflight s" "\<not> v_pool s" "\<not> exited s"
  shows "\<exists>c. c \<noteq> 0 \<and> v_pc s = MReturn c"
proof -
  have "ClosePool \<in> set (v_trace s)"
    using at_inv_ordered[OF assms(1)] res_invD(1)[OF assms(2)] res_invD(6)[OF assms(2,3)] assms(4) unfolding ordered_def by blast
  then obtain c where c: "v_pc s = MReturn c" using at_inv_closed[OF assms(1)] assms(5) by (auto simp: exited_def)
  then show ?thesis using res_invD(7)[OF assms(2)] assms(3) by fastforce
qed

lemma side_step_res:
  assumes "side_step P s s'" "at_inv s" "res_inv s" "\<not> exited s"
  shows "res_inv s'"
  using assms(1)
proof cases
  case ingest_call
  then have "\<exists>db'. s' = s\<lparr>v_db := db'\<rparr>" using running_pool[OF assms(2,3)] by (auto simp: pool_call_def)
  then show ?thesis using assms(3) unfolding res_inv_def by (elim exE) simp
next
  case retention_call
  then have "\<exists>db'. s' = s\<lparr>v_db := db'\<rparr>" using running_pool[OF assms(2,3)] by (auto simp: pool_call_def)
  then show ?thesis using assms(3) unfolding res_inv_def by (elim exE) simp
next
  case handler_read
  show ?thesis
  proof (cases "v_pool s")
    case True
    then show ?thesis using handler_read assms(3) by (simp add: use_pool_def)
  next
    case False
    from handler_closed[OF assms(2,3) handler_read(2) this assms(4)] show ?thesis
      using False handler_read assms(3) by (elim exE) (simp add: res_inv_def use_pool_def)
  qed
qed (use assms(3) in \<open>simp_all add: res_inv_def\<close>)

lemma reachable_res: "serve_reachable P db s \<Longrightarrow> res_inv s"
proof (induction rule: serve_reachable.induct)
  case init
  show ?case by (simp add: res_inv_def serve_init_def)
next
  case (step s s')
  note at = reachable_at[OF step.hyps(1)]
  from step.hyps(2) show ?case
    by cases (use main_step_res side_step_res step.IH at in blast)+
qed

section \<open>Progress\<close>









section \<open>The database\<close>

lemma ingest_op_reachable: "ingest_op P db db' \<Longrightarrow> db_reachable P db \<Longrightarrow> db_reachable P db'"
  by (auto elim!: ingest_opE) (metis db_reachable_ops(1,3) snd_conv)+

lemma retention_op_reachable: "retention_op P db db' \<Longrightarrow> db_reachable P db \<Longrightarrow> db_reachable P db'"
  by (auto elim!: retention_opE) (metis db_reachable_ops(5) snd_conv)

lemma serve_step_db:
  assumes "serve_step P s s'" "db_reachable P (v_db s)"
  shows "db_reachable P (v_db s')"
  using assms(1)
proof cases
  case main
  then show ?thesis using assms(2) by (cases rule: main_step.cases) simp_all
next
  case side
  from side(2) show ?thesis
    by (cases rule: side_step.cases)
      (use assms(2) in \<open>auto simp: pool_call_def use_pool_def intro: ingest_op_reachable retention_op_reachable split: if_splits\<close>)
qed

lemma reachable_db: "serve_reachable P db s \<Longrightarrow> db_reachable P db \<Longrightarrow> db_reachable P (v_db s)"
  by (induction rule: serve_reachable.induct) (auto simp: serve_init_def intro: serve_step_db)

section \<open>The goroutines are runs of the clients\<close>

lemma ingest_run_ops:
  assumes "IngestRun (store_ds P) cfg rs (db, m) = (res, waits, db', m')"
  shows "(ingest_op P)\<^sup>*\<^sup>* db db'"
proof -
  have "(ingest_op P)\<^sup>*\<^sup>* db (snd (IngestEvent P f ev s))" if "(ingest_op P)\<^sup>*\<^sup>* db s" for f ev s
    using that ingest_event[of P f ev s "fst (IngestEvent P f ev s)"] by (simp add: rtranclp.rtrancl_into_rtrancl)
  moreover have "(ingest_op P)\<^sup>*\<^sup>* db (snd (ReconcileSnapshot P f items now s))" if "(ingest_op P)\<^sup>*\<^sup>* db s" for f items now s
    using that ingest_snapshot[of P f items now s "fst (ReconcileSnapshot P f items now s)"]
    by (simp add: rtranclp.rtrancl_into_rtrancl)
  ultimately have "ingest_invariant (store_ds P) (\<lambda>s. (ingest_op P)\<^sup>*\<^sup>* db s) (\<lambda>_. True) (\<lambda>_. True)"
    by unfold_locales simp_all
  from ingest_invariant.run_keeps[OF this assms[unfolded IngestRun_def]] show ?thesis by simp
qed

lemma runOnce_op: "retention_op P (fst sm) (fst (runOnce (DeleteEventsOlderThan P) cfg start d f sm))"
  by (cases "DeleteEventsOlderThan P f (retention_cutoff cfg start) (fst sm)")
    (auto simp: runOnce_def Let_def case_prod_beta intro: retain split: sum.split)

lemma retention_loop_ops: "(retention_op P)\<^sup>*\<^sup>* (fst sm) (fst (snd (retention_loop (DeleteEventsOlderThan P) cfg ins sm)))"
proof (induction ins arbitrary: sm)
  case (Cons i ins)
  show ?case
  proof (cases i)
    case (Tick t d f)
    then show ?thesis using Cons[of "runOnce (DeleteEventsOlderThan P) cfg t d f sm"] runOnce_op[of P sm cfg t d f]
      by (simp add: converse_rtranclp_into_rtranclp)
  qed simp
qed simp

lemma retention_run_ops:
  "(retention_op P)\<^sup>*\<^sup>* (fst sm) (fst (snd (RetentionRun (DeleteEventsOlderThan P) cfg start d f ins sm)))"
  using runOnce_op[of P sm cfg start d f] retention_loop_ops[of P "runOnce (DeleteEventsOlderThan P) cfg start d f sm" cfg ins]
  by (auto simp: RetentionRun_def Let_def intro: converse_rtranclp_into_rtranclp)

section \<open>Properties\<close>


text \<open>C5: nobody uses a closed pool. In every reachable state of the service neither the ingest nor the retention goroutine
  has used the pool after it was closed; once it is closed both have returned; and when the process exits with code 0 no
  request is in flight and no handler has met a closed pool either.\<close>
theorem serve_pool_safety:
  assumes "serve_reachable P db s"
  shows "UseIngest \<notin> set (v_late s) \<and> UseRetention \<notin> set (v_late s)
    \<and> (ClosePool \<in> set (v_trace s) \<longrightarrow> v_ingest s \<noteq> GRunning \<and> v_retention s \<noteq> GRunning)
    \<and> (v_pc s = MExit 0 \<longrightarrow> v_inflight s = 0 \<and> v_late s = [])"
proof -
  note at = reachable_at[OF assms] and res = reachable_res[OF assms]
  have "v_ingest s \<noteq> GRunning \<and> v_retention s \<noteq> GRunning" if "ClosePool \<in> set (v_trace s)"
    using running_pool[OF at res] res_invD(1)[OF res] that by blast
  moreover have "v_inflight s = 0 \<and> v_late s = []" if "v_pc s = MExit 0"
    using res_invD(7,9)[OF res] that by force
  ultimately show ?thesis using res_invD(8)[OF res] by auto
qed


text \<open>The books balance while the goroutines interleave. Started on a database that store operations have built, in every
  state of the service, at any point between two store calls of its goroutines and with any faults, the tables are well
  formed and are those of a serial sequence of store operations in whose ledger every bucket counts exactly the stored
  events and those that retention passes of the sequence removed; and the two goroutines do nothing but what the verified
  clients do: every run of the ingest client and of the retention job is a sequence of such calls.\<close>
theorem serve_interleaving_accounting:
  assumes "codec_ok P" "db_reachable P db" "serve_reachable P db s"
  shows "db_wf (v_db s)
    \<and> (\<exists>l. store_reachable P l \<and> m_db l = v_db s \<and> (\<forall>k. 0 \<le> m_expired l k \<and>
         bucket_count (event_buckets (v_db s)) k = events_in (item_events (v_db s)) k + m_expired l k))
    \<and> (\<forall>cfg rs m. (ingest_op P)\<^sup>*\<^sup>* (v_db s) (fst (snd (snd (IngestRun (store_ds P) cfg rs (v_db s, m))))))
    \<and> (\<forall>cfg start d f ins m. (retention_op P)\<^sup>*\<^sup>* (v_db s)
         (fst (snd (RetentionRun (DeleteEventsOlderThan P) cfg start d f ins (v_db s, m)))))"
proof -
  have "(ingest_op P)\<^sup>*\<^sup>* (v_db s) (fst (snd (snd (IngestRun (store_ds P) cfg rs (v_db s, m)))))" for cfg rs m
  proof -
    obtain res waits db' m' where "IngestRun (store_ds P) cfg rs (v_db s, m) = (res, waits, db', m')" by (metis prod_cases4)
    with ingest_run_ops[OF this] show ?thesis by simp
  qed
  moreover have "(retention_op P)\<^sup>*\<^sup>* (v_db s) (fst (snd (RetentionRun (DeleteEventsOlderThan P) cfg start d f ins (v_db s, m))))"
    for cfg start d f ins m
    using retention_run_ops[of P "(v_db s, m)" cfg start d f ins] by simp
  ultimately show ?thesis using db_reachable_invariant[OF assms(1) reachable_db[OF assms(3,2)]]
    db_reachable_ledger[OF assms(1) reachable_db[OF assms(3,2)]] by blast
qed

text \<open>A scheduler for the witnesses: everything succeeds, and the signal arrives when the service is up.\<close>

definition drive :: "serve_state \<Rightarrow> serve_state" where
  "drive s =
     (case v_pc s of
        MInit \<Rightarrow> push_defer OtelShutdown (act OtelInit MConnect s)
      | MConnect \<Rightarrow> push_defer ClosePool (act OpenPool MMigrate s)
      | MMigrate \<Rightarrow> act RunMigrate MStartIngest s
      | MStartIngest \<Rightarrow> act StartIngest MStartRetention (push_defer CancelIngest s)
      | MStartRetention \<Rightarrow> act StartRetention MStartHTTP (push_defer CancelRetention s)
      | MStartHTTP \<Rightarrow> act StartHTTP MSelect s
      | MSelect \<Rightarrow> if v_ctxDone s then s\<lparr>v_pc := MCancelIngest SignalReceived\<rparr> else s\<lparr>v_ctxDone := True\<rparr>
      | MCancelIngest c \<Rightarrow> act CancelIngest (MCancelRetention c) s
      | MCancelRetention c \<Rightarrow> act CancelRetention (MWaitIngest c) s
      | MWaitIngest c \<Rightarrow>
          if v_ingest s = GFinished then act WaitIngest (MWaitRetention c) s
          else if v_ingest s = GRunning \<and> v_ctxDone s then s\<lparr>v_ingest := GFinished\<rparr> else s
      | MWaitRetention c \<Rightarrow>
          if v_retention s = GFinished then act WaitRetention (if c = HTTPFailed then MReturn 1 else MShutdown) s
          else if v_retention s = GRunning \<and> v_ctxDone s then s\<lparr>v_retention := GFinished\<rparr> else s
      | MShutdown \<Rightarrow> act ShutdownHTTP MDrain s
      | MDrain \<Rightarrow> if v_inflight s = 0 then s\<lparr>v_pc := MReturn 0\<rparr> else s
      | MReturn c \<Rightarrow>
          (case v_defers s of [] \<Rightarrow> s\<lparr>v_pc := MExit c\<rparr> | a # ds \<Rightarrow> (act a (MReturn c) s)\<lparr>v_defers := ds\<rparr>)
      | MExit c \<Rightarrow> s)"

lemma drive_step: "drive s = s \<or> serve_step P s (drive s)"
proof (cases "v_pc s")
  case MSelect
  then have "\<not> exited s" by (simp add: exited_def)
  with MSelect show ?thesis
    using serve_step.main[OF select_signal[OF MSelect]] serve_step.side[OF _ signal[of P s]] by (auto simp: drive_def)
next
  case (MWaitIngest c)
  then have "\<not> exited s" by (simp add: exited_def)
  with MWaitIngest show ?thesis
    using serve_step.main[OF wait_ingest[OF MWaitIngest]] serve_step.side[OF _ ingest_return[of s P]] by (auto simp: drive_def)
next
  case (MWaitRetention c)
  then have "\<not> exited s" by (simp add: exited_def)
  with MWaitRetention show ?thesis
    using serve_step.main[OF wait_retention[OF MWaitRetention]] serve_step.side[OF _ retention_return[of s P]] by (auto simp: drive_def)
next
  case (MReturn c)
  then show ?thesis
    using serve_step.main[OF exit[OF MReturn]] serve_step.main[OF run_defer[OF MReturn]]
    by (cases "v_defers s") (auto simp: drive_def)
qed (auto simp: drive_def intro: serve_step.main main_step.intros)

lemma drive_reachable: "serve_reachable P db ((drive ^^ n) (serve_init db))"
proof (induction n)
  case (Suc n)
  then show ?case using drive_step[of "(drive ^^ n) (serve_init db)" P] serve_reachable.step by fastforce
qed (simp add: serve_reachable.init)

definition clean_exit :: serve_state where
  "clean_exit = (drive ^^ 24) (serve_init empty_db)"

lemma clean_exit_eval:
  "v_pc clean_exit = MExit 0" "ClosePool \<in> set (v_trace clean_exit)"
  by (simp_all add: clean_exit_def serve_init_def eval_nat_numeral funpow_Suc_right drive_def act_def push_defer_def
      del: funpow.simps(2))

lemma clean_exit_reachable: "serve_reachable P empty_db clean_exit"
  unfolding clean_exit_def by (rule drive_reachable)


theorem serve_pool_safety_witness:
  "v_pc clean_exit = MExit 0 \<and> v_late clean_exit = [] \<and> v_ingest clean_exit \<noteq> GRunning"
  using serve_pool_safety[OF clean_exit_reachable[of pgx_us]] clean_exit_eval by blast


theorem serve_interleaving_accounting_witness:
  "db_wf (v_db clean_exit)"
  using serve_interleaving_accounting[OF codec_ok_us db_reachable_empty clean_exit_reachable] by blast

end
