(* ===== verification/Telemetry.thy ===== *)
theory Telemetry
  imports Go_Stdlib
begin

text \<open>
  \<^verbatim>\<open>internal/otelsetup\<close>, \<^verbatim>\<open>internal/ingest/trace.go\<close> and \<^verbatim>\<open>internal/logging\<close>: the global propagator, the injection of
  the trace context into outgoing gRPC metadata, and the log handler that adds the trace id.

  The metadata of a context is a Go map, so it is an object in a heap and the injection is verified not to write to an
  object somebody else holds. gRPC's \<^verbatim>\<open>metadata\<close> package, OpenTelemetry's propagators and span contexts are parameters;
  \<open>md_ok\<close> is what the \<^verbatim>\<open>metadata\<close> package documents. \<^verbatim>\<open>log/slog\<close> is modelled: a JSON handler with its open groups
  and preformatted attributes, and the interface \<^verbatim>\<open>slog.Handler\<close> as a datatype of the implementations the program has.
\<close>

section \<open>Global telemetry state\<close>

text \<open>A propagator is the list of header assignments it makes through a carrier, for a context.\<close>

type_synonym 'c propagator = "'c \<Rightarrow> (string \<times> string) list"

record 'c otel_globals =
  og_propagator :: "'c propagator"
  og_provider :: "(string \<times> string) list option"

text \<open>\<open>compose\<close> is \<^verbatim>\<open>NewCompositeTextMapPropagator\<close>, documented to inject with each of its propagators in turn.\<close>

definition compose_ok :: "('c propagator list \<Rightarrow> 'c propagator) \<Rightarrow> bool" where
  "compose_ok compose \<longleftrightarrow> (\<forall>ps c. compose ps c = concat (map (\<lambda>p. p c) ps))"

definition otel_Init ::
  "('c propagator list \<Rightarrow> 'c propagator) \<Rightarrow> 'c propagator \<Rightarrow> 'c propagator \<Rightarrow> 'c otel_globals \<Rightarrow> 'c otel_globals" where
  "otel_Init compose traceContext baggage g =
     (let g1 = g\<lparr>og_propagator := compose [traceContext, baggage]\<rparr>;
          res = [(''service.name'', ''analytics'')]
      in g1\<lparr>og_provider := Some res\<rparr>)"

section \<open>Trace propagation\<close>

text \<open>The operations of \<^verbatim>\<open>metadata.MD\<close> on the contents of a map.\<close>

record 'md md_ops =
  md_Get :: "string \<Rightarrow> 'md \<Rightarrow> string list"
  md_Set :: "string \<Rightarrow> string \<Rightarrow> 'md \<Rightarrow> 'md"
  md_Copy :: "'md \<Rightarrow> 'md"
  md_New :: 'md

definition lower_char :: "char \<Rightarrow> char" where
  "lower_char c = (let n = (of_char c :: nat) in if 65 \<le> n \<and> n \<le> 90 then char_of (n + 32) else c)"

definition ToLower :: "string \<Rightarrow> string" where
  "ToLower s = map lower_char s"

text \<open>Documented: keys are compared in lower case, Set replaces the values of a key, Copy is a copy.\<close>

definition md_ok :: "'md md_ops \<Rightarrow> bool" where
  "md_ok M \<longleftrightarrow>
     (\<forall>k v md k'. md_Get M k' (md_Set M k v md) = (if ToLower k' = ToLower k then [v] else md_Get M k' md)) \<and>
     (\<forall>k md. md_Get M k (md_Copy M md) = md_Get M k md) \<and>
     (\<forall>k. md_Get M k (md_New M) = [])"

definition carrier_Get :: "'md md_ops \<Rightarrow> string \<Rightarrow> 'md \<Rightarrow> string" where
  "carrier_Get M key md = (let vals = md_Get M key md in if length vals = 0 then [] else vals ! 0)"

definition carrier_Set :: "'md md_ops \<Rightarrow> string \<Rightarrow> string \<Rightarrow> 'md \<Rightarrow> 'md" where
  "carrier_Set M key v md = md_Set M key v md"

type_synonym 'md heap = "nat \<Rightarrow> 'md option"

text \<open>A context: what spans and baggage it carries, and the address of its outgoing metadata.\<close>

record 'c call_ctx =
  cx_values :: 'c
  cx_outgoing :: "nat option"

text \<open>\<open>new\<close> is the address of the object that \<^verbatim>\<open>md.Copy()\<close> or \<^verbatim>\<open>metadata.MD{}\<close> allocates.\<close>

definition injectTraceContext ::
  "'md md_ops \<Rightarrow> 'c otel_globals \<Rightarrow> nat \<Rightarrow> 'c call_ctx \<Rightarrow> 'md heap \<Rightarrow> 'c call_ctx \<times> 'md heap" where
  "injectTraceContext M g new ctx h =
     (let md = (case Option.bind (cx_outgoing ctx) h of
                  Some md \<Rightarrow> md_Copy M md
                | None \<Rightarrow> md_New M);
          h1 = h(new \<mapsto> md);
          h2 = foldl (\<lambda>h kv. h(new := map_option (carrier_Set M (fst kv) (snd kv)) (h new))) h1
                 (og_propagator g (cx_values ctx))
      in (ctx\<lparr>cx_outgoing := Some new\<rparr>, h2))"

text \<open>The interceptors hand the call on with the new context and return what it returns.\<close>

definition traceUnaryClientInterceptor ::
  "'md md_ops \<Rightarrow> 'c otel_globals \<Rightarrow> nat \<Rightarrow> 'c call_ctx \<Rightarrow> 'm \<Rightarrow> 'q \<Rightarrow> ('c call_ctx \<Rightarrow> 'm \<Rightarrow> 'q \<Rightarrow> 'md heap \<Rightarrow> 'r) \<Rightarrow> 'md heap \<Rightarrow> 'r" where
  "traceUnaryClientInterceptor M g new ctx m req invoker h =
     (let (ctx', h') = injectTraceContext M g new ctx h in invoker ctx' m req h')"

definition traceStreamClientInterceptor ::
  "'md md_ops \<Rightarrow> 'c otel_globals \<Rightarrow> nat \<Rightarrow> 'c call_ctx \<Rightarrow> 'm \<Rightarrow> ('c call_ctx \<Rightarrow> 'm \<Rightarrow> 'md heap \<Rightarrow> 'r) \<Rightarrow> 'md heap \<Rightarrow> 'r" where
  "traceStreamClientInterceptor M g new ctx m streamer h =
     (let (ctx', h') = injectTraceContext M g new ctx h in streamer ctx' m h')"

section \<open>Logging\<close>

type_synonym attr = "string \<times> string"

text \<open>One emitted attribute: the groups it is nested in, its key, its value.\<close>

type_synonym out_attr = "string list \<times> string \<times> string"

text \<open>\<^verbatim>\<open>slog.JSONHandler\<close>: the open groups and the attributes formatted so far.\<close>

record json_handler =
  jh_groups :: "string list"
  jh_attrs :: "out_attr list"

datatype slog_handler = JSONHandler json_handler | TraceHandler slog_handler

record log_record =
  lr_msg :: string
  lr_attrs :: "attr list"

record log_line =
  ll_msg :: string
  ll_attrs :: "out_attr list"

definition zeroTraceID :: string where
  "zeroTraceID = replicate 32 (CHR ''0'')"

definition logging_New :: slog_handler where
  "logging_New = TraceHandler (JSONHandler \<lparr>jh_groups = [], jh_attrs = []\<rparr>)"

text \<open>\<open>traceOf c\<close> is the trace id of the context's span context when that is valid.\<close>

fun Handle :: "('c \<Rightarrow> string option) \<Rightarrow> 'c \<Rightarrow> log_record \<Rightarrow> slog_handler \<Rightarrow> log_line" where
  "Handle traceOf ctx r (JSONHandler b) =
     \<lparr>ll_msg = lr_msg r, ll_attrs = jh_attrs b @ map (\<lambda>(k, v). (jh_groups b, k, v)) (lr_attrs r)\<rparr>"
| "Handle traceOf ctx r (TraceHandler h) =
     (let traceID = (case traceOf ctx of Some t \<Rightarrow> t | None \<Rightarrow> zeroTraceID)
      in Handle traceOf ctx (r\<lparr>lr_attrs := lr_attrs r @ [(''trace_id'', traceID)]\<rparr>) h)"

fun WithAttrs :: "attr list \<Rightarrow> slog_handler \<Rightarrow> slog_handler" where
  "WithAttrs as (JSONHandler b) =
     JSONHandler (b\<lparr>jh_attrs := jh_attrs b @ map (\<lambda>(k, v). (jh_groups b, k, v)) as\<rparr>)"
| "WithAttrs as (TraceHandler h) = TraceHandler (WithAttrs as h)"

fun WithGroup :: "string \<Rightarrow> slog_handler \<Rightarrow> slog_handler" where
  "WithGroup name (JSONHandler b) = JSONHandler (b\<lparr>jh_groups := jh_groups b @ [name]\<rparr>)"
| "WithGroup name (TraceHandler h) = TraceHandler (WithGroup name h)"

section \<open>Properties of the propagation\<close>

lemma foldl_at_new:
  fixes h :: "'md heap"
  assumes "h new = Some md"
  shows "foldl (\<lambda>h kv. h(new := map_option (F kv) (h new))) h kvs = h(new \<mapsto> foldl (\<lambda>md kv. F kv md) md kvs)"
  using assms by (induction kvs arbitrary: h md) auto

lemma md_Get_sets:
  assumes "md_ok M"
  shows "md_Get M k (foldl (\<lambda>md kv. carrier_Set M (fst kv) (snd kv) md) md kvs) =
    (case map_of (rev (map (\<lambda>kv. (ToLower (fst kv), snd kv)) kvs)) (ToLower k) of
       Some v \<Rightarrow> [v] | None \<Rightarrow> md_Get M k md)"
proof (induction kvs rule: rev_induct)
  case (snoc kv kvs)
  have "md_Get M k (md_Set M (fst kv) (snd kv) md') = (if ToLower k = ToLower (fst kv) then [snd kv] else md_Get M k md')" for md'
    using assms by (simp add: md_ok_def)
  with snoc show ?case by (simp add: carrier_Set_def)
qed simp

text \<open>The outgoing metadata of a context, as the server sees it.\<close>

definition outgoing :: "'md md_ops \<Rightarrow> 'c call_ctx \<Rightarrow> 'md heap \<Rightarrow> string \<Rightarrow> string list" where
  "outgoing M ctx h k = (case Option.bind (cx_outgoing ctx) h of None \<Rightarrow> [] | Some md \<Rightarrow> md_Get M k md)"

text \<open>C25: the trace context reaches the backend and nothing else changes. After Init, both interceptors call on with a context
  whose outgoing metadata has, for every header that the trace-context or the baggage propagator sets, exactly the value
  set last, and for every other key exactly what the caller's context had; the context's values are the
  caller's, and no metadata object that existed before, the caller's own in particular, is written to.\<close>
theorem trace_injection:
  assumes "md_ok M" "compose_ok compose" "h new = None"
    and "g = otel_Init compose traceContext baggage g0"
    and "sets = traceContext (cx_values ctx) @ baggage (cx_values ctx)"
  shows "\<exists>ctx' h'.
      traceUnaryClientInterceptor M g new ctx m req invoker h = invoker ctx' m req h'
    \<and> traceStreamClientInterceptor M g new ctx m streamer h = streamer ctx' m h'
    \<and> cx_values ctx' = cx_values ctx
    \<and> (\<forall>k. outgoing M ctx' h' k =
         (case map_of (rev (map (\<lambda>kv. (ToLower (fst kv), snd kv)) sets)) (ToLower k) of
            Some v \<Rightarrow> [v] | None \<Rightarrow> outgoing M ctx h k))
    \<and> (\<forall>a. h a \<noteq> None \<longrightarrow> h' a = h a)"
proof -
  let ?md = "case Option.bind (cx_outgoing ctx) h of Some md \<Rightarrow> md_Copy M md | None \<Rightarrow> md_New M"
  let ?md' = "foldl (\<lambda>md kv. carrier_Set M (fst kv) (snd kv) md) ?md sets"
  let ?ctx' = "ctx\<lparr>cx_outgoing := Some new\<rparr>"
  have g: "og_propagator g (cx_values ctx) = sets"
    using assms(2,4,5) by (simp add: otel_Init_def Let_def compose_ok_def)
  have inj: "injectTraceContext M g new ctx h = (?ctx', h(new \<mapsto> ?md'))"
    using foldl_at_new[of "h(new \<mapsto> ?md)" new ?md "\<lambda>kv. carrier_Set M (fst kv) (snd kv)" sets]
    by (simp add: injectTraceContext_def Let_def g)
  have old: "md_Get M k ?md = outgoing M ctx h k" for k
    using assms(1) by (auto simp: outgoing_def md_ok_def split: option.split)
  have "outgoing M ?ctx' (h(new \<mapsto> ?md')) k =
      (case map_of (rev (map (\<lambda>kv. (ToLower (fst kv), snd kv)) sets)) (ToLower k) of
         Some v \<Rightarrow> [v] | None \<Rightarrow> outgoing M ctx h k)" for k
  proof -
    have "outgoing M ?ctx' (h(new \<mapsto> ?md')) k = md_Get M k ?md'" by (simp add: outgoing_def)
    then show ?thesis by (simp only: md_Get_sets[OF assms(1)] old)
  qed
  then show ?thesis using inj assms(3)
    by (intro exI[of _ ?ctx'] exI[of _ "h(new \<mapsto> ?md')"])
      (auto simp: traceUnaryClientInterceptor_def traceStreamClientInterceptor_def)
qed

text \<open>An implementation of the metadata operations: values per lower-case key.\<close>

definition md_fun :: "(string \<Rightarrow> string list) md_ops" where
  "md_fun = \<lparr>md_Get = (\<lambda>k md. md (ToLower k)), md_Set = (\<lambda>k v md. md(ToLower k := [v])), md_Copy = (\<lambda>md. md),
     md_New = (\<lambda>_. [])\<rparr>"

lemma md_fun_ok: "md_ok md_fun"
  by (simp add: md_ok_def md_fun_def)

theorem trace_injection_witness:
  "\<exists>ctx' h'. traceUnaryClientInterceptor md_fun
       (otel_Init (\<lambda>ps c. concat (map (\<lambda>p. p c) ps)) (\<lambda>_. [(''traceparent'', ''00-1-2-01'')]) (\<lambda>_. [])
          \<lparr>og_propagator = (\<lambda>_. []), og_provider = None\<rparr>)
       1 \<lparr>cx_values = (), cx_outgoing = Some 0\<rparr> ''ListItems'' () (\<lambda>ctx m req h. (ctx, h)) [0 \<mapsto> (\<lambda>_. [])] = (ctx', h')
     \<and> outgoing md_fun ctx' h' ''Traceparent'' = [''00-1-2-01''] \<and> h' 0 = Some (\<lambda>_. [])"
proof -
  let ?comp = "\<lambda>ps c. concat (map (\<lambda>p. p c) ps)" and ?tc = "\<lambda>_. [(''traceparent'', ''00-1-2-01'')]"
  let ?g0 = "\<lparr>og_propagator = (\<lambda>_. []), og_provider = None\<rparr>" and ?h = "[0 :: nat \<mapsto> (\<lambda>_. [])]"
  have c: "compose_ok ?comp" by (simp add: compose_ok_def)
  have f: "?h 1 = None" by simp
  have low: "ToLower ''Traceparent'' = ToLower ''traceparent''" by code_simp
  from trace_injection[where M = md_fun and compose = ?comp and h = ?h and new = 1 and traceContext = ?tc and baggage = "\<lambda>_. []"
      and ?g0.0 = ?g0 and ctx = "\<lparr>cx_values = (), cx_outgoing = Some 0\<rparr>" and m = "''ListItems''" and req = "()"
      and invoker = "\<lambda>ctx m req h. (ctx, h)" and streamer = "\<lambda>ctx m h. ()", OF md_fun_ok c f refl refl] low
  show ?thesis by auto
qed

section \<open>Properties of the log handler\<close>

datatype log_op = OpAttrs "attr list" | OpGroup string

fun log_apply :: "slog_handler \<Rightarrow> log_op \<Rightarrow> slog_handler" where
  "log_apply h (OpAttrs as) = WithAttrs as h"
| "log_apply h (OpGroup name) = WithGroup name h"

fun open_groups :: "log_op list \<Rightarrow> string list" where
  "open_groups [] = []"
| "open_groups (OpAttrs as # ops) = open_groups ops"
| "open_groups (OpGroup name # ops) = name # open_groups ops"

lemma chain_traced: "foldl log_apply (TraceHandler h) ops = TraceHandler (foldl log_apply h ops)"
proof (induction ops arbitrary: h)
  case (Cons op ops)
  then show ?case by (cases op) simp_all
qed simp

lemma chain_json:
  "\<exists>b'. foldl log_apply (JSONHandler b) ops = JSONHandler b' \<and> jh_groups b' = jh_groups b @ open_groups ops"
proof (induction ops arbitrary: b)
  case (Cons op ops)
  show ?case
  proof (cases op)
    case (OpAttrs as)
    then show ?thesis
      using Cons[of "b\<lparr>jh_attrs := jh_attrs b @ map (\<lambda>(k, v). (jh_groups b, k, v)) as\<rparr>"] by simp
  next
    case (OpGroup name)
    then show ?thesis using Cons[of "b\<lparr>jh_groups := jh_groups b @ [name]\<rparr>"] by simp
  qed
qed simp

text \<open>C35: every log line is correlated. Through any chain of derived loggers (attributes, groups) the program's handler emits
  what the plain JSON handler emits for the same chain and record, followed by one attribute trace_id: the id of the
  context's span when that is valid, 32 zeros otherwise. It is a top-level field exactly when no group is open; inside
  groups it is nested in them.\<close>
theorem log_trace_id:
  "ll_attrs (Handle traceOf ctx r (foldl log_apply logging_New ops)) =
     ll_attrs (Handle traceOf ctx r (foldl log_apply (JSONHandler \<lparr>jh_groups = [], jh_attrs = []\<rparr>) ops))
       @ [(open_groups ops, ''trace_id'', case traceOf ctx of Some t \<Rightarrow> t | None \<Rightarrow> zeroTraceID)]
   \<and> ll_msg (Handle traceOf ctx r (foldl log_apply logging_New ops)) = lr_msg r"
proof -
  obtain b where "foldl log_apply (JSONHandler \<lparr>jh_groups = [], jh_attrs = []\<rparr>) ops = JSONHandler b"
    "jh_groups b = open_groups ops"
    using chain_json[of "\<lparr>jh_groups = [], jh_attrs = []\<rparr>" ops] by auto
  then show ?thesis by (simp add: logging_New_def chain_traced Let_def)
qed

end
