(* ===== verification/Store_Schema.thy ===== *)
theory Store_Schema
  imports Store_Machine Store_Migrate
begin

text \<open>
  The embedded migrations (\<^verbatim>\<open>internal/store/migrations/*.sql\<close>) and what they promise to the store. The scripts are
  transcribed statement by statement; \<open>exec_ddl\<close> is what PostgreSQL makes of one of them. The text of a script and the
  engine that runs it are parameters, and \<open>pg_runs\<close> says that running the text is running the transcribed statements.
  The second part types the store against the schema: the statements of the store operations (\<open>stmt_ok\<close>), and the
  contents of the tables (\<open>conforms\<close>): column types with their ranges, \<^verbatim>\<open>NOT NULL\<close>, \<^verbatim>\<open>CHECK\<close>, \<^verbatim>\<open>PRIMARY KEY\<close> and \<^verbatim>\<open>UNIQUE\<close>.
\<close>

section \<open>Data definition statements\<close>

datatype sql_type = Bigserial | Bigint | Integer | Text | Timestamptz | DoublePrecision

datatype sql_check = CheckIn "string list" | CheckEq int

record column =
  cl_name :: string
  cl_type :: sql_type
  cl_notNull :: bool
  cl_check :: "sql_check option"
  cl_default :: bool

record table_def =
  td_name :: string
  td_columns :: "column list"
  td_primary :: "string list"
  td_uniques :: "string list list"

datatype ddl =
    CreateTable table_def
  | CreateIndex string string "string list"
  | CreateRole string
  | GrantConnect string
  | GrantUsage string
  | GrantSelect "string list" string

datatype grant = ConnectTo string | UsageTo string | SelectTo string string

record schema =
  sch_tables :: "table_def list"
  sch_indexes :: "(string \<times> string \<times> string list) list"
  sch_roles :: "string list"
  sch_grants :: "grant list"

definition find_table :: "schema \<Rightarrow> string \<Rightarrow> table_def option" where
  "find_table s t = find (\<lambda>td. td_name td = t) (sch_tables s)"

definition column_names :: "table_def \<Rightarrow> string list" where
  "column_names td = map cl_name (td_columns td)"

definition keys_of :: "table_def \<Rightarrow> string list list" where
  "keys_of td = td_primary td # td_uniques td"

text \<open>\<open>CREATE TABLE\<close> and \<open>CREATE INDEX\<close> carry \<^verbatim>\<open>IF NOT EXISTS\<close>, the role is created under the corresponding test; a grant
  needs its role and its tables; \<open>None\<close> is an SQL error.\<close>

fun exec_ddl :: "ddl \<Rightarrow> schema \<Rightarrow> schema option" where
  "exec_ddl (CreateTable td) s =
     (if find_table s (td_name td) \<noteq> None then Some s
      else if \<forall>k \<in> set (keys_of td). set k \<subseteq> set (column_names td)
      then Some (s\<lparr>sch_tables := sch_tables s @ [td]\<rparr>) else None)"
| "exec_ddl (CreateIndex n t cs) s =
     (case find_table s t of
        None \<Rightarrow> None
      | Some td \<Rightarrow>
          if n \<in> set (map fst (sch_indexes s)) then Some s
          else if set cs \<subseteq> set (column_names td)
          then Some (s\<lparr>sch_indexes := sch_indexes s @ [(n, t, cs)]\<rparr>) else None)"
| "exec_ddl (CreateRole r) s =
     Some (if r \<in> set (sch_roles s) then s else s\<lparr>sch_roles := sch_roles s @ [r]\<rparr>)"
| "exec_ddl (GrantConnect r) s =
     (if r \<in> set (sch_roles s) then Some (s\<lparr>sch_grants := sch_grants s @ [ConnectTo r]\<rparr>) else None)"
| "exec_ddl (GrantUsage r) s =
     (if r \<in> set (sch_roles s) then Some (s\<lparr>sch_grants := sch_grants s @ [UsageTo r]\<rparr>) else None)"
| "exec_ddl (GrantSelect ts r) s =
     (if r \<in> set (sch_roles s) \<and> (\<forall>t \<in> set ts. find_table s t \<noteq> None)
      then Some (s\<lparr>sch_grants := sch_grants s @ map (\<lambda>t. SelectTo t r) ts\<rparr>) else None)"

fun exec_script :: "ddl list \<Rightarrow> schema \<Rightarrow> schema option" where
  "exec_script [] s = Some s"
| "exec_script (d # ds) s = Option.bind (exec_ddl d s) (exec_script ds)"

section \<open>The migrations\<close>

definition col :: "string \<Rightarrow> sql_type \<Rightarrow> column" where
  "col n t = \<lparr>cl_name = n, cl_type = t, cl_notNull = True, cl_check = None, cl_default = False\<rparr>"

definition event_type_column :: column where
  "event_type_column = (col ''event_type'' Text)\<lparr>cl_check := Some (CheckIn [''created'', ''updated'', ''deleted''])\<rparr>"

definition item_events_table :: table_def where
  "item_events_table = \<lparr>td_name = ''item_events'',
     td_columns = [(col ''id'' Bigserial)\<lparr>cl_default := True\<rparr>, event_type_column, col ''item_id'' Bigint, col ''item_name'' Text,
       col ''event_time'' Timestamptz, (col ''received_at'' Timestamptz)\<lparr>cl_default := True\<rparr>],
     td_primary = [''id''], td_uniques = [[''item_id'', ''event_type'', ''event_time'']]\<rparr>"

definition event_buckets_table :: table_def where
  "event_buckets_table = \<lparr>td_name = ''event_buckets'',
     td_columns = [col ''bucket_start'' Timestamptz, event_type_column, (col ''count'' Bigint)\<lparr>cl_default := True\<rparr>,
       (col ''updated_at'' Timestamptz)\<lparr>cl_default := True\<rparr>],
     td_primary = [''bucket_start'', ''event_type''], td_uniques = []\<rparr>"

definition current_items_table :: table_def where
  "current_items_table = \<lparr>td_name = ''current_items'',
     td_columns = [col ''item_id'' Bigint, col ''name'' Text, col ''first_seen'' Timestamptz, col ''last_seen'' Timestamptz,
       (col ''tombstoned_at'' Timestamptz)\<lparr>cl_notNull := False\<rparr>],
     td_primary = [''item_id''], td_uniques = []\<rparr>"

definition seed_marker_table :: table_def where
  "seed_marker_table = \<lparr>td_name = ''seed_marker'',
     td_columns = [(col ''id'' Integer)\<lparr>cl_check := Some (CheckEq 1)\<rparr>, col ''scale'' DoublePrecision, col ''ref_unix'' Bigint,
       col ''seed'' Bigint, col ''days'' Integer, col ''seeded_at'' Timestamptz, col ''events_written'' Bigint],
     td_primary = [''id''], td_uniques = []\<rparr>"

definition migration_0001 :: "ddl list" where
  "migration_0001 = [CreateTable item_events_table,
     CreateIndex ''item_events_event_time_idx'' ''item_events'' [''event_time''], CreateTable event_buckets_table]"

definition migration_0002 :: "ddl list" where
  "migration_0002 = [CreateTable current_items_table]"

definition migration_0003 :: "ddl list" where
  "migration_0003 = [CreateTable seed_marker_table]"

definition migration_0004 :: "ddl list" where
  "migration_0004 = [CreateRole ''grafana_ro'', GrantConnect ''grafana_ro'', GrantUsage ''grafana_ro'',
     GrantSelect [''event_buckets'', ''current_items'', ''seed_marker''] ''grafana_ro'']"

definition migrationFS :: "(string \<times> ddl list) list" where
  "migrationFS = [(''0001_init'', migration_0001), (''0002_current_items'', migration_0002),
     (''0003_seed_marker'', migration_0003), (''0004_grafana_readonly'', migration_0004)]"

text \<open>The directory that the binary embeds, given the text of each script.\<close>

definition embedded_dir :: "(string \<Rightarrow> string) \<Rightarrow> dir_entry list" where
  "embedded_dir script = map (\<lambda>(v, _). \<lparr>de_name = v @ ''.sql'', de_isDir = False, de_sql = Some (script v)\<rparr>) migrationFS"

definition pg_runs :: "(string \<Rightarrow> schema \<Rightarrow> schema option) \<Rightarrow> (string \<Rightarrow> string) \<Rightarrow> bool" where
  "pg_runs exec script \<longleftrightarrow> (\<forall>(v, ds) \<in> set migrationFS. exec (script v) = exec_script ds)"

text \<open>A database without tables of the service, on a cluster with any roles and grants.\<close>

definition fresh_schema :: "string list \<Rightarrow> grant list \<Rightarrow> schema" where
  "fresh_schema roles grants = \<lparr>sch_tables = [], sch_indexes = [], sch_roles = roles, sch_grants = grants\<rparr>"

definition migrated_schema :: "string list \<Rightarrow> grant list \<Rightarrow> schema" where
  "migrated_schema roles grants = \<lparr>
     sch_tables = [item_events_table, event_buckets_table, current_items_table, seed_marker_table],
     sch_indexes = [(''item_events_event_time_idx'', ''item_events'', [''event_time''])],
     sch_roles = (if ''grafana_ro'' \<in> set roles then roles else roles @ [''grafana_ro'']),
     sch_grants = grants @ [ConnectTo ''grafana_ro'', UsageTo ''grafana_ro'', SelectTo ''event_buckets'' ''grafana_ro'',
       SelectTo ''current_items'' ''grafana_ro'', SelectTo ''seed_marker'' ''grafana_ro'']\<rparr>"

section \<open>Migrating a fresh database\<close>

lemmas table_defs = item_events_table_def event_buckets_table_def current_items_table_def seed_marker_table_def
  event_type_column_def col_def

lemmas migration_defs = migration_0001_def migration_0002_def migration_0003_def migration_0004_def

lemma exec_all:
  "Option.bind (exec_script migration_0001 (fresh_schema roles grants)) (\<lambda>s1.
   Option.bind (exec_script migration_0002 s1) (\<lambda>s2.
   Option.bind (exec_script migration_0003 s2) (exec_script migration_0004))) = Some (migrated_schema roles grants)"
  by (simp add: migration_defs fresh_schema_def migrated_schema_def find_table_def keys_of_def column_names_def table_defs)

definition migrate_runs ::
  "(string \<Rightarrow> 'd \<Rightarrow> 'd option) \<Rightarrow> dir_entry list option \<Rightarrow> faults list \<Rightarrow> 'd mig_state \<Rightarrow> 'd mig_state" where
  "migrate_runs exec dir fs s = foldl (\<lambda>s f. snd (Migrate exec dir f s)) s fs"

definition versions :: "string list" where
  "versions = map fst migrationFS"

definition fresh_state :: "string list \<Rightarrow> grant list \<Rightarrow> schema mig_state" where
  "fresh_state roles grants = \<lparr>mg_versions = None, mg_schema = fresh_schema roles grants\<rparr>"

definition migrated_state :: "string list \<Rightarrow> grant list \<Rightarrow> schema mig_state" where
  "migrated_state roles grants = \<lparr>mg_versions = Some versions, mg_schema = migrated_schema roles grants\<rparr>"

lemma versions_eq: "versions = [''0001_init'', ''0002_current_items'', ''0003_seed_marker'', ''0004_grafana_readonly'']"
  by (simp add: versions_def migrationFS_def)

lemma embedded_names: "sql_names (embedded_dir script) = map (\<lambda>v. v @ ''.sql'') versions"
  by (simp add: sql_names_def embedded_dir_def migrationFS_def versions_eq HasSuffix_def suffix_def)

lemma embedded_trim: "map (\<lambda>n. TrimSuffix n ''.sql'') (sql_names (embedded_dir script)) = versions"
  by (simp add: embedded_names comp_def TrimSuffix_append del: append.simps)

lemma embedded_distinct: "distinct (map de_name (embedded_dir script))"
  by (simp add: embedded_dir_def migrationFS_def)

lemma embedded_read:
  "read_file (embedded_dir script) ''0001_init.sql'' = Some (script ''0001_init'')"
  "read_file (embedded_dir script) ''0002_current_items.sql'' = Some (script ''0002_current_items'')"
  "read_file (embedded_dir script) ''0003_seed_marker.sql'' = Some (script ''0003_seed_marker'')"
  "read_file (embedded_dir script) ''0004_grafana_readonly.sql'' = Some (script ''0004_grafana_readonly'')"
  by (simp_all add: read_file_def embedded_dir_def migrationFS_def)

lemma embedded_replay:
  assumes "pg_runs exec script"
  shows "replay exec (embedded_dir script) versions (fresh_schema roles grants) = Some (migrated_schema roles grants)"
proof -
  have e: "exec (script ''0001_init'') = exec_script migration_0001" "exec (script ''0002_current_items'') = exec_script migration_0002"
    "exec (script ''0003_seed_marker'') = exec_script migration_0003" "exec (script ''0004_grafana_readonly'') = exec_script migration_0004"
    using assms by (simp_all add: pg_runs_def migrationFS_def)
  have c: "replay exec D [] = Some" "replay exec D (v # vs) = (\<lambda>d. Option.bind (read_file D (v @ ''.sql''))
      (\<lambda>sql. Option.bind (exec sql d) (replay exec D vs)))" for D v vs
    by (simp_all add: fun_eq_iff)
  have r: "Option.bind x Some = x" for x :: "schema option" by (cases x) simp_all
  show ?thesis using exec_all[of roles grants] by (simp add: versions_eq c embedded_read e r del: replay.simps)
qed

lemma prefix_fill: "prefix xs ys \<Longrightarrow> distinct ys \<Longrightarrow> xs @ filter (\<lambda>v. v \<notin> set xs) ys = ys"
  by (auto simp: prefix_def filter_id_conv)

text \<open>The state after any number of runs: some of the first versions are recorded, and the schema is theirs.\<close>

definition mig_partial :: "(string \<Rightarrow> schema \<Rightarrow> schema option) \<Rightarrow> (string \<Rightarrow> string) \<Rightarrow> schema \<Rightarrow> schema mig_state \<Rightarrow> bool" where
  "mig_partial exec script d0 s \<longleftrightarrow> mig_ok exec (embedded_dir script) d0 s \<and> prefix (recorded s) versions"

lemma mig_partial_fill:
  "mig_partial exec script d0 s \<Longrightarrow> recorded s @ filter (\<lambda>v. v \<notin> set (recorded s)) versions = versions"
  by (rule prefix_fill) (simp add: mig_partial_def, simp add: versions_eq)

lemma Migrate_partial:
  assumes "mig_partial exec script d0 s" "Migrate exec (Some (embedded_dir script)) f s = (r, s')"
  shows "mig_partial exec script d0 s' \<and> (r = None \<longrightarrow> recorded s' = versions)"
proof -
  note fill = mig_partial_fill[OF assms(1)]
  have "mig_ok exec (embedded_dir script) d0 s" using assms(1) by (simp add: mig_partial_def)
  from Migrate_ok[OF embedded_distinct this assms(2)] show ?thesis by (simp add: embedded_trim fill mig_partial_def)
qed

lemma migrate_loop_live:
  assumes "mig_ok exec entries d0 s" "\<forall>n \<in> set names. TrimSuffix n ''.sql'' @ ''.sql'' = n"
    and "distinct (map (\<lambda>n. TrimSuffix n ''.sql'') names)"
    and "replay exec entries (recorded s @ filter (\<lambda>v. v \<notin> set (recorded s)) (map (\<lambda>n. TrimSuffix n ''.sql'') names)) d0 \<noteq> None"
  shows "fst (migrate_loop exec entries no_faults i names s) = None"
  using assms
proof (induction names arbitrary: i s)
  case (Cons n names)
  let ?v = "TrimSuffix n ''.sql''"
  show ?case
  proof (cases "?v \<in> set (recorded s)")
    case True
    with Cons show ?thesis by (simp add: Let_def)
  next
    case False
    let ?rest = "filter (\<lambda>v. v \<notin> set (recorded s)) (map (\<lambda>n. TrimSuffix n ''.sql'') names)"
    have r: "replay exec entries (recorded s @ ?v # ?rest) d0 \<noteq> None" using Cons.prems(4) False by simp
    have nm: "?v @ ''.sql'' = n" using Cons.prems(2) by simp
    obtain sql d where ex: "read_file entries n = Some sql" "exec sql (mg_schema s) = Some d"
      using r Cons.prems(1) by (auto simp: replay_append mig_ok_def nm split: Option.bind_splits)
    let ?s1 = "s\<lparr>mg_versions := Some (recorded s @ [?v]), mg_schema := d\<rparr>"
    have a: "applyOne exec no_faults (i + 1) ?v sql s = (None, ?s1)" using ex False by (simp add: applyOne_def)
    have ok: "mig_ok exec entries d0 ?s1" by (rule mig_ok_apply[OF Cons.prems(1) _ ex(2) False]) (simp add: nm ex(1))
    have new: "?v \<notin> set (map (\<lambda>n. TrimSuffix n ''.sql'') names)" using Cons.prems(3) by simp
    have "filter (\<lambda>v. v \<notin> set (recorded s @ [?v])) (map (\<lambda>n. TrimSuffix n ''.sql'') names) = ?rest"
      by (rule filter_cong) (use new in \<open>auto simp del: set_map\<close>)
    then have "fst (migrate_loop exec entries no_faults (i + 5) names ?s1) = None"
      using r Cons.prems(2,3) by (intro Cons.IH[OF ok]) simp_all
    moreover have "no_faults i = Done" by simp
    ultimately show ?thesis using False ex a by (simp add: Let_def del: no_faults_apply)
  qed
qed simp

lemma mig_partial_done:
  assumes "pg_runs exec script" "mig_partial exec script (fresh_schema roles grants) s" "recorded s = versions"
  shows "s = migrated_state roles grants"
proof -
  have "mg_schema s = migrated_schema roles grants"
    using assms(2,3) embedded_replay[OF assms(1), of roles grants] by (simp add: mig_partial_def mig_ok_def)
  moreover have "mg_versions s = Some versions"
    using assms(3) by (cases "mg_versions s") (simp_all add: recorded_def versions_eq)
  ultimately show ?thesis by (cases s) (simp add: migrated_state_def)
qed

lemma mig_partial_runs:
  "mig_partial exec script (fresh_schema roles grants) (migrate_runs exec (Some (embedded_dir script)) fs (fresh_state roles grants))"
proof (induction fs rule: rev_induct)
  case Nil
  show ?case by (simp add: migrate_runs_def fresh_state_def mig_partial_def mig_ok_def recorded_def)
next
  case (snoc f fs)
  obtain r s' where m: "Migrate exec (Some (embedded_dir script)) f (migrate_runs exec (Some (embedded_dir script)) fs (fresh_state roles grants)) = (r, s')"
    by fastforce
  with Migrate_partial[OF snoc m] show ?case by (simp add: migrate_runs_def)
qed

lemma Migrate_live:
  assumes "pg_runs exec script" "mig_partial exec script (fresh_schema roles grants) s"
  shows "fst (Migrate exec (Some (embedded_dir script)) no_faults s) = None"
proof -
  let ?s1 = "s\<lparr>mg_versions := Some (recorded s)\<rparr>"
  have ok: "mig_ok exec (embedded_dir script) (fresh_schema roles grants) ?s1" using assms(2) by (simp add: mig_partial_def mig_ok_def)
  note fill = mig_partial_fill[OF assms(2)]
  have "fst (migrate_loop exec (embedded_dir script) no_faults 1 (sql_names (embedded_dir script)) ?s1) = None"
  proof (rule migrate_loop_live[OF ok])
    show "\<forall>n \<in> set (sql_names (embedded_dir script)). TrimSuffix n ''.sql'' @ ''.sql'' = n"
      using sql_name_split by blast
    show "distinct (map (\<lambda>n. TrimSuffix n ''.sql'') (sql_names (embedded_dir script)))"
      unfolding embedded_trim by (simp add: versions_eq)
    show "replay exec (embedded_dir script) (recorded ?s1 @ filter (\<lambda>v. v \<notin> set (recorded ?s1))
        (map (\<lambda>n. TrimSuffix n ''.sql'') (sql_names (embedded_dir script)))) (fresh_schema roles grants) \<noteq> None"
      unfolding embedded_trim by (simp add: fill embedded_replay[OF assms(1)])
  qed
  then show ?thesis by (simp add: Migrate_def)
qed

lemma Migrate_result:
  assumes "pg_runs exec script"
    and "Migrate exec (Some (embedded_dir script)) f
      (migrate_runs exec (Some (embedded_dir script)) fs (fresh_state roles grants)) = (None, s)"
  shows "s = migrated_state roles grants"
  using mig_partial_done[OF assms(1)] Migrate_partial[OF mig_partial_runs assms(2)] by blast

lemma Migrate_again:
  assumes "pg_runs exec script"
  shows "Migrate exec (Some (embedded_dir script)) no_faults
      (migrate_runs exec (Some (embedded_dir script)) fs (fresh_state roles grants)) = (None, migrated_state roles grants)"
  using Migrate_live[OF assms mig_partial_runs] Migrate_result[OF assms] by (metis prod.collapse)

section \<open>Properties of the migrated schema\<close>

text \<open>C12: bringing the schema up converges. Start with a database that has none of the tables, on a cluster with any roles, and
  run the migrations any number of times, each run stopped by any failure and with any commit acknowledgement lost. A run that
  then reports success leaves exactly the schema of the four embedded scripts, each applied once and recorded in order, and a
  run that meets no failure reports success. The dashboard role can read the buckets, the items and the
  marker, and nothing grants it the raw events.\<close>
theorem migrations_converge:
  assumes "pg_runs exec script" "s = migrate_runs exec (Some (embedded_dir script)) fs (fresh_state roles grants)"
  shows "(\<forall>f s'. Migrate exec (Some (embedded_dir script)) f s = (None, s') \<longrightarrow> s' = migrated_state roles grants)
    \<and> Migrate exec (Some (embedded_dir script)) no_faults s = (None, migrated_state roles grants)
    \<and> (SelectTo ''item_events'' ''grafana_ro'' \<notin> set grants \<longrightarrow>
         SelectTo ''item_events'' ''grafana_ro'' \<notin> set (sch_grants (mg_schema (migrated_state roles grants))))"
proof -
  have "SelectTo ''item_events'' ''grafana_ro'' \<notin> set (sch_grants (mg_schema (migrated_state roles grants)))"
    if "SelectTo ''item_events'' ''grafana_ro'' \<notin> set grants"
    using that by (simp add: migrated_state_def migrated_schema_def)
  then show ?thesis unfolding assms(2) using Migrate_result[OF assms(1)] Migrate_again[OF assms(1)] by blast
qed

text \<open>An engine that finds the statements of a script by its name, and the name as the text of the script.\<close>

definition name_exec :: "string \<Rightarrow> schema \<Rightarrow> schema option" where
  "name_exec sql s = (case map_of migrationFS sql of None \<Rightarrow> None | Some ds \<Rightarrow> exec_script ds s)"

lemma name_exec_runs: "pg_runs name_exec (\<lambda>v. v)"
  by (simp add: pg_runs_def migrationFS_def name_exec_def fun_eq_iff)

theorem migrations_converge_witness:
  "Migrate name_exec (Some (embedded_dir (\<lambda>v. v))) no_faults
     (migrate_runs name_exec (Some (embedded_dir (\<lambda>v. v))) [no_faults(4 := Failed), no_faults(9 := Lost)] (fresh_state [''postgres''] []))
   = (None, migrated_state [''postgres''] [])"
  using migrations_converge[OF name_exec_runs refl] by blast

section \<open>Typing the statements of the store\<close>

























lemma find_migrated [simp]:
  "find_table (migrated_schema roles grants) ''item_events'' = Some item_events_table"
  "find_table (migrated_schema roles grants) ''event_buckets'' = Some event_buckets_table"
  "find_table (migrated_schema roles grants) ''current_items'' = Some current_items_table"
  "find_table (migrated_schema roles grants) ''seed_marker'' = Some seed_marker_table"
  by (simp_all add: find_table_def migrated_schema_def table_defs)




section \<open>Conformance of the tables\<close>

datatype sql_val = VNull | VInt int | VText string | VTime pg_time | VFloat real

fun val_ok :: "sql_type \<Rightarrow> sql_val \<Rightarrow> bool" where
  "val_ok t (VInt i) = ((t = Bigint \<or> t = Bigserial) \<and> in_int64 i \<or> t = Integer \<and> int4_ok i)"
| "val_ok t (VText s) = (t = Text \<and> text_ok s)"
| "val_ok t (VTime _) = (t = Timestamptz)"
| "val_ok t (VFloat _) = (t = DoublePrecision)"
| "val_ok t VNull = False"

fun check_ok :: "sql_check \<Rightarrow> sql_val \<Rightarrow> bool" where
  "check_ok (CheckIn ss) (VText s) = (s \<in> set ss)"
| "check_ok (CheckEq n) (VInt i) = (i = n)"
| "check_ok _ _ = False"

type_synonym sql_row = "(string \<times> sql_val) list"

text \<open>A column of a row. The columns that the database fills by itself are not part of the modelled rows.\<close>

definition column_conf :: "sql_row \<Rightarrow> column \<Rightarrow> bool" where
  "column_conf row c = (case map_of row (cl_name c) of
      None \<Rightarrow> cl_default c
    | Some VNull \<Rightarrow> \<not> cl_notNull c
    | Some v \<Rightarrow> val_ok (cl_type c) v \<and> (case cl_check c of None \<Rightarrow> True | Some k \<Rightarrow> check_ok k v))"

definition row_conf :: "table_def \<Rightarrow> sql_row \<Rightarrow> bool" where
  "row_conf td row \<longleftrightarrow> (\<forall>c \<in> set (td_columns td). column_conf row c) \<and> fst ` set row \<subseteq> set (column_names td)"

text \<open>The keys to check: all but those with a generated column.\<close>

definition stored_keys :: "table_def \<Rightarrow> string list list" where
  "stored_keys td = filter (\<lambda>k. \<forall>c \<in> set (td_columns td). cl_name c \<in> set k \<longrightarrow> cl_type c \<noteq> Bigserial) (keys_of td)"

definition table_conf :: "table_def \<Rightarrow> sql_row list \<Rightarrow> bool" where
  "table_conf td rows \<longleftrightarrow> (\<forall>row \<in> set rows. row_conf td row)
     \<and> (\<forall>k \<in> set (stored_keys td). distinct (map (\<lambda>row. map (map_of row) k) rows))"

definition opt_time :: "pg_time option \<Rightarrow> sql_val" where
  "opt_time t = (case t of None \<Rightarrow> VNull | Some t \<Rightarrow> VTime t)"

definition item_event_sql :: "item_event_row \<Rightarrow> sql_row" where
  "item_event_sql r = [(''event_type'', VText (ie_type r)), (''item_id'', VInt (ie_item r)), (''item_name'', VText (ie_name r)),
     (''event_time'', VTime (ie_time r))]"

definition bucket_sql :: "bucket_row \<Rightarrow> sql_row" where
  "bucket_sql r = [(''bucket_start'', VTime (b_start r)), (''event_type'', VText (b_type r)), (''count'', VInt (b_count r))]"

definition current_item_sql :: "current_item_row \<Rightarrow> sql_row" where
  "current_item_sql r = [(''item_id'', VInt (ci_id r)), (''name'', VText (ci_name r)), (''first_seen'', VTime (ci_first r)),
     (''last_seen'', VTime (ci_last r)), (''tombstoned_at'', opt_time (ci_tomb r))]"

definition seed_marker_sql :: "seed_marker_row \<Rightarrow> sql_row" where
  "seed_marker_sql r = [(''id'', VInt (sm_id r)), (''scale'', VFloat (sm_scale r)), (''ref_unix'', VInt (sm_ref_unix r)),
     (''seed'', VInt (sm_seed r)), (''days'', VInt (sm_days r)), (''seeded_at'', VTime (sm_seeded_at r)),
     (''events_written'', VInt (sm_events_written r))]"

definition db_table :: "db \<Rightarrow> string \<Rightarrow> sql_row list" where
  "db_table db t =
     (if t = ''item_events'' then map item_event_sql (item_events db)
      else if t = ''event_buckets'' then map bucket_sql (event_buckets db)
      else if t = ''current_items'' then map current_item_sql (current_items db)
      else if t = ''seed_marker'' then map seed_marker_sql (seed_marker db) else [])"

definition conforms :: "schema \<Rightarrow> db \<Rightarrow> bool" where
  "conforms s db \<longleftrightarrow> (\<forall>td \<in> set (sch_tables s). table_conf td (db_table db (td_name td)))"

subsection \<open>Well-formed tables with values in range conform\<close>

definition ie_typed :: "item_event_row \<Rightarrow> bool" where
  "ie_typed r \<longleftrightarrow> in_int64 (ie_item r) \<and> text_ok (ie_name r)"

definition ci_typed :: "current_item_row \<Rightarrow> bool" where
  "ci_typed r \<longleftrightarrow> in_int64 (ci_id r) \<and> text_ok (ci_name r)"

definition sm_typed :: "seed_marker_row \<Rightarrow> bool" where
  "sm_typed r \<longleftrightarrow> in_int64 (sm_ref_unix r) \<and> in_int64 (sm_seed r) \<and> int4_ok (sm_days r) \<and> in_int64 (sm_events_written r)"

definition db_typed :: "db \<Rightarrow> bool" where
  "db_typed db \<longleftrightarrow> (\<forall>r \<in> set (item_events db). ie_typed r) \<and> (\<forall>r \<in> set (current_items db). ci_typed r)
     \<and> (\<forall>r \<in> set (seed_marker db). sm_typed r)"

lemma event_type_text: "event_type_ok t \<Longrightarrow> text_ok t"
  by (auto simp: event_type_ok_def text_ok_def)

lemma distinct_finer: "unique_key f xs \<Longrightarrow> (\<And>x y. g x = g y \<Longrightarrow> f x = f y) \<Longrightarrow> distinct (map g xs)"
  unfolding unique_key_def distinct_map inj_on_def by metis

lemma item_events_conf:
  assumes "\<forall>r \<in> set rs. event_type_ok (ie_type r) \<and> ie_typed r" "unique_key ie_key rs"
  shows "table_conf item_events_table (map item_event_sql rs)"
proof -
  have "distinct (map (\<lambda>r. map (map_of (item_event_sql r)) [''item_id'', ''event_type'', ''event_time'']) rs)"
    using assms(2) by (rule distinct_finer) (simp add: item_event_sql_def ie_key_def)
  moreover have "row_conf item_events_table (item_event_sql r)" if "r \<in> set rs" for r
    using assms(1) that event_type_text[of "ie_type r"]
    by (auto simp: row_conf_def column_conf_def item_event_sql_def table_defs column_names_def ie_typed_def event_type_ok_def)
  ultimately show ?thesis by (simp add: table_conf_def stored_keys_def keys_of_def comp_def table_defs)
qed

lemma event_buckets_conf:
  assumes "\<forall>b \<in> set bs. event_type_ok (b_type b) \<and> in_int64 (b_count b)" "unique_key b_key bs"
  shows "table_conf event_buckets_table (map bucket_sql bs)"
proof -
  have "distinct (map (\<lambda>b. map (map_of (bucket_sql b)) [''bucket_start'', ''event_type'']) bs)"
    using assms(2) by (rule distinct_finer) (simp add: bucket_sql_def b_key_def)
  moreover have "row_conf event_buckets_table (bucket_sql b)" if "b \<in> set bs" for b
    using assms(1) that event_type_text[of "b_type b"]
    by (auto simp: row_conf_def column_conf_def bucket_sql_def table_defs column_names_def event_type_ok_def)
  ultimately show ?thesis by (simp add: table_conf_def stored_keys_def keys_of_def comp_def table_defs)
qed

lemma current_items_conf:
  assumes "\<forall>c \<in> set cs. ci_typed c" "unique_key ci_id cs"
  shows "table_conf current_items_table (map current_item_sql cs)"
proof -
  have "distinct (map (\<lambda>c. map (map_of (current_item_sql c)) [''item_id'']) cs)"
    using assms(2) by (rule distinct_finer) (simp add: current_item_sql_def)
  moreover have "row_conf current_items_table (current_item_sql c)" if "c \<in> set cs" for c
    using assms(1) that
    by (auto simp: row_conf_def column_conf_def current_item_sql_def table_defs column_names_def ci_typed_def opt_time_def
        split: option.splits)
  ultimately show ?thesis by (simp add: table_conf_def stored_keys_def keys_of_def comp_def table_defs)
qed

lemma seed_marker_conf:
  assumes "\<forall>m \<in> set ms. sm_typed m \<and> sm_id m = 1" "unique_key sm_id ms"
  shows "table_conf seed_marker_table (map seed_marker_sql ms)"
proof -
  have "distinct (map (\<lambda>m. map (map_of (seed_marker_sql m)) [''id'']) ms)"
    using assms(2) by (rule distinct_finer) (simp add: seed_marker_sql_def)
  moreover have "row_conf seed_marker_table (seed_marker_sql m)" if "m \<in> set ms" for m
    using assms(1) that
    by (auto simp: row_conf_def column_conf_def seed_marker_sql_def table_defs column_names_def sm_typed_def int4_ok_def)
  ultimately show ?thesis by (simp add: table_conf_def stored_keys_def keys_of_def comp_def table_defs)
qed

lemma bucket_count_row: "unique_key b_key bs \<Longrightarrow> b \<in> set bs \<Longrightarrow> bucket_count bs (b_key b) = b_count b"
  by (simp add: bucket_count_def lookup_unique)

lemma typed_conforms:
  assumes "db_wf db" "db_typed db" "\<forall>k. bucket_count (event_buckets db) k < 2 ^ 63"
  shows "conforms (migrated_schema roles grants) db"
proof -
  have "in_int64 (b_count b)" if "b \<in> set (event_buckets db)" for b
    using assms(1) that assms(3)[rule_format, of "b_key b"] by (auto simp: db_wf_def bucket_count_row in_int64_def)
  then have b: "table_conf event_buckets_table (map bucket_sql (event_buckets db))"
    using assms(1) by (intro event_buckets_conf) (auto simp: db_wf_def)
  have i: "table_conf item_events_table (map item_event_sql (item_events db))"
    using assms(1,2) by (intro item_events_conf) (auto simp: db_wf_def db_typed_def)
  have c: "table_conf current_items_table (map current_item_sql (current_items db))"
    using assms(1,2) by (intro current_items_conf) (auto simp: db_wf_def db_typed_def)
  have m: "table_conf seed_marker_table (map seed_marker_sql (seed_marker db))"
    using assms(1,2) by (intro seed_marker_conf) (auto simp: db_wf_def db_typed_def)
  have "td_name item_events_table = ''item_events''" "td_name event_buckets_table = ''event_buckets''"
    "td_name current_items_table = ''current_items''" "td_name seed_marker_table = ''seed_marker''"
    by (simp_all add: table_defs)
  with i b c m show ?thesis by (simp add: conforms_def migrated_schema_def db_table_def)
qed

subsection \<open>Calls with Go values keep the tables typed\<close>

definition record_typed :: "EventRecord \<Rightarrow> bool" where
  "record_typed ev \<longleftrightarrow> in_int64 (ev_ItemID ev)"

fun call_typed :: "store_call \<Rightarrow> bool" where
  "call_typed (CallIngest f ev) = record_typed ev"
| "call_typed (CallBatch f evs) = (\<forall>ev \<in> set evs. record_typed ev)"
| "call_typed (CallReconcile f items now) = (\<forall>it \<in> set items. in_int64 (sn_ItemID it))"
| "call_typed (CallMarker f m) = (in_int64 (mk_RefUnix m) \<and> in_int64 (mk_Seed m) \<and> in_int64 (mk_Days m) \<and> in_int64 (mk_EventsWritten m))"
| "call_typed (CallRetain f cutoff) = True"

text \<open>The number of events a call offers to the counters.\<close>

fun offered :: "store_call \<Rightarrow> nat" where
  "offered (CallIngest f ev) = 1"
| "offered (CallBatch f evs) = length evs"
| "offered call = 0"

lemma ci_typed_upd [intro]:
  "ci_typed a \<Longrightarrow> ci_typed b \<Longrightarrow> ci_typed (ci_upd_event a b)" "ci_typed a \<Longrightarrow> ci_typed b \<Longrightarrow> ci_typed (ci_upd_snapshot a b)"
  by (simp_all add: ci_typed_def ci_upd_event_def ci_upd_snapshot_def)

lemma db_typed_event:
  assumes t: "db_typed db" "record_typed ev" "event_storable ev"
  shows "db_typed (event_effect P ev db)"
proof -
  have "\<forall>c \<in> set (upsert ci_id ci_upd_event (current_items db) (event_item P ev)). ci_typed c"
    by (intro items_ev.upsert_preserves) (use t in \<open>auto simp: db_typed_def record_typed_def event_storable_def ci_typed_def ci_upd_event_def\<close>)
  with t show ?thesis by (auto simp: db_typed_def event_effect_def event_row_def ie_typed_def record_typed_def event_storable_def)
qed

lemma winner_name:
  "fs_winners (foldl fold_event fold_init evs) i = Some w \<Longrightarrow> \<exists>e \<in> set evs. ev_ItemID e = i \<and> fo_name w = ev_ItemName e"
proof (induction evs arbitrary: w rule: rev_induct)
  case (snoc e evs)
  show ?case
  proof (cases "i = ev_ItemID e")
    case True
    with snoc show ?thesis by (fastforce simp: fold_event_sel Let_def split: if_splits option.splits)
  next
    case False
    with snoc show ?thesis by (auto simp: fold_event_sel)
  qed
qed (simp add: fold_init_def)

lemma folded_typed:
  assumes "foldCurrentItems evs = Some folded" "w \<in> set folded" "\<forall>ev \<in> set evs. record_typed ev \<and> event_storable ev"
  shows "ci_typed (folded_row P w)"
proof -
  let ?s = "foldl fold_event fold_init evs"
  have "folded = map (state_item ?s) (fs_order ?s)"
    using assms(1) fold_result_items[OF fold_inv_all, of evs] by (simp add: foldCurrentItems_def)
  then obtain i where i: "i \<in> set (fs_order ?s)" "w = state_item ?s i" using assms(2) by auto
  obtain v where v: "fs_winners ?s i = Some v" "fo_itemID v = i" using fold_inv_all[of evs] i(1) by (force simp: fold_inv_def)
  from winner_name[OF v(1)] v i(2) assms(3) show ?thesis
    by (auto simp: state_item_def folded_row_def ci_typed_def record_typed_def event_storable_def)
qed

lemma db_typed_batch:
  assumes "db_typed db" "\<forall>ev \<in> set evs. record_typed ev \<and> event_storable ev"
  shows "db_typed (batch_effect P evs db)"
proof -
  obtain folded where f: "foldCurrentItems evs = Some folded" using foldCurrentItems_total by blast
  have "\<forall>c \<in> set (foldl (upsert ci_id ci_upd_event) (current_items db) (map (folded_row P) folded)). ci_typed c"
    by (rule items_ev.foldl_upsert_preserves) (use assms folded_typed[OF f] in \<open>auto simp: db_typed_def\<close>)
  moreover have "\<forall>r \<in> set (batch_new P evs db). ie_typed r"
    using assms(2) insert_all_snd_subset[of ie_key "item_events db" "map (event_row P) evs"]
    by (fastforce simp: batch_new_def ie_typed_def record_typed_def event_storable_def event_row_def)
  ultimately show ?thesis using assms(1) by (auto simp: db_typed_def batch_effect_def f)
qed

lemma db_typed_reconcile:
  assumes "db_typed db" "\<forall>it \<in> set items. in_int64 (sn_ItemID it) \<and> text_ok (sn_Name it)"
  shows "db_typed (reconcile_effect P items now db)"
proof -
  have "\<forall>c \<in> set (foldl (upsert ci_id ci_upd_snapshot) (current_items db) (map (snapshot_row P now) items)). ci_typed c"
    by (rule items_snap.foldl_upsert_preserves) (use assms in \<open>auto simp: db_typed_def ci_typed_def snapshot_row_def ci_upd_snapshot_def\<close>)
  with assms(1) show ?thesis by (auto simp: db_typed_def reconcile_effect_def ci_typed_def)
qed

lemma db_typed_marker:
  assumes "db_typed db" "call_typed (CallMarker f m)" "int4_ok (mk_Days m)"
  shows "db_typed (db\<lparr>seed_marker := upsert sm_id sm_upd (seed_marker db) (marker_row P m)\<rparr>)"
proof -
  have "\<forall>r \<in> set (upsert sm_id sm_upd (seed_marker db) (marker_row P m)). sm_typed r"
    by (intro marker.upsert_preserves) (use assms in \<open>auto simp: db_typed_def sm_typed_def marker_row_def sm_upd_def\<close>)
  with assms(1) show ?thesis by (simp add: db_typed_def)
qed

lemma run_call_typed:
  assumes "db_typed db" "call_typed call"
  shows "db_typed (run_call P db call) \<and>
    bucket_count (event_buckets (run_call P db call)) k \<le> bucket_count (event_buckets db) k + int (offered call)"
proof (cases call)
  case (CallIngest f ev)
  obtain r db' where "IngestEvent P f ev db = (r, db')" by fastforce
  then show ?thesis using assms CallIngest
    by (auto elim!: IngestEvent_cases simp: db_typed_event bucket_count_effect)
next
  case (CallBatch f evs)
  have "length (filter (\<lambda>r. row_bucket r = k) (batch_new P evs db)) \<le> length evs"
    using insert_all_length[of ie_key "item_events db" "map (event_row P) evs"]
    by (intro order_trans[OF length_filter_le]) (simp add: batch_new_def)
  then have len: "bucket_count (event_buckets (batch_effect P evs db)) k \<le> bucket_count (event_buckets db) k + int (length evs)"
    by (simp add: batch_effect_def bucket_count_foldl bucket_deltas_total)
  obtain r db' where "IngestEventsBatch P f evs db = (r, db')" by fastforce
  then show ?thesis using assms CallBatch len
    by (auto elim!: IngestEventsBatch_cases simp: db_typed_batch)
next
  case (CallReconcile f items now)
  obtain r db' where "ReconcileSnapshot P f items now db = (r, db')" by fastforce
  then show ?thesis using assms CallReconcile by (auto elim!: ReconcileSnapshot_cases simp: db_typed_reconcile)
next
  case (CallMarker f m)
  obtain r db' where "UpsertSeedMarker P f m db = (r, db')" by fastforce
  then show ?thesis using assms CallMarker db_typed_marker[OF assms(1), of f m P] by (auto elim!: UpsertSeedMarker_cases)
next
  case (CallRetain f cutoff)
  obtain r db' where "DeleteEventsOlderThan P f cutoff db = (r, db')" by fastforce
  then show ?thesis using assms CallRetain by (auto elim!: DeleteEventsOlderThan_cases simp: db_typed_def)
qed

lemma run_calls_typed:
  assumes "\<forall>call \<in> set cs. call_typed call" "db_typed db"
  shows "db_typed (foldl (run_call P) db cs) \<and>
    bucket_count (event_buckets (foldl (run_call P) db cs)) k \<le> bucket_count (event_buckets db) k + int (sum_list (map offered cs))"
  using assms
proof (induction cs arbitrary: db)
  case (Cons c cs)
  have c: "db_typed (run_call P db c)" "bucket_count (event_buckets (run_call P db c)) k \<le> bucket_count (event_buckets db) k + int (offered c)"
    using run_call_typed[OF Cons.prems(2), of c P k] Cons.prems(1) by auto
  have "\<forall>call \<in> set cs. call_typed call" using Cons.prems(1) by simp
  from Cons.IH[OF this c(1)] c(2) show ?case by simp
qed simp

lemma run_calls_conform:
  assumes "codec_ok P" "\<forall>call \<in> set cs. call_typed call" "sum_list (map offered cs) < 2 ^ 63"
  shows "conforms (migrated_schema roles grants) (foldl (run_call P) empty_db cs)"
proof -
  let ?db = "foldl (run_call P) empty_db cs"
  have "db_typed empty_db" by (simp add: db_typed_def empty_db_def)
  note t = run_calls_typed[OF assms(2) this, of P]
  have "int (sum_list (map offered cs)) < 2 ^ 63" using assms(3) by (metis of_nat_less_iff of_nat_numeral of_nat_power)
  moreover have "bucket_count (event_buckets empty_db) k = 0" for k by (simp add: empty_db_def bucket_count_def)
  ultimately have "bucket_count (event_buckets ?db) k < 2 ^ 63" for k
    using t[of k, THEN conjunct2] by (simp only:)
  moreover have "db_reachable P ?db"
    by (induction cs rule: rev_induct) (simp_all add: db_reachable_empty run_call_reachable)
  ultimately show ?thesis
    using t db_reachable_invariant[OF assms(1)] by (intro typed_conforms) blast+
qed

section \<open>Typing properties\<close>



text \<open>Type soundness of the store. After any sequence of store operations whose integer arguments are 64-bit Go integers (any
  names, any event types), any faults and lost acknowledgements, the contents of the four tables conform to the schema that the migrations made: every column
  holds a value of its declared type and range, nothing that must not be null is null, every check holds, and
  every declared key is unique; the 64-bit counters do not overflow as long as fewer than 2 ^ 63 events were offered.\<close>
theorem store_conforms:
  assumes "codec_ok P" "\<forall>call \<in> set calls. call_typed call" "sum_list (map offered calls) < 2 ^ 63"
    and "pg_runs exec script"
    and "Migrate exec (Some (embedded_dir script)) f
      (migrate_runs exec (Some (embedded_dir script)) fs (fresh_state roles grants)) = (None, s)"
  shows "conforms (mg_schema s) (foldl (run_call P) empty_db calls)"
  using Migrate_result[OF assms(4,5)] run_calls_conform[OF assms(1-3)] by (simp add: migrated_state_def)

theorem store_conforms_witness:
  "conforms (migrated_schema [] []) (foldl (run_call pgx_us) empty_db
     [CallBatch no_faults sample_events, CallRetain no_faults 2000, CallIngest (no_faults(4 := Lost)) (hd sample_events)])
   \<and> length (item_events (foldl (run_call pgx_us) empty_db [CallBatch no_faults sample_events])) = 3"
proof -
  let ?calls = "[CallBatch no_faults sample_events, CallRetain no_faults 2000, CallIngest (no_faults(4 := Lost)) (hd sample_events)]"
  have t: "\<forall>call \<in> set ?calls. call_typed call"
    by (simp add: sample_events_def record_typed_def in_int64_def)
  have o: "sum_list (map offered ?calls) < 2 ^ 63" by (simp add: sample_events_def)
  have "length (item_events (foldl (run_call pgx_us) empty_db [CallBatch no_faults sample_events])) = 3"
    by (simp add: IngestEventsBatch_unfold sample_events_def storable_defs batch_effect_def batch_new_def empty_db_def
        event_row_def ie_key_def)
  then show ?thesis
    using store_conforms[OF codec_ok_us t o name_exec_runs Migrate_again[OF name_exec_runs, of "[]"], of "[]" "[]"]
    by (simp add: migrated_state_def)
qed

end
