(* ===== verification/Migrate_Race.thy ===== *)
theory Migrate_Race
  imports Store_Schema
begin

text \<open>
  Several processes run the migrations (\<^verbatim>\<open>internal/store/migrate.go\<close>) against one database at the same time: every
  \<^verbatim>\<open>serve\<close> and every \<^verbatim>\<open>seed\<close> does so when it starts. A runner is the program counter of one \<open>Migrate\<close>; a step of the system
  is one statement of the runner or one of its migration transactions, which PostgreSQL serialises. Between the
  check of a version and its transaction any other runner may move, so a runner may find the version recorded
  by another one; the primary key of \<^verbatim>\<open>schema_migrations\<close> then fails its transaction. A runner alone is \<open>Migrate\<close>
  (\<open>Migrate_is_race\<close>). The invariant follows the runner that recorded the last version.
\<close>

section \<open>Runners\<close>

datatype runner =
    Starting
  | Checking "string list"
  | Applying string "string list"
  | RunnerDone
  | RunnerFailed

fun live :: "runner \<Rightarrow> bool" where
  "live RunnerDone = False"
| "live RunnerFailed = False"
| "live r = True"

definition recordTable :: "'d mig_state \<Rightarrow> 'd mig_state" where
  "recordTable s = s\<lparr>mg_versions := Some (recorded s)\<rparr>"

text \<open>The steps of one runner; \<open>F\<close> says which outcomes its calls may have.\<close>

inductive runner_step ::
  "(string \<Rightarrow> 'd \<Rightarrow> 'd option) \<Rightarrow> dir_entry list \<Rightarrow> outcome set \<Rightarrow> runner \<times> 'd mig_state \<Rightarrow> runner \<times> 'd mig_state \<Rightarrow> bool"
  for exec entries F where
  start: "runner_step exec entries F (Starting, s) (Checking (sql_names entries), recordTable s)"
| start_failed: "Failed \<in> F \<Longrightarrow> runner_step exec entries F (Starting, s) (RunnerFailed, s)"
| start_lost: "Lost \<in> F \<Longrightarrow> runner_step exec entries F (Starting, s) (RunnerFailed, recordTable s)"
| finished: "runner_step exec entries F (Checking [], s) (RunnerDone, s)"
| check_failed: "oc \<in> F \<Longrightarrow> oc \<noteq> Done \<Longrightarrow> runner_step exec entries F (Checking (n # ns), s) (RunnerFailed, s)"
| skip: "TrimSuffix n ''.sql'' \<in> set (recorded s) \<Longrightarrow> runner_step exec entries F (Checking (n # ns), s) (Checking ns, s)"
| unreadable: "TrimSuffix n ''.sql'' \<notin> set (recorded s) \<Longrightarrow> read_file entries n = None \<Longrightarrow>
     runner_step exec entries F (Checking (n # ns), s) (RunnerFailed, s)"
| missing: "TrimSuffix n ''.sql'' \<notin> set (recorded s) \<Longrightarrow> read_file entries n \<noteq> None \<Longrightarrow>
     runner_step exec entries F (Checking (n # ns), s) (Applying n ns, s)"
| applied: "read_file entries n = Some sql \<Longrightarrow> range f \<subseteq> insert Done F \<Longrightarrow>
     applyOne exec f i (TrimSuffix n ''.sql'') sql s = (None, s') \<Longrightarrow>
     runner_step exec entries F (Applying n ns, s) (Checking ns, s')"
| apply_failed: "read_file entries n = Some sql \<Longrightarrow> range f \<subseteq> insert Done F \<Longrightarrow>
     applyOne exec f i (TrimSuffix n ''.sql'') sql s = (Some e, s') \<Longrightarrow>
     runner_step exec entries F (Applying n ns, s) (RunnerFailed, s')"

text \<open>The system: any runner may make the next step.\<close>

inductive race_step ::
  "(string \<Rightarrow> 'd \<Rightarrow> 'd option) \<Rightarrow> dir_entry list \<Rightarrow> outcome set \<Rightarrow> runner list \<times> 'd mig_state \<Rightarrow> runner list \<times> 'd mig_state \<Rightarrow> bool"
  for exec entries F where
  "i < length rs \<Longrightarrow> runner_step exec entries F (rs ! i, s) (r', s') \<Longrightarrow> race_step exec entries F (rs, s) (rs[i := r'], s')"

inductive race_reachable ::
  "(string \<Rightarrow> 'd \<Rightarrow> 'd option) \<Rightarrow> dir_entry list \<Rightarrow> outcome set \<Rightarrow> runner list \<times> 'd mig_state \<Rightarrow> runner list \<times> 'd mig_state \<Rightarrow> bool"
  for exec entries F c where
  init: "race_reachable exec entries F c c"
| step: "race_reachable exec entries F c d \<Longrightarrow> race_step exec entries F d e \<Longrightarrow> race_reachable exec entries F c e"

section \<open>A runner alone is \<open>Migrate\<close>\<close>

lemma race_reachable_trans:
  "race_reachable exec entries F d e \<Longrightarrow> race_reachable exec entries F c d \<Longrightarrow> race_reachable exec entries F c e"
  by (induction rule: race_reachable.induct) (auto intro: race_reachable.step)

lemma race_single:
  "runner_step exec entries F (r, s) (r', s') \<Longrightarrow> race_reachable exec entries F ([r], s) ([r'], s')"
  using race_step.intros[of 0 "[r]" exec entries F s r' s'] race_reachable.init by (fastforce intro: race_reachable.step)

lemma migrate_loop_is_race:
  "migrate_loop exec entries f i names s = (r, s') \<Longrightarrow>
   race_reachable exec entries UNIV ([Checking names], s) ([if r = None then RunnerDone else RunnerFailed], s')"
proof (induction names arbitrary: i s)
  case Nil
  then show ?case by (auto intro: race_single runner_step.finished)
next
  case (Cons n names)
  let ?v = "TrimSuffix n ''.sql''"
  consider "f i \<noteq> Done" | "f i = Done" "?v \<in> set (recorded s)"
    | "f i = Done" "?v \<notin> set (recorded s)" "read_file entries n = None"
    | sql where "f i = Done" "?v \<notin> set (recorded s)" "read_file entries n = Some sql" by fastforce
  then show ?case
  proof cases
    case 1
    then have "r \<noteq> None" "s' = s" using Cons.prems by (auto simp: Let_def)
    then show ?thesis using race_single[OF runner_step.check_failed[of "f i" UNIV]] 1 by auto
  next
    case 2
    then have "migrate_loop exec entries f (i + 1) names s = (r, s')" using Cons.prems by (simp add: Let_def)
    from race_reachable_trans[OF Cons.IH[OF this] race_single[OF runner_step.skip[OF 2(2)]]] show ?thesis .
  next
    case 3
    then have "r \<noteq> None" "s' = s" using Cons.prems by (auto simp: Let_def)
    then show ?thesis using race_single[OF runner_step.unreadable[OF 3(2,3)]] by auto
  next
    case (4 sql)
    have m: "race_reachable exec entries UNIV ([Checking (n # names)], s) ([Applying n names], s)"
      by (rule race_single, rule runner_step.missing) (use 4 in auto)
    obtain q s1 where a: "applyOne exec f (i + 1) ?v sql s = (q, s1)" by fastforce
    show ?thesis
    proof (cases q)
      case None
      then have "migrate_loop exec entries f (i + 5) names s1 = (r, s')" using Cons.prems 4 a by (simp add: Let_def)
      from race_reachable_trans[OF Cons.IH[OF this] race_reachable_trans[OF
          race_single[OF runner_step.applied[OF 4(3) _ a[unfolded None]]] m]] show ?thesis by simp
    next
      case (Some e)
      then have "r = Some e" "s' = s1" using Cons.prems 4 a by (auto simp: Let_def)
      with race_reachable_trans[OF race_single[OF runner_step.apply_failed[OF 4(3) _ a[unfolded Some]]] m] show ?thesis by simp
    qed
  qed
qed

lemma Migrate_is_race:
  assumes "Migrate exec (Some entries) f s = (r, s')"
  shows "race_reachable exec entries UNIV ([Starting], s) ([if r = None then RunnerDone else RunnerFailed], s')"
proof (cases "f 0")
  case Done
  then have "migrate_loop exec entries f 1 (sql_names entries) (recordTable s) = (r, s')"
    using assms by (simp add: Migrate_def recordTable_def)
  from race_reachable_trans[OF migrate_loop_is_race[OF this] race_single[OF runner_step.start]] show ?thesis .
next
  case Failed
  then show ?thesis using assms race_single[OF runner_step.start_failed[of UNIV exec entries s]] by (auto simp: Migrate_def)
next
  case Lost
  then show ?thesis using assms race_single[OF runner_step.start_lost[of UNIV exec entries s]] by (auto simp: Migrate_def recordTable_def)
qed

section \<open>The invariant\<close>

text \<open>Where a runner of the embedded directory may stand when \<open>L\<close> versions are recorded.\<close>

definition script_names :: "string list" where
  "script_names = map (\<lambda>v. v @ ''.sql'') versions"

fun runner_ok :: "nat \<Rightarrow> runner \<Rightarrow> bool" where
  "runner_ok L (Checking ns) = (\<exists>k \<le> L. ns = drop k script_names)"
| "runner_ok L (Applying n ns) = (\<exists>k \<le> L. n # ns = drop k script_names)"
| "runner_ok L RunnerDone = (L = length versions)"
| "runner_ok L r = True"

text \<open>A runner that stands exactly at the first version that is not recorded.\<close>

fun leader :: "nat \<Rightarrow> runner \<Rightarrow> bool" where
  "leader L Starting = (L = 0)"
| "leader L (Checking ns) = (ns = drop L script_names)"
| "leader L (Applying n ns) = (n # ns = drop L script_names)"
| "leader L RunnerDone = (L = length versions)"
| "leader L RunnerFailed = False"

lemma drop_names:
  assumes "n # ns = drop k script_names"
  shows "k < length versions" "n = versions ! k @ ''.sql''" "TrimSuffix n ''.sql'' = versions ! k" "ns = drop (Suc k) script_names"
proof -
  have k: "k < length script_names" using assms by (metis drop_all linorder_not_less list.distinct(1))
  then have "n = script_names ! k \<and> ns = drop (Suc k) script_names" using assms by (metis Cons_nth_drop_Suc list.inject)
  then show "k < length versions" "n = versions ! k @ ''.sql''" "TrimSuffix n ''.sql'' = versions ! k" "ns = drop (Suc k) script_names"
    using k by (simp_all add: script_names_def TrimSuffix_append)
qed

lemma drop_names_inj:
  assumes "n # ns = drop k script_names" "n # ns = drop l script_names"
  shows "k = l"
proof -
  have "length versions - k = length versions - l"
    using arg_cong[OF assms(1), of length] arg_cong[OF assms(2), of length] by (simp add: script_names_def)
  then show ?thesis using drop_names(1)[OF assms(1)] drop_names(1)[OF assms(2)] by linarith
qed

lemma recorded_take:
  assumes "mig_partial exec script d0 s"
  shows "recorded s = take (length (recorded s)) versions" "length (recorded s) \<le> length versions"
proof -
  have p: "prefix (recorded s) versions" using assms by (simp add: mig_partial_def)
  then show "recorded s = take (length (recorded s)) versions" by (metis append_eq_conv_conj prefix_def)
  show "length (recorded s) \<le> length versions" using p by (rule prefix_length_le)
qed

lemma recorded_iff:
  assumes "mig_partial exec script d0 s" "k < length versions"
  shows "versions ! k \<in> set (recorded s) \<longleftrightarrow> k < length (recorded s)"
proof
  have d: "distinct versions" by (simp add: versions_eq)
  assume "versions ! k \<in> set (recorded s)"
  then obtain j where "j < length (recorded s)" "versions ! j = versions ! k"
    using recorded_take[OF assms(1)] by (metis in_set_conv_nth nth_take)
  then show "k < length (recorded s)" using d assms(2) recorded_take(2)[OF assms(1)] nth_eq_iff_index_eq by fastforce
next
  assume "k < length (recorded s)"
  then show "versions ! k \<in> set (recorded s)" using recorded_take(1)[OF assms(1)] by (metis nth_mem nth_take)
qed

lemma embedded_readable: "k < length versions \<Longrightarrow> read_file (embedded_dir script) (versions ! k @ ''.sql'') = Some (script (versions ! k))"
  using embedded_read by (auto simp: versions_eq less_Suc_eq nth_Cons')

lemma runner_ok_mono: "runner_ok L r \<Longrightarrow> L \<le> M \<Longrightarrow> M \<le> length versions \<Longrightarrow> runner_ok M r"
  by (cases r) (auto intro: order_trans)

lemma recordTable_partial [simp]: "recorded (recordTable s) = recorded s" "mig_partial exec script d0 (recordTable s) = mig_partial exec script d0 s"
  by (simp_all add: recordTable_def mig_partial_def mig_ok_def)

text \<open>A migration transaction of a runner at version \<open>k\<close>: it fails without effect or records that version, which was the next one.\<close>

lemma apply_partial:
  assumes "mig_partial exec script d0 s" "n # ns = drop k script_names" "k \<le> length (recorded s)"
    and "read_file (embedded_dir script) n = Some sql" "applyOne exec f i (TrimSuffix n ''.sql'') sql s = (q, s')"
  shows "mig_partial exec script d0 s' \<and> (recorded s' = recorded s \<and> q \<noteq> None \<or> k = length (recorded s) \<and> recorded s' = recorded s @ [versions ! k])"
proof -
  note d = drop_names[OF assms(2)]
  have ok: "mig_ok exec (embedded_dir script) d0 s" using assms(1) by (simp add: mig_partial_def)
  have new: "k = length (recorded s)" if "recorded s' = recorded s @ [versions ! k]"
  proof -
    have "versions ! k \<notin> set (recorded s)"
      using assms(5)[unfolded d(3)] that by (cases rule: applyOne_cases) auto
    then show ?thesis using recorded_iff[OF assms(1) d(1)] assms(3) by simp
  qed
  have "prefix (recorded s @ [versions ! k]) versions" if "k = length (recorded s)"
    using d(1) recorded_take(1)[OF assms(1)] that by (metis take_Suc_conv_app_nth take_is_prefix)
  with applyOne_ok[OF ok _ assms(5)[unfolded d(3)]] new assms(1) assms(4)[unfolded d(2)] show ?thesis
    by (auto simp: mig_partial_def)
qed

lemma runner_step_inv:
  assumes "runner_step exec (embedded_dir script) F (r, s) (r', s')" "mig_partial exec script d0 s" "runner_ok (length (recorded s)) r"
  shows "mig_partial exec script d0 s' \<and> runner_ok (length (recorded s')) r' \<and> length (recorded s) \<le> length (recorded s')"
  using assms(1)
proof cases
  case start
  then show ?thesis using assms(2) embedded_names[of script] by (auto simp: script_names_def)
next
  case finished
  then have "\<exists>k \<le> length (recorded s). drop k script_names = []" using assms(3) by auto
  then show ?thesis using finished assms(2) recorded_take(2)[OF assms(2)] by (auto simp: script_names_def)
next
  case (skip n ns)
  then obtain k where k: "k \<le> length (recorded s)" "n # ns = drop k script_names" using assms(3) by auto
  then have "k < length (recorded s)" using skip(4) recorded_iff[OF assms(2)] drop_names[OF k(2)] by simp
  then show ?thesis using skip assms(2) drop_names(4)[OF k(2)] by (auto intro: exI[of _ "Suc k"])
next
  case (missing n ns)
  then show ?thesis using assms(2,3) by auto
next
  case (applied n sql f i ns)
  then obtain k where k: "k \<le> length (recorded s)" "n # ns = drop k script_names" using assms(3) by auto
  from apply_partial[OF assms(2) k(2,1) applied(3,5)] applied(2) drop_names(4)[OF k(2)] show ?thesis
    by (auto intro: exI[of _ "Suc k"])
next
  case (apply_failed n sql f i e ns)
  then obtain k where k: "k \<le> length (recorded s)" "n # ns = drop k script_names" using assms(3) by auto
  from apply_partial[OF assms(2) k(2,1) apply_failed(3,5)] apply_failed(2) show ?thesis by auto
qed (use assms(2) in auto)

section \<open>Without failures one runner always gets through\<close>

lemma next_runs:
  assumes "pg_runs exec script" "mig_partial exec script (fresh_schema roles grants) s" "length (recorded s) < length versions"
  shows "\<exists>d. exec (script (versions ! length (recorded s))) (mg_schema s) = Some d"
proof -
  let ?L = "length (recorded s)"
  have "versions = recorded s @ versions ! ?L # drop (Suc ?L) versions"
    using recorded_take(1)[OF assms(2)] assms(3) by (metis append_take_drop_id Cons_nth_drop_Suc)
  then have "replay exec (embedded_dir script) (recorded s @ versions ! ?L # drop (Suc ?L) versions) (fresh_schema roles grants) \<noteq> None"
    using embedded_replay[OF assms(1), of roles grants] by simp
  then show ?thesis
    using assms(2) embedded_readable[OF assms(3), of script] by (auto simp: replay_append mig_partial_def mig_ok_def split: Option.bind_splits)
qed

lemma apply_no_faults:
  assumes "range f \<subseteq> {Done}" "applyOne exec f i v sql s = (Some e, s')" "exec sql (mg_schema s) = Some d"
  shows "v \<in> set (recorded s) \<and> s' = s"
proof -
  have "f j = Done" for j using assms(1) by auto
  with assms(2,3) show ?thesis by (auto simp: applyOne_def split: if_splits)
qed

lemma leader_step:
  assumes "pg_runs exec script" "runner_step exec (embedded_dir script) {} (r, s) (r', s')"
    and "mig_partial exec script (fresh_schema roles grants) s" "runner_ok (length (recorded s)) r"
  shows "recorded s' = recorded s \<and> (leader (length (recorded s)) r \<longrightarrow> leader (length (recorded s)) r') \<or> leader (length (recorded s')) r'"
  using assms(2)
proof cases
  case start
  then show ?thesis using embedded_names[of script] by (auto simp: script_names_def)
next
  case finished
  then show ?thesis using recorded_take(2)[OF assms(3)] by (auto simp: script_names_def)
next
  case (skip n ns)
  then show ?thesis using drop_names[of n ns "length (recorded s)"] recorded_iff[OF assms(3), of "length (recorded s)"] by auto
next
  case (unreadable n ns)
  then obtain k where k: "n # ns = drop k script_names" using assms(4) by auto
  then show ?thesis using unreadable(5) embedded_readable[OF drop_names(1)[OF k], of script] drop_names(2)[OF k] by simp
next
  case (applied n sql f i ns)
  then obtain k where k: "k \<le> length (recorded s)" "n # ns = drop k script_names" using assms(4) by auto
  from apply_partial[OF assms(3) k(2,1) applied(3,5)] applied(2) drop_names(4)[OF k(2)] show ?thesis by auto
next
  case (apply_failed n sql f i e ns)
  then obtain k where k: "k \<le> length (recorded s)" "n # ns = drop k script_names" using assms(4) by auto
  note d = drop_names[OF k(2)]
  have "recorded s' = recorded s \<and> k < length (recorded s)"
  proof (cases "k = length (recorded s)")
    case True
    have "sql = script (versions ! k)" using apply_failed(3) embedded_readable[OF d(1), of script] d(2) by simp
    then obtain db where "exec sql (mg_schema s) = Some db" using next_runs[OF assms(1,3)] True d(1) by blast
    from apply_no_faults[OF _ apply_failed(5) this] apply_failed(4) have "versions ! k \<in> set (recorded s)" using d(3) by auto
    then show ?thesis using recorded_iff[OF assms(3) d(1)] True by simp
  next
    case False
    then show ?thesis using apply_partial[OF assms(3) k(2,1) apply_failed(3,5)] k(1) by auto
  qed
  then show ?thesis using apply_failed(1) drop_names_inj[OF k(2)] by auto
qed simp_all

definition race_inv ::
  "(string \<Rightarrow> schema \<Rightarrow> schema option) \<Rightarrow> (string \<Rightarrow> string) \<Rightarrow> schema \<Rightarrow> runner list \<times> schema mig_state \<Rightarrow> bool" where
  "race_inv exec script d0 c \<longleftrightarrow> mig_partial exec script d0 (snd c) \<and> (\<forall>r \<in> set (fst c). runner_ok (length (recorded (snd c))) r)"

lemma race_step_inv:
  assumes "race_inv exec script d0 c" "race_step exec (embedded_dir script) F c c'"
  shows "race_inv exec script d0 c'"
  using assms(2)
proof cases
  case (1 i rs s r' s')
  have p: "mig_partial exec script d0 s" "runner_ok (length (recorded s)) (rs ! i)"
    using assms(1) 1 by (auto simp: race_inv_def)
  note st = runner_step_inv[OF 1(4) p]
  have "runner_ok (length (recorded s')) r" if "r \<in> set rs" for r
    using assms(1) 1(1) that st recorded_take(2)[of exec script d0 s'] by (auto simp: race_inv_def intro: runner_ok_mono)
  then show ?thesis using st set_update_subset_insert[of rs i r'] unfolding 1(2) by (auto simp: race_inv_def)
qed

lemma race_step_leader:
  assumes "pg_runs exec script" "race_inv exec script (fresh_schema roles grants) c" "race_step exec (embedded_dir script) {} c c'"
    and "\<exists>r \<in> set (fst c). leader (length (recorded (snd c))) r"
  shows "\<exists>r \<in> set (fst c'). leader (length (recorded (snd c'))) r"
  using assms(3)
proof cases
  case (1 i rs s r' s')
  obtain j where j: "j < length rs" "leader (length (recorded s)) (rs ! j)"
    using assms(4) 1(1) by (auto simp: in_set_conv_nth)
  have p: "mig_partial exec script (fresh_schema roles grants) s" "runner_ok (length (recorded s)) (rs ! i)"
    using assms(2) 1 by (auto simp: race_inv_def)
  from leader_step[OF assms(1) 1(4) p] consider
    "leader (length (recorded s')) r'" | "recorded s' = recorded s" "j = i" "leader (length (recorded s)) r'"
    | "recorded s' = recorded s" "j \<noteq> i" using j by auto
  then show ?thesis
  proof cases
    case a: 3
    then have "rs[i := r'] ! j = rs ! j" "j < length (rs[i := r'])" using j(1) by simp_all
    then show ?thesis using a(1) j(2) unfolding 1(2) by (metis fst_conv nth_mem snd_conv)
  qed (use 1(2,3) in \<open>auto intro!: bexI[OF _ set_update_memI]\<close>)
qed

lemma race_reachable_inv:
  assumes "race_reachable exec (embedded_dir script) F (replicate n Starting, fresh_state roles grants) c"
  shows "race_inv exec script (fresh_schema roles grants) c \<and> length (fst c) = n"
  using assms
proof (induction rule: race_reachable.induct)
  case init
  show ?case by (auto simp: race_inv_def fresh_state_def mig_partial_def mig_ok_def recorded_def)
next
  case (step d e)
  have "length (fst e) = length (fst d)" using step(2) by (auto elim: race_step.cases)
  with step show ?case using race_step_inv[OF conjunct1[OF step(3)] step(2)] by simp
qed

lemma race_reachable_leader:
  assumes "pg_runs exec script" "0 < n"
    and "race_reachable exec (embedded_dir script) {} (replicate n Starting, fresh_state roles grants) c"
  shows "\<exists>r \<in> set (fst c). leader (length (recorded (snd c))) r"
  using assms(3)
proof (induction rule: race_reachable.induct)
  case init
  show ?case using assms(2) by (auto simp: fresh_state_def recorded_def)
next
  case (step d e)
  show ?case
    using race_step_leader[OF assms(1) conjunct1[OF race_reachable_inv[OF step(1)]] step(2) step(3)] .
qed

section \<open>Every race ends\<close>

fun runner_rank :: "dir_entry list \<Rightarrow> runner \<Rightarrow> nat" where
  "runner_rank entries Starting = 2 * length (sql_names entries) + 2"
| "runner_rank entries (Checking ns) = 2 * length ns + 1"
| "runner_rank entries (Applying n ns) = 2 * length ns + 2"
| "runner_rank entries r = 0"

definition race_rank :: "dir_entry list \<Rightarrow> runner list \<times> 'd mig_state \<Rightarrow> nat" where
  "race_rank entries c = sum_list (map (runner_rank entries) (fst c))"

lemma runner_step_rank: "runner_step exec entries F (r, s) (r', s') \<Longrightarrow> runner_rank entries r' < runner_rank entries r"
  by (erule runner_step.cases) auto

lemma race_step_rank:
  assumes "race_step exec entries F c c'"
  shows "race_rank entries c' < race_rank entries c"
  using assms
proof cases
  case (1 i rs s r' s')
  have "sum_list (map (runner_rank entries) (rs[i := r'])) + runner_rank entries (rs ! i)
      = sum_list (map (runner_rank entries) rs) + runner_rank entries r'"
    using 1(3)
  proof (induction rs arbitrary: i)
    case (Cons a rs)
    then show ?case by (cases i) auto
  qed simp
  with runner_step_rank[OF 1(4)] show ?thesis unfolding 1(1,2) race_rank_def by simp
qed

lemma runner_progress:
  assumes "live r" "runner_ok (length (recorded s)) r"
  shows "\<exists>r' s'. runner_step exec (embedded_dir script) F (r, s) (r', s')"
proof (cases r)
  case (Checking ns)
  then show ?thesis by (cases ns) (meson runner_step.finished runner_step.skip runner_step.unreadable runner_step.missing)+
next
  case (Applying n ns)
  then obtain k where k: "n # ns = drop k script_names" using assms(2) by auto
  have f: "read_file (embedded_dir script) n = Some (script (versions ! k))"
    using embedded_readable[OF drop_names(1)[OF k], of script] drop_names(2)[OF k] by simp
  obtain q s' where "applyOne exec no_faults 0 (TrimSuffix n ''.sql'') (script (versions ! k)) s = (q, s')" by fastforce
  moreover have "range no_faults \<subseteq> insert Done F" by auto
  ultimately show ?thesis unfolding Applying
    by (cases q) (meson runner_step.applied[OF f] runner_step.apply_failed[OF f])+
qed (use assms(1) runner_step.start in \<open>auto intro: runner_step.start\<close>)

section \<open>Properties\<close>

text \<open>C11: racing migrations. Let any number of processes run the migrations against one fresh database at the same time, their
  statements and transactions interleaved in any way, with any failures and lost acknowledgements. At every moment the
  recorded versions are the first ones in order and the schema is what their scripts, each applied once, made: no race
  applies a script twice, skips one or applies one out of order. A runner that reports success leaves the complete schema.
  Every race ends, since each step lowers a rank and a runner that has not ended can move; and when no call
  failed, at least one of the runners has succeeded at the end, however the others lost.\<close>
theorem concurrent_migrations:
  assumes "pg_runs exec script"
    and "race_reachable exec (embedded_dir script) F (replicate n Starting, fresh_state roles grants) (rs, s)"
  shows "prefix (recorded s) versions
    \<and> replay exec (embedded_dir script) (recorded s) (fresh_schema roles grants) = Some (mg_schema s)
    \<and> (RunnerDone \<in> set rs \<longrightarrow> s = migrated_state roles grants)
    \<and> ((\<exists>r \<in> set rs. live r) \<longrightarrow> (\<exists>c. race_step exec (embedded_dir script) F (rs, s) c))
    \<and> (\<forall>c. race_step exec (embedded_dir script) F (rs, s) c \<longrightarrow> race_rank (embedded_dir script) c < race_rank (embedded_dir script) (rs, s))
    \<and> (F = {} \<and> 0 < n \<and> (\<forall>r \<in> set rs. \<not> live r) \<longrightarrow> RunnerDone \<in> set rs)"
proof -
  have inv: "mig_partial exec script (fresh_schema roles grants) s" "\<forall>r \<in> set rs. runner_ok (length (recorded s)) r"
    using race_reachable_inv[OF assms(2)] by (auto simp: race_inv_def)
  have "s = migrated_state roles grants" if "RunnerDone \<in> set rs"
  proof -
    have "length (recorded s) = length versions" using inv(2) that by fastforce
    then have "recorded s = versions" using recorded_take(1)[OF inv(1)] by simp
    then show ?thesis by (rule mig_partial_done[OF assms(1) inv(1)])
  qed
  moreover have "\<exists>c. race_step exec (embedded_dir script) F (rs, s) c" if "\<exists>r \<in> set rs. live r"
    using that inv(2) runner_progress race_step.intros by (metis in_set_conv_nth)
  moreover have "RunnerDone \<in> set rs" if F: "F = {}" "0 < n" and over: "\<forall>r \<in> set rs. \<not> live r"
  proof -
    have "\<exists>r \<in> set rs. leader (length (recorded s)) r"
      using race_reachable_leader[OF assms(1) F(2) assms(2)[unfolded F(1)]] by simp
    then obtain r where "r \<in> set rs" "leader (length (recorded s)) r" by blast
    with over show ?thesis by (cases r) auto
  qed
  ultimately show ?thesis using inv(1) race_step_rank by (auto simp: mig_partial_def mig_ok_def)
qed

text \<open>Two runners race for the first version; the second one wins, and the first one's transaction fails on the primary key.\<close>

lemma race_at:
  "i < length rs \<Longrightarrow> runner_step exec entries F (rs ! i, s) (r', s') \<Longrightarrow> race_reachable exec entries F c (rs, s) \<Longrightarrow>
   race_reachable exec entries F c (rs[i := r'], s')"
  by (rule race_reachable.step) (auto intro: race_step.intros)

theorem concurrent_migrations_witness:
  "\<exists>s. race_reachable name_exec (embedded_dir (\<lambda>v. v)) {} ([Starting, Starting], fresh_state [] [])
      ([RunnerFailed, Checking (drop 1 script_names)], s) \<and> recorded s = [''0001_init'']
      \<and> exec_script migration_0001 (fresh_schema [] []) = Some (mg_schema s)"
proof -
  let ?R = "race_reachable name_exec (embedded_dir (\<lambda>v. v)) {} ([Starting, Starting], fresh_state [] [])"
  let ?s0 = "recordTable (fresh_state [] [])"
  let ?ns = "drop 1 script_names"
  have names: "sql_names (embedded_dir (\<lambda>v. v)) = ''0001_init.sql'' # ?ns"
    by (simp add: embedded_names script_names_def versions_eq)
  have v: "TrimSuffix ''0001_init.sql'' ''.sql'' = ''0001_init''" using TrimSuffix_append[of "''0001_init''" "''.sql''"] by simp
  have rd: "read_file (embedded_dir (\<lambda>v. v)) ''0001_init.sql'' = Some ''0001_init''" by (rule embedded_read)
  have r0: "recorded ?s0 = []" "recordTable ?s0 = ?s0" by (simp_all add: recordTable_def recorded_def fresh_state_def)
  obtain d where d: "name_exec ''0001_init'' (fresh_schema [] []) = Some d" "exec_script migration_0001 (fresh_schema [] []) = Some d"
    using next_runs[OF name_exec_runs, of "[]" "[]" "fresh_state [] []"] name_exec_runs
    by (auto simp: mig_partial_def mig_ok_def recorded_def fresh_state_def versions_eq pg_runs_def migrationFS_def)
  let ?s1 = "?s0\<lparr>mg_versions := Some [''0001_init''], mg_schema := d\<rparr>"
  have win: "applyOne name_exec no_faults 0 (TrimSuffix ''0001_init.sql'' ''.sql'') ''0001_init'' ?s0 = (None, ?s1)"
    using d(1) r0 by (simp add: v applyOne_def recordTable_def fresh_state_def recorded_def)
  have lose: "\<exists>e. applyOne name_exec no_faults 0 (TrimSuffix ''0001_init.sql'' ''.sql'') ''0001_init'' ?s1 = (Some e, ?s1)"
    by (simp add: v applyOne_def split: option.split)
  then obtain e where lose: "applyOne name_exec no_faults 0 (TrimSuffix ''0001_init.sql'' ''.sql'') ''0001_init'' ?s1 = (Some e, ?s1)" by blast
  have ok: "range no_faults \<subseteq> insert Done {}" by auto
  note st = runner_step.start[of name_exec "embedded_dir (\<lambda>v. v)" "{}", unfolded names]
  have 0: "?R ([Starting, Starting], fresh_state [] [])" by (rule race_reachable.init)
  have 1: "?R ([Checking (''0001_init.sql'' # ?ns), Starting], ?s0)"
    using race_at[of 0, OF _ _ 0] st[of "fresh_state [] []"] by simp
  have 2: "?R ([Checking (''0001_init.sql'' # ?ns), Checking (''0001_init.sql'' # ?ns)], ?s0)"
    using race_at[of 1, OF _ _ 1] st[of ?s0] r0(2) by simp
  have m: "runner_step name_exec (embedded_dir (\<lambda>v. v)) {} (Checking (''0001_init.sql'' # ?ns), ?s0) (Applying ''0001_init.sql'' ?ns, ?s0)"
    by (rule runner_step.missing) (use r0 rd in simp_all)
  have 3: "?R ([Applying ''0001_init.sql'' ?ns, Checking (''0001_init.sql'' # ?ns)], ?s0)" using race_at[of 0, OF _ _ 2] m by simp
  have 4: "?R ([Applying ''0001_init.sql'' ?ns, Applying ''0001_init.sql'' ?ns], ?s0)" using race_at[of 1, OF _ _ 3] m by simp
  have 5: "?R ([Applying ''0001_init.sql'' ?ns, Checking ?ns], ?s1)"
    using race_at[of 1, OF _ _ 4] runner_step.applied[OF rd ok win] by simp
  have 6: "?R ([RunnerFailed, Checking ?ns], ?s1)"
    using race_at[of 0, OF _ _ 5] runner_step.apply_failed[OF rd ok lose] by simp
  have rep: "?R = race_reachable name_exec (embedded_dir (\<lambda>v. v)) {} (replicate 2 Starting, fresh_state [] [])"
    by (simp add: numeral_2_eq_2)
  have "replay name_exec (embedded_dir (\<lambda>v. v)) (recorded ?s1) (fresh_schema [] []) = Some (mg_schema ?s1)"
    using concurrent_migrations[OF name_exec_runs 6[unfolded rep]] by blast
  with 6 d(2) show ?thesis by (intro exI[of _ ?s1]) simp
qed

end
