(* ===== verification/Reconnect.thy ===== *)
theory Reconnect
  imports Interference
begin

text \<open>
  Whole runs of the reconnect loop (\<^verbatim>\<open>Client.Run\<close>). \<open>ingest_trace\<close> lists what a run did: for every round it entered, the
  attempt number, the round and the result of its cycle (none when the pause was cancelled). The lemmas read the
  loop-carried attempt number off the results alone, which gives the schedule of the pauses, and follow the events of
  every stream to the end of the run.
\<close>

section \<open>The trace of a run\<close>

fun ingest_trace ::
  "'s IngestDataStore \<Rightarrow> IngestConfig \<Rightarrow> int \<Rightarrow> round list \<Rightarrow> 's \<times> ingest_metrics
   \<Rightarrow> (int \<times> round \<times> cycle_result option) list" where
  "ingest_trace D cfg attempt [] sm = []"
| "ingest_trace D cfg attempt (r # rs) sm =
     (if ro_ctxErr r then []
      else let sm0 = (if attempt > 0 then (fst sm, (snd sm)\<lparr>im_reconnects := im_reconnects (snd sm) + 1\<rparr>) else sm)
           in if attempt > 0 \<and> ro_waitCancelled r then [(attempt, r, None)]
              else case cycle D (ro_cycle r) sm0 of
                (Blocked, sm1) \<Rightarrow> [(attempt, r, Some Blocked)]
              | (CycleRet wasConnected err, sm1) \<Rightarrow>
                  (attempt, r, Some (CycleRet wasConnected err)) #
                  (if ro_ctxErrAfter r then []
                   else ingest_trace D cfg (wrap64 ((if wasConnected then 0 else attempt) + 1)) rs sm1))"

fun was_connected :: "cycle_result option \<Rightarrow> bool" where
  "was_connected (Some (CycleRet b e)) = b"
| "was_connected _ = False"

text \<open>The attempt number that a sequence of results leads to: the cycles since the last one that had a stream, that one included.\<close>

definition outage :: "cycle_result option list \<Rightarrow> int" where
  "outage qs = int (length (takeWhile (\<lambda>q. \<not> was_connected q) (rev qs))) + (if \<exists>q \<in> set qs. was_connected q then 1 else 0)"

definition trace_waits :: "IngestConfig \<Rightarrow> (int \<times> round \<times> cycle_result option) list \<Rightarrow> go_duration list" where
  "trace_waits cfg T = map (\<lambda>(a, r, q). backoffDuration (ro_rand r) a (ic_BackoffBase cfg) (ic_BackoffMax cfg)) (filter (\<lambda>(a, r, q). a > 0) T)"

section \<open>Lemmas\<close>

text \<open>One round: it stops the run, or it runs a cycle and the rest follows.\<close>

lemma ingest_round_cases:
  fixes D :: "'s IngestDataStore"
  obtains (stop) "ro_ctxErr r" "ingest_trace D cfg n (r # rs) sm = []"
      "\<And>waits. ingest_loop D cfg n (r # rs) waits sm = (RunReturned, waits, sm)"
  | (wait) "0 < n" "ingest_trace D cfg n (r # rs) sm = [(n, r, None)]"
      "\<And>waits. ingest_loop D cfg n (r # rs) waits sm =
         (RunReturned, waits @ trace_waits cfg [(n, r, None)], fst sm, (snd sm)\<lparr>im_reconnects := im_reconnects (snd sm) + 1\<rparr>)"
  | (last) sm0 q sm1 res where "fst sm0 = fst sm" "cycle D (ro_cycle r) sm0 = (q, sm1)"
      "ingest_trace D cfg n (r # rs) sm = [(n, r, Some q)]"
      "\<And>waits. ingest_loop D cfg n (r # rs) waits sm = (res, waits @ trace_waits cfg [(n, r, Some q)], sm1)"
  | (again) sm0 b e sm1 where "fst sm0 = fst sm" "cycle D (ro_cycle r) sm0 = (CycleRet b e, sm1)"
      "ingest_trace D cfg n (r # rs) sm =
         (n, r, Some (CycleRet b e)) # ingest_trace D cfg (wrap64 ((if b then 0 else n) + 1)) rs sm1"
      "\<And>waits. ingest_loop D cfg n (r # rs) waits sm =
         ingest_loop D cfg (wrap64 ((if b then 0 else n) + 1)) rs (waits @ trace_waits cfg [(n, r, Some (CycleRet b e))]) sm1"
proof -
  let ?sm0 = "if n > 0 then (fst sm, (snd sm)\<lparr>im_reconnects := im_reconnects (snd sm) + 1\<rparr>) else sm"
  obtain q sm1 where c: "cycle D (ro_cycle r) ?sm0 = (q, sm1)" by (meson surj_pair)
  have f: "fst ?sm0 = fst sm" by simp
  consider "ro_ctxErr r" | "\<not> ro_ctxErr r" "0 < n" "ro_waitCancelled r"
    | "\<not> ro_ctxErr r" "\<not> (0 < n \<and> ro_waitCancelled r)" "q = Blocked"
    | b e where "\<not> ro_ctxErr r" "\<not> (0 < n \<and> ro_waitCancelled r)" "q = CycleRet b e" "ro_ctxErrAfter r"
    | b e where "\<not> ro_ctxErr r" "\<not> (0 < n \<and> ro_waitCancelled r)" "q = CycleRet b e" "\<not> ro_ctxErrAfter r"
    by (cases q) auto
  then show thesis
  proof cases
    case 1
    then show ?thesis by (intro stop) simp_all
  next
    case 2
    then show ?thesis by (intro wait) (simp_all add: Let_def trace_waits_def)
  next
    case 3
    then show ?thesis by (intro last[OF f c, of RunBlocked]) (use c in \<open>auto simp: Let_def trace_waits_def\<close>)
  next
    case (4 b e)
    then show ?thesis by (intro last[OF f c, of RunReturned]) (use c in \<open>auto simp: Let_def trace_waits_def\<close>)
  next
    case (5 b e)
    then show ?thesis by (intro again[OF f c[unfolded 5(3)]]) (use c in \<open>auto simp: Let_def trace_waits_def\<close>)
  qed
qed

lemma trace_waits_Cons: "trace_waits cfg (x # T) = trace_waits cfg [x] @ trace_waits cfg T"
  by (simp add: trace_waits_def)

lemma ingest_loop_waits:
  "ingest_loop D cfg n rs waits sm = (res, waits', sm') \<Longrightarrow> waits' = waits @ trace_waits cfg (ingest_trace D cfg n rs sm)"
proof (induction rs arbitrary: n waits sm)
  case (Cons r rs)
  show ?case
  proof (cases rule: ingest_round_cases[of r D cfg n rs sm])
    case (again sm0 b e sm1)
    from Cons.IH[OF Cons.prems[unfolded again(4)]] show ?thesis
      unfolding again(3) by (subst trace_waits_Cons) simp
  qed (use Cons.prems in \<open>simp_all add: trace_waits_def del: ingest_loop.simps ingest_trace.simps\<close>)
qed (simp add: trace_waits_def)

lemma trace_rounds: "(a, r, q) \<in> set (ingest_trace D cfg n rs sm) \<Longrightarrow> r \<in> set rs"
proof (induction rs arbitrary: n sm)
  case (Cons r' rs)
  show ?case
    by (cases rule: ingest_round_cases[of r' D cfg n rs sm])
      (use Cons in \<open>auto simp del: ingest_loop.simps ingest_trace.simps\<close>)
qed simp

lemma outage_Cons: "\<exists>q \<in> set qs. was_connected q \<Longrightarrow> outage (p # qs) = outage qs"
  by (auto simp: outage_def takeWhile_append1)

lemma outage_hit: "\<forall>q \<in> set qs. \<not> was_connected q \<Longrightarrow> was_connected p \<Longrightarrow> outage (p # qs) = int (length qs) + 1"
  using takeWhile_append2[of "rev qs" "\<lambda>q. \<not> was_connected q" "[p]"] by (simp add: outage_def)

lemma trace_attempts:
  assumes "0 \<le> n" "n + int (length rs) < 2 ^ 63" "i < length (ingest_trace D cfg n rs sm)"
  defines "qs \<equiv> map (\<lambda>(a, r, q). q) (take i (ingest_trace D cfg n rs sm))"
  shows "fst (ingest_trace D cfg n rs sm ! i) = (if \<exists>q \<in> set qs. was_connected q then outage qs else n + int i)"
  using assms(1-3) unfolding qs_def
proof (induction rs arbitrary: n sm i)
  case (Cons r rs)
  show ?case
  proof (cases rule: ingest_round_cases[of r D cfg n rs sm])
    case (again sm0 b e sm1)
    let ?n = "if b then 1 else n + 1"
    let ?T = "ingest_trace D cfg ?n rs sm1"
    have "wrap64 ((if b then 0 else n) + 1) = ?n"
      using Cons.prems(1,2) by (simp add: wrap64_id in_int64_def)
    then have T: "ingest_trace D cfg n (r # rs) sm = (n, r, Some (CycleRet b e)) # ?T" using again(3) by simp
    show ?thesis
    proof (cases i)
      case (Suc j)
      have j: "j < length ?T" using Cons.prems(3) Suc T by simp
      define qs where "qs = map (\<lambda>(a, r, q). q) (take j ?T)"
      have ih: "fst (?T ! j) = (if \<exists>q \<in> set qs. was_connected q then outage qs else ?n + int j)"
        unfolding qs_def by (rule Cons.IH[OF _ _ j]) (use Cons.prems(1,2) in auto)
      have len: "length qs = j" using j by (simp add: qs_def)
      have qs: "map (\<lambda>(a, r, q). q) (take i (ingest_trace D cfg n (r # rs) sm)) = Some (CycleRet b e) # qs"
        "ingest_trace D cfg n (r # rs) sm ! i = ?T ! j" by (simp_all only: T Suc qs_def take_Suc_Cons list.map nth_Cons_Suc prod.case)
      show ?thesis
      proof (cases "\<exists>q \<in> set qs. was_connected q")
        case True
        then show ?thesis unfolding qs ih using outage_Cons[OF True, of "Some (CycleRet b e)"] by simp
      next
        case False
        then show ?thesis unfolding qs ih using outage_hit[of qs "Some (CycleRet b e)"] len Suc by (cases b) auto
      qed
    qed (simp add: T del: ingest_trace.simps)
  qed (use Cons.prems in \<open>simp_all del: ingest_loop.simps ingest_trace.simps\<close>)
qed simp

context growing_store
begin

lemma run_grows:
  assumes "inv s" "ingest_loop D cfg n rs waits (s, m) = (res, waits', s', m')"
  shows "(\<forall>x. known x s \<longrightarrow> known x s') \<and>
    (\<forall>a r e ev. (a, r, Some (CycleRet True e)) \<in> set (ingest_trace D cfg n rs (s, m)) \<and> e \<noteq> CtxErr
       \<and> ev \<in> set (received_events (cy_recvs (ro_cycle r))) \<longrightarrow> known ev s')"
  using assms
proof (induction rs arbitrary: n waits s m)
  case (Cons r rs)
  show ?case
  proof (cases rule: ingest_round_cases[of r D cfg n rs "(s, m)"])
    case (last sm0 q sm1 res')
    have "cycle D (ro_cycle r) (s, snd sm0) = (q, s', m')"
      using last(1,2) Cons.prems(2)[unfolded last(4)] by (cases sm0) simp
    from cycle_grows[OF Cons.prems(1) this] show ?thesis unfolding last(3) by auto
  next
    case (again sm0 b e sm1)
    have c: "cycle D (ro_cycle r) (s, snd sm0) = (CycleRet b e, fst sm1, snd sm1)"
      using again(1,2) by (cases sm0) simp
    note g = cycle_grows[OF Cons.prems(1) c]
    have "ingest_loop D cfg (wrap64 ((if b then 0 else n) + 1)) rs (waits @ trace_waits cfg [(n, r, Some (CycleRet b e))]) (fst sm1, snd sm1)
        = (res, waits', s', m')" using Cons.prems(2)[unfolded again(4)] by simp
    from Cons.IH[OF conjunct1[OF g] this] g show ?thesis unfolding again(3) by auto
  qed (use Cons.prems in \<open>auto simp del: ingest_loop.simps ingest_trace.simps\<close>)
qed simp

end

section \<open>Properties\<close>

lemma trace_attempt:
  assumes "int (length rs) < 2 ^ 63" "i < length (ingest_trace D cfg 0 rs sm)"
  shows "fst (ingest_trace D cfg 0 rs sm ! i) = outage (map (\<lambda>(a, r, q). q) (take i (ingest_trace D cfg 0 rs sm)))"
proof -
  let ?qs = "map (\<lambda>(a, r, q). q) (take i (ingest_trace D cfg 0 rs sm))"
  have "outage ?qs = int i" if "\<not> (\<exists>q \<in> set ?qs. was_connected q)"
  proof -
    have none: "\<forall>q \<in> set ?qs. \<not> was_connected q" using that by blast
    then have "takeWhile (\<lambda>q. \<not> was_connected q) (rev ?qs) = rev ?qs" by (subst takeWhile_eq_all_conv) simp
    then have "outage ?qs = int (length (rev ?qs))" using that by (simp only: outage_def if_False add_0_right)
    then show ?thesis using assms(2) by simp
  qed
  with trace_attempts[of 0 rs i D cfg sm] assms show ?thesis by simp
qed

text \<open>C27: the reconnect schedule. A run of the client returns only when its context was cancelled. The pause before a cycle depends
  on the results of the earlier cycles alone: with k cycles since the last one that had a stream (that one included, or since
  the start), there is no pause for k = 0, and otherwise the pause lies between half of and the whole of base * 2^(k-1),
  frozen at 30 doublings and capped. So a dropped stream is retried at the base delay however long the outage before it
  was, a lasting outage backs off to the cap, and the reconnect counter counts the pauses.\<close>
theorem reconnect_schedule:
  assumes "in_int64 (ic_BackoffMax cfg)" "\<forall>r \<in> set rs. rand_ok (ro_rand r)" "int (length rs) < 2 ^ 63"
    and "IngestRun D cfg rs (s, m) = (res, waits, s', m')"
    and "T = ingest_trace D cfg 0 rs (s, m)"
  shows "(res = RunReturned \<longrightarrow> (\<exists>r \<in> set rs. ro_ctxErr r \<or> ro_waitCancelled r \<or> ro_ctxErrAfter r))
    \<and> waits = trace_waits cfg T \<and> im_reconnects m' = im_reconnects m + length waits
    \<and> (\<forall>i < length T. fst (T ! i) = outage (map (\<lambda>(a, r, q). q) (take i T)))
    \<and> (\<forall>(a, r, q) \<in> set T. let wait = backoffDuration (ro_rand r) a (ic_BackoffBase cfg) (ic_BackoffMax cfg);
           delay = backoff_delay a (ic_BackoffBase cfg) (ic_BackoffMax cfg) in
         delay div 2 \<le> wait \<and> wait \<le> delay
         \<and> delay \<le> (if ic_BackoffMax cfg \<le> 0 then 30 * Second else ic_BackoffMax cfg)
         \<and> (0 < ic_BackoffBase cfg \<and> ic_BackoffBase cfg < 2 ^ 33 \<and> 0 < ic_BackoffMax cfg \<and> 1 \<le> a \<longrightarrow>
              delay = min (ic_BackoffMax cfg) (ic_BackoffBase cfg * 2 ^ nat (min (a - 1) 30))))"
proof -
  note run = assms(4)[unfolded IngestRun_def]
  have "waits = trace_waits cfg T" using ingest_loop_waits[OF run] by (simp add: assms(5))
  moreover have "fst (T ! i) = outage (map (\<lambda>(a, r, q). q) (take i T))" if "i < length T" for i
    using trace_attempt[OF assms(3)] that by (simp add: assms(5))
  moreover have "rand_ok (ro_rand r)" if "(a, r, q) \<in> set T" for a r q
    using assms(2) trace_rounds that unfolding assms(5) by blast
  ultimately show ?thesis
    using ingest_loop_trace[OF assms(1,2) run] backoffDuration_bounds[OF assms(1)]
      backoff_delay_bounds(2)[OF assms(1)] unfolding Let_def by fastforce
qed

text \<open>C4: no event is lost by a whole run beside other writers. Let any other store calls happen between the calls of the client,
  with any faults, through any number of reconnects. At the end of the run, every well-formed event of every stream that
  ended by itself is known: its raw row is stored unless a retention pass of the run may have reached it, and its item
  exists with a last-seen time not before it - however many later cycles failed, were cancelled or reconciled.\<close>
theorem concurrent_run_no_loss:
  assumes "\<forall>cs \<in> set calls. \<forall>call \<in> set cs. spares P c call"
    and "IngestRun (shared_ds P) cfg rs ((db, calls), m) = (res, waits, (db', calls'), m')"
    and "(a, r, Some (CycleRet True e)) \<in> set (ingest_trace (shared_ds P) cfg 0 rs ((db, calls), m))" "e \<noteq> CtxErr"
    and "ev \<in> set (received_events (cy_recvs (ro_cycle r)))"
  shows "event_known P c ev db'"
proof -
  have "all_spare P c (db, calls)" using assms(1) by (simp add: all_spare_def)
  from store_shared.run_grows[OF this assms(2)[unfolded IngestRun_def]] assms(3-5) show ?thesis by auto
qed

theorem reconnect_schedule_witness:
  "\<exists>m'. IngestRun (store_ds pgx_us) (IngestConfigFromEnv (\<lambda>_. None) (\<lambda>_. [])) [failing_round, failing_round, failing_round\<lparr>ro_ctxErr := True\<rparr>]
       (empty_db, zero_metrics) = (RunReturned, [Second], empty_db, m') \<and> im_reconnects m' = 1"
proof -
  let ?cfg = "IngestConfigFromEnv (\<lambda>_. None) (\<lambda>_. [])"
  let ?rs = "[failing_round, failing_round, failing_round\<lparr>ro_ctxErr := True\<rparr>]"
  let ?r = "IngestRun (store_ds pgx_us) ?cfg ?rs (empty_db, zero_metrics)"
  have cap: "ic_BackoffMax ?cfg = 30 * Second" "ic_BackoffBase ?cfg = Second"
    by (simp_all add: IngestConfigFromEnv_def ingest_envDuration_def)
  then have c: "in_int64 (ic_BackoffMax ?cfg)" by (simp add: in_int64_def Second_def)
  have r: "\<forall>r \<in> set ?rs. rand_ok (ro_rand r)" by (simp add: failing_round_def rand_ok_def)
  have l: "int (length ?rs) < 2 ^ 63" by simp
  have "?r = (RunReturned, [Second], empty_db, snd (snd (snd ?r)))"
    by (simp add: IngestRun_def failing_round_def cycle_def set_connected_def sample_cycle_def cap Let_def
        backoffDuration_def backoff_delay_def wrap64_def Second_def go_div_def)
  from reconnect_schedule[OF c r l this refl] this show ?thesis
    by (intro exI[of _ "snd (snd (snd ?r))"]) (simp add: zero_metrics_def)
qed

definition stream_round :: round where
  "stream_round = failing_round\<lparr>ro_cycle := sample_cycle\<rparr>"

theorem concurrent_run_no_loss_witness:
  "\<exists>db' calls' m' res waits. IngestRun (shared_ds pgx_us) (IngestConfigFromEnv (\<lambda>_. None) (\<lambda>_. [])) [stream_round, failing_round]
       ((empty_db, [[], [CallRetain no_faults (80 * Second)]]), zero_metrics) = (res, waits, (db', calls'), m')
     \<and> event_known pgx_us (80 * 1000000) \<lparr>ev_ItemID = 7, ev_ItemName = ''widget'', ev_EventType = ''created'', ev_EventTime = 90 * Second\<rparr> db'"
proof -
  let ?cfg = "IngestConfigFromEnv (\<lambda>_. None) (\<lambda>_. [])" and ?calls = "[[], [CallRetain no_faults (80 * Second)]]"
  let ?ev = "\<lparr>ev_ItemID = 7, ev_ItemName = ''widget'', ev_EventType = ''created'', ev_EventTime = 90 * Second\<rparr>"
  have sp: "\<forall>cs \<in> set ?calls. \<forall>call \<in> set cs. spares pgx_us (80 * 1000000) call" by (simp add: Second_def)
  obtain res waits db' calls' m' where run: "IngestRun (shared_ds pgx_us) ?cfg [stream_round, failing_round]
      ((empty_db, ?calls), zero_metrics) = (res, waits, (db', calls'), m')"
    by (metis prod.collapse)
  obtain sm1 where cyc: "cycle (shared_ds pgx_us) sample_cycle ((empty_db, ?calls), zero_metrics) = (CycleRet True StreamClosed, sm1)"
    by (simp add: cycle_def sample_cycle_def snapshotReconcile_def ReconcileSnapshot_def sample_stream_def shared_ds_def others_def
        handleEvent_def created_widget_def eventTypeNames_def IngestEvent_unfold lost_commit_def storable_defs
        handle_record_def update_where_def set_connected_def Let_def DeleteEventsOlderThan_def delete_where_def split: prod.splits)
  have "(0, stream_round, Some (CycleRet True StreamClosed)) \<in> set (ingest_trace (shared_ds pgx_us) ?cfg 0 [stream_round, failing_round]
      ((empty_db, ?calls), zero_metrics))"
    using cyc by (simp add: stream_round_def failing_round_def)
  moreover have "?ev \<in> set (received_events (cy_recvs (ro_cycle stream_round)))"
    by (simp add: stream_round_def sample_cycle_def sample_stream_received)
  ultimately have "event_known pgx_us (80 * 1000000) ?ev db'"
    using concurrent_run_no_loss[OF sp run] by blast
  with run show ?thesis by blast
qed

end
