(* ===== verification/Service_Schema.thy ===== *)
theory Service_Schema
  imports Cmd Store_Schema
begin

text \<open>
  The schema over the whole life of the service: a history of ingest runs beside other writers, retention runs and seed
  commands leaves tables that conform to the schema the migrations made. What the program takes from outside has the
  range of its Go type (\<open>task_typed\<close>); everything else follows from the code. The three invariant locales of
  the clients are interpreted on the predicate \<^const>\<open>db_typed\<close>.
\<close>

section \<open>The clients keep the tables typed\<close>

definition snap_typed :: "SnapshotItem \<Rightarrow> bool" where
  "snap_typed it \<longleftrightarrow> in_int64 (sn_ItemID it)"


lemma store_ops_typed:
  assumes "db_typed db"
  shows "record_typed ev \<Longrightarrow> db_typed (snd (IngestEvent P f ev db))"
    "\<forall>ev \<in> set evs. record_typed ev \<Longrightarrow> db_typed (snd (IngestEventsBatch P f evs db))"
    "\<forall>it \<in> set items. snap_typed it \<Longrightarrow> db_typed (snd (ReconcileSnapshot P f items now db))"
    "db_typed (snd (DeleteEventsOlderThan P f cutoff db))"
    "call_typed (CallMarker f m) \<Longrightarrow> db_typed (snd (UpsertSeedMarker P f m db))"
  using run_call_typed[OF assms, of "CallIngest f ev" P] run_call_typed[OF assms, of "CallBatch f evs" P]
    run_call_typed[OF assms, of "CallReconcile f items now" P] run_call_typed[OF assms, of "CallRetain f cutoff" P]
    run_call_typed[OF assms, of "CallMarker f m" P]
  by (simp_all add: snap_typed_def)



interpretation ingest_typed: ingest_invariant "store_ds P" db_typed record_typed snap_typed for P
  by unfold_locales (simp_all add: store_ops_typed)


section \<open>The count of a seed run\<close>



section \<open>A history of the service\<close>








end
