(* ===== verification/Spec2Isabelle.thy ===== *)
theory Spec2Isabelle
  imports Serve Telemetry Migrate_Race Reconnect Service_Schema
begin

text \<open>
  \<^bold>\<open>Verification of the analytics service\<close> (\<^verbatim>\<open>services/analytics\<close>, the Go program of the devops-demo repository).

  \<^bold>\<open>The program.\<close> The service consumes the item events of a backend over gRPC and keeps four PostgreSQL tables: the raw
  events (\<^verbatim>\<open>item_events\<close>), hourly counts (\<^verbatim>\<open>event_buckets\<close>), the state of every item ever seen (\<^verbatim>\<open>current_items\<close>) and
  the marker of the last seed run (\<^verbatim>\<open>seed_marker\<close>). \<^verbatim>\<open>analytics serve\<close> runs three activities over one connection pool:
  the ingest client (snapshot, then stream, with retries and reconnects), the hourly retention job, and a read-only
  HTTP server. \<^verbatim>\<open>analytics seed\<close> generates a deterministic history from a load profile and writes it in batches, trims
  it with the same retention code, records the marker and publishes the profile's anomalies to Grafana.
  \<^verbatim>\<open>analytics healthcheck\<close> probes the server. The parts meet in the store, so most properties are about what its
  tables contain after any sequence of operations, faults, retries and replays.

  \<^bold>\<open>The theories\<close>, each with the package it models (under \<^verbatim>\<open>src/services/analytics\<close>):

  \<^item> \<^verbatim>\<open>Analytics_Prelude\<close>, \<^verbatim>\<open>Sql_Tables\<close>: shared lemmas; tables as lists of rows with a unique key, INSERT with
    ON CONFLICT DO NOTHING / DO UPDATE, GROUP BY; the outcome of a database call. The locales \<open>upsert_table\<close> and
    \<open>merge_table\<close> have the laws of an upsert and are interpreted on each of the program's upserts.
  \<^item> \<^verbatim>\<open>Store\<close> (\<^verbatim>\<open>internal/store/current_items.go\<close>, \<^verbatim>\<open>retention.go\<close>): IngestEvent, ReconcileSnapshot, GetCurrentItem,
    StatsLast24h, DeleteEventsOlderThan; refinement of IngestEvent to the delivery of an event.
  \<^item> \<^verbatim>\<open>Store_Seed\<close> (\<^verbatim>\<open>internal/store/seed.go\<close>): the in-memory fold of a batch, IngestEventsBatch, the seed marker;
    equality of the batch with one IngestEvent per event.
  \<^item> \<^verbatim>\<open>Store_Machine\<close>: any interleaving of store operations as a step relation; invariants by rule induction.
  \<^item> \<^verbatim>\<open>Store_Migrate\<close> (\<^verbatim>\<open>internal/store/pool.go\<close>, \<^verbatim>\<open>migrate.go\<close>): connecting with retries, migrations.
  \<^item> \<^verbatim>\<open>Store_Schema\<close> (\<^verbatim>\<open>internal/store/migrations/*.sql\<close>): the embedded scripts statement by statement and the schema they make;
    the SQL statements of the store and the contents of its tables typed against it.
  \<^item> \<^verbatim>\<open>Migrate_Race\<close> (\<^verbatim>\<open>migrate.go\<close>): several processes migrating one database at the same time, as a step relation.
  \<^item> \<^verbatim>\<open>Service_Schema\<close>: the tables of a whole service history typed against the migrated schema.
  \<^item> \<^verbatim>\<open>Go_Stdlib\<close>: the functions of Go's standard library that the program relies on (64-bit wrap-around, truncated
    division, decimal conversion, strings, \<^verbatim>\<open>time\<close>).
  \<^item> \<^verbatim>\<open>Retention\<close> (\<^verbatim>\<open>internal/retention\<close>): configuration, one pass, the ticker loop, metrics.
  \<^item> \<^verbatim>\<open>Watermark\<close>, \<^verbatim>\<open>Ingest\<close> (\<^verbatim>\<open>internal/ingest\<close>): the atomic watermark under concurrent callers; event handling,
    same-event retries, the cycle, the reconnect loop and its backoff.
  \<^item> \<^verbatim>\<open>Interference\<close>, \<^verbatim>\<open>Reconnect\<close>: the ingest client while other writers call the store between its calls, for one stream and
    for a whole run; the schedule of the reconnects.
  \<^item> \<^verbatim>\<open>Float64\<close>, \<^verbatim>\<open>Loadshape\<close> (\<^verbatim>\<open>internal/loadshape\<close>): binary64 rounding; the rate function, its clock arithmetic, noise,
    anomalies and profile validation.
  \<^item> \<^verbatim>\<open>Seeder\<close> (\<^verbatim>\<open>internal/seeder\<close>): generation and batched writing, with all cancellation paths.
  \<^item> \<^verbatim>\<open>Grafana\<close> (\<^verbatim>\<open>internal/grafana\<close>): annotations and their replacement.
  \<^item> \<^verbatim>\<open>Httpserver\<close> (\<^verbatim>\<open>internal/httpserver\<close>): routing and handlers.
  \<^item> \<^verbatim>\<open>Cmd\<close> (\<^verbatim>\<open>cmd/analytics\<close>): the seed command with every early return, the action sequences of serve, the health
    check, dispatch; the service over time.
  \<^item> \<^verbatim>\<open>Serve\<close> (\<^verbatim>\<open>cmd/analytics/main.go\<close>, \<^verbatim>\<open>serve\<close>): the concurrent program, the main goroutine with its deferred actions beside
    the ingest, retention and HTTP goroutines and the signal, as a step relation; invariants by rule induction.
  \<^item> \<^verbatim>\<open>Telemetry\<close> (\<^verbatim>\<open>internal/otelsetup\<close>, \<^verbatim>\<open>internal/ingest/trace.go\<close>, \<^verbatim>\<open>internal/logging\<close>): trace propagation over a heap
    of metadata objects; the log handler over a model of slog's JSON handler.

  \<^bold>\<open>How state and operations correspond.\<close> A table is a field of the record \<open>db\<close>, a row a record. A store operation takes
  the faults of its calls (\<open>nat \<Rightarrow> outcome\<close>: done, failed, or carried out with the acknowledgement lost) and returns an
  error or a result together with the new tables; a transaction that does not commit returns the old ones. A Go error
  is a value of an error datatype, an early return a branch. Loops over data are recursive functions. The loops that
  wait for the outside (ticker, stream, reconnect) run on a script, a finite list of what they receive: a script that
  ends is a loop still waiting, and the theorems hold for every script, so no bound is assumed. Nothing else
  uses fuel; all functions terminate. Interfaces of the packages (\<^verbatim>\<open>DataStore\<close>, \<^verbatim>\<open>ItemsStore\<close>) are locales
  (\<open>retention_store\<close>, \<open>live_store\<close> with its extensions \<open>ingest_store\<close> and \<open>growing_store\<close>, \<open>strict_store\<close>, \<open>seed_store\<close>,
  \<open>items_store\<close>); the clients are verified in them and interpreted on the model of the store, alone and shared. What a client
  preserves is stated once per client (\<open>ingest_invariant\<close>, \<open>batch_invariant\<close>, \<open>delete_invariant\<close>) and interpreted on
  reachability and on typing.

  \<^bold>\<open>What is shown.\<close> Store: each operation does all of its work or none; batch and serial ingestion agree; delivery order
  and duplicates do not matter; replays are no-ops while the raw rows exist; every bucket counts the rows it was
  built from. Schema: migrating converges after any failures and under any race of processes, every statement of the
  store type-checks in the result, and the tables conform to it after any history of the service. Ingest: exactly-once effect of a stream under retries and lost acknowledgements, progress when the
  database recovers, reconcile before stream; the pauses of a run as a function of its past cycles; no event of an
  ended stream lost over a whole run beside other writers; what a name that PostgreSQL cannot hold does to the client.
  Retention: only expired events go, as long as the horizon is within the range of a time, and what happens beyond it.
  Load shape: exactness of clock and window arithmetic in binary64, bounds, bijectivity of the hash. Seeder: success
  means the planned history, failure means a prefix of it, a rerun changes nothing. HTTP, Grafana, migrations and the
  commands: their answers, errors, exit codes and orders. serve: every interleaving implements the sequential
  specification, never uses a closed pool from a background goroutine, keeps the tables consistent and can always
  complete its shutdown. Telemetry: the trace context reaches the backend without touching the caller's metadata, and
  every log line carries a trace id. Twelve places where the code falls short of its comments or
  its inputs are stated as theorems too.

  \<^bold>\<open>Parameters\<close> (code outside the repository), each with its documented behaviour as a named hypothesis where one is
  needed: the time codec of pgx (\<open>pgx\<close>, \<open>codec_ok\<close>), the backend's gRPC replies, the random generator (\<open>rng_ok\<close>),
  Grafana's annotation API (\<open>grafana_ok\<close>), gRPC metadata (\<open>md_ok\<close>), OpenTelemetry's propagators (\<open>compose_ok\<close>), \<^verbatim>\<open>encoding/json\<close>, \<^verbatim>\<open>math.Cos\<close>, \<^verbatim>\<open>strconv.ParseFloat\<close>, \<^verbatim>\<open>time.ParseDuration\<close>,
  \<^verbatim>\<open>flag\<close>, the file system, the engine that executes a migration script (\<open>pg_runs\<close>: it runs the transcribed statements).

  \<^bold>\<open>What is not modelled.\<close> The log lines and spans the functions emit on their way; the text of errors; the generated
  protobuf code; columns nothing reads (serial ids,
  \<^verbatim>\<open>received_at\<close>, \<^verbatim>\<open>updated_at\<close>); overflow of bigint columns and of counters (the 32-bit column \<^verbatim>\<open>days\<close> is checked, and
  \<open>store_conforms\<close> says when the others cannot overflow); times outside the range of \<^verbatim>\<open>timestamptz\<close> (text with a zero byte is
  rejected as PostgreSQL does); constructors and
  struct types that only hold what the functions take as arguments; infinities, NaN, division by a zero time scale and overflow of
  floats (a float is a real rounded after every operation, and conversion of an out-of-range float to int64 is that
  of amd64); which error a context reports; the row order PostgreSQL chooses where the query fixes none; request paths
  that need cleaning. The goroutines of serve interleave at the granularity of store operations, each a transaction that
  PostgreSQL serialises; isolation anomalies inside a transaction are outside the model.
\<close>

section \<open>Properties across components\<close>

text \<open>C6: the books balance over the whole life of the service. After any sequence of ingest runs (with their
  reconnects, retries and reconciles, interleaved call by call with other writers), retention runs and seed commands
  (complete, failed or interrupted), with any database faults and lost acknowledgements, on a database that started
  empty: the tables are well formed and are those of a serial sequence of store operations in whose ledger every hourly
  bucket counts exactly the stored raw events and those that retention passes of the sequence removed; and while no
  retention pass has run, every bucket counts exactly the stored events.\<close>
theorem service_accounting:
  assumes "codec_ok P"
  shows "db_wf (service_history P ts)
    \<and> (\<exists>l. store_reachable P l \<and> m_db l = service_history P ts \<and> (\<forall>k. 0 \<le> m_expired l k \<and>
        bucket_count (event_buckets (service_history P ts)) k = events_in (item_events (service_history P ts)) k + m_expired l k))
    \<and> ((\<forall>t \<in> set ts. keeps_all t) \<longrightarrow> (\<forall>k.
        bucket_count (event_buckets (service_history P ts)) k = events_in (item_events (service_history P ts)) k))"
  using db_reachable_invariant[OF assms service_history_reachable] db_reachable_ledger[OF assms service_history_reachable]
    db_exact_count[OF assms service_history_exact] by blast

theorem service_accounting_witness:
  "db_wf (service_history pgx_us [SeedTask sample_env [] (ws_mig sample_ws) (), SeedTask sample_env [] (ws_mig sample_ws) ()])"
  using service_accounting[OF codec_ok_us] by blast


text \<open>Counting rows by their bucket.\<close>

lemma sum_events_in:
  "distinct ks \<Longrightarrow> (\<Sum>k\<leftarrow>ks. events_in rows k) = int (length (filter (\<lambda>r. row_bucket r \<in> set ks) rows))"
proof (induction ks)
  case (Cons k ks)
  have "length (filter (\<lambda>r. row_bucket r \<in> set (k # ks)) rows) =
      length (filter (\<lambda>r. row_bucket r = k) rows) + length (filter (\<lambda>r. row_bucket r \<in> set ks) rows)"
    using Cons.prems by (induction rows) auto
  with Cons show ?case by (simp add: events_in_def)
qed simp

lemma buckets_cover_rows:
  assumes "db_wf db" "\<forall>k. 0 \<le> ex k \<and> bucket_count (event_buckets db) k = events_in (item_events db) k + ex k"
  shows "int (length (filter (\<lambda>r. Q (row_bucket r)) (item_events db))) \<le> (\<Sum>b\<leftarrow>filter (\<lambda>b. Q (b_key b)) (event_buckets db). b_count b)"
    and "r \<in> set (item_events db) \<Longrightarrow> row_bucket r \<in> b_key ` set (event_buckets db)"
proof -
  let ?bs = "filter (\<lambda>b. Q (b_key b)) (event_buckets db)" and ?rows = "item_events db"
  have uniq: "unique_key b_key (event_buckets db)" using assms(1) by (simp add: db_wf_def)
  have has: "row_bucket r \<in> b_key ` set (event_buckets db)" if r: "r \<in> set ?rows" for r
  proof (rule ccontr)
    assume "row_bucket r \<notin> b_key ` set (event_buckets db)"
    then have "bucket_count (event_buckets db) (row_bucket r) = 0" by (simp add: bucket_count_def lookup_None_iff[symmetric])
    moreover have "0 < events_in ?rows (row_bucket r)" using r by (auto simp: events_in_def filter_empty_conv)
    ultimately show False using assms(2) by (metis add_pos_nonneg less_irrefl)
  qed
  then show "r \<in> set ?rows \<Longrightarrow> row_bucket r \<in> b_key ` set (event_buckets db)" .
  have count: "events_in ?rows (b_key b) \<le> b_count b" if "b \<in> set ?bs" for b
  proof -
    have "lookup b_key (event_buckets db) (b_key b) = Some b" using uniq that by (simp add: lookup_unique)
    then show ?thesis using assms(2) by (metis add_increasing2 bucket_count_def option.simps(5) order_refl)
  qed
  have "filter (\<lambda>r. Q (row_bucket r)) ?rows = filter (\<lambda>r. row_bucket r \<in> set (map b_key ?bs)) ?rows"
    by (intro filter_cong) (auto dest!: has)
  then have "int (length (filter (\<lambda>r. Q (row_bucket r)) ?rows)) = (\<Sum>k\<leftarrow>map b_key ?bs. events_in ?rows k)"
    using sum_events_in[of "map b_key ?bs" ?rows] uniq by (simp add: unique_key_def distinct_map_filter)
  also have "\<dots> = (\<Sum>b\<leftarrow>?bs. events_in ?rows (b_key b))" by (simp add: comp_def)
  also have "\<dots> \<le> (\<Sum>b\<leftarrow>?bs. b_count b)" using count by (intro sum_list_mono) auto
  finally show "int (length (filter (\<lambda>r. Q (row_bucket r)) ?rows)) \<le> (\<Sum>b\<leftarrow>?bs. b_count b)" .
qed

text \<open>C14: the statistics endpoint never under-reports. After any history of the service, when the endpoint answers 200, every
  stored event of the last 24 hourly windows has an entry for its type, and the count of an entry is at least the
  number of stored events of its type in these windows, no matter what was replayed, retried or batched.\<close>
theorem stats_cover_events:
  assumes "codec_ok P"
    and "handleStats (store_items P f now) (service_history P ts) = writeJSON 200 (StatsBody es)"
  shows "(\<forall>r \<in> set (item_events (service_history P ts)).
        now - 24 * hour_us \<le> date_trunc_hour (ie_time r) \<longrightarrow> ie_type r \<in> se_EventType ` set es)
    \<and> (\<forall>e \<in> set es. int (length (filter (\<lambda>r. now - 24 * hour_us \<le> date_trunc_hour (ie_time r) \<and> ie_type r = se_EventType e)
          (item_events (service_history P ts)))) \<le> se_Count e)"
proof -
  let ?db = "service_history P ts" and ?e = "\<lambda>stat. \<lparr>se_EventType = st_EventType stat, se_Count = st_Count stat\<rparr>"
  obtain ex where wf: "db_wf ?db"
    and acc: "\<forall>k. 0 \<le> ex k \<and> bucket_count (event_buckets ?db) k = events_in (item_events ?db) k + ex k"
    using db_reachable_invariant[OF assms(1) service_history_reachable] by blast
  have "es = map ?e (stats_rows now (event_buckets ?db))"
    using assms(2) by (auto simp: handleStats_def StatsLast24h_def writeJSON_def WriteHeader_def
        split: sum.splits if_splits dest: scan_rows_Inr)
  then have types: "se_EventType ` set es = b_type ` {b \<in> set (event_buckets ?db). now - 24 * hour_us \<le> b_start b}"
    and counts: "e \<in> set es \<Longrightarrow> se_Count e =
      (\<Sum>b\<leftarrow>filter (\<lambda>b. now - 24 * hour_us \<le> fst (b_key b) \<and> snd (b_key b) = se_EventType e) (event_buckets ?db). b_count b)" for e
    using stats_rows_types[of now "event_buckets ?db", THEN arg_cong[of _ _ set]] stats_rows_count[of _ now "event_buckets ?db"]
    by (auto simp: image_image b_key_def)
  have "ie_type r \<in> se_EventType ` set es"
    if "r \<in> set (item_events ?db)" "now - 24 * hour_us \<le> date_trunc_hour (ie_time r)" for r
    using buckets_cover_rows(2)[OF wf acc that(1)] that(2) unfolding types
    by (force simp: row_bucket_def b_key_def image_iff)
  moreover have "int (length (filter (\<lambda>r. now - 24 * hour_us \<le> date_trunc_hour (ie_time r) \<and> ie_type r = se_EventType e)
      (item_events ?db))) \<le> se_Count e" if "e \<in> set es" for e
    using buckets_cover_rows(1)[OF wf acc, of "\<lambda>k. now - 24 * hour_us \<le> fst k \<and> snd k = se_EventType e"]
    unfolding counts[OF that] by (simp add: row_bucket_def)
  ultimately show ?thesis by blast
qed

theorem stats_cover_events_witness:
  "\<exists>es. handleStats (store_items pgx_us no_faults 0) (service_history pgx_us one_event_history) = writeJSON 200 (StatsBody es)
     \<and> ''created'' \<in> se_EventType ` set es"
proof -
  have "StatsLast24h no_faults 0 db = Inr (stats_rows 0 (event_buckets db))" for db
    by (simp add: StatsLast24h_def scan_rows_no_faults)
  then obtain es where es: "handleStats (store_items pgx_us no_faults 0) (service_history pgx_us one_event_history) = writeJSON 200 (StatsBody es)"
    by (simp add: handleStats_def)
  have row: "event_row pgx_us (handle_record created_widget ''created'') \<in> set (item_events (service_history pgx_us one_event_history))"
    by (simp add: one_event_history_db event_effect_def event_fresh_def empty_db_def)
  have "ie_type (event_row pgx_us (handle_record created_widget ''created'')) = ''created''"
    "0 - 24 * hour_us \<le> date_trunc_hour (ie_time (event_row pgx_us (handle_record created_widget ''created'')))"
    by (simp_all add: event_row_def handle_record_def created_widget_def Second_def hour_us_def date_trunc_hour_def)
  with stats_cover_events[OF codec_ok_us es] row have "''created'' \<in> se_EventType ` set es" by metis
  with es show ?thesis by (intro exI[of _ es] conjI)
qed

text \<open>C19: what the seed command records is what the service serves. After a seed command that exits 0, GET
  /api/v1/seed-marker is answered 200 (with a completion time in the years JSON can carry) with the days and the seed that were given on the command line, the scale and the
  reference time of the run, and the number of events it wrote, whatever marker an earlier run left; on a database
  that was never seeded it is answered 404.\<close>
theorem seed_marker_served:
  assumes "seed P E args ws = (0, ws')" "json_time_ok (pg_dec P (pg_enc P (sv_seededAt E)))"
  shows "(\<exists>days seedValue path written. seed_flags E args = Some (days, seedValue, path)
      \<and> ServeHTTP (store_items P no_faults now) pingOk \<lparr>rq_method = ''GET'', rq_path = [''api'', ''v1'', ''seed-marker'']\<rparr> (ws_db ws') up
        = (\<lparr>rs_status = 200, rs_body = MarkerBody \<lparr>sr_Scale = seed_scale E, sr_RefUnix = time_Unix (sv_refTime E), sr_Seed = seedValue,
             sr_Days = days, sr_SeededAt = pg_dec P (pg_enc P (sv_seededAt E)), sr_EventsWritten = written\<rparr>\<rparr>, up)
      \<and> (\<exists>profile items db1. SeederRun (IngestEventsBatch P) (sv_world E) (sv_rng E) (sv_newPCG E) (sv_cos E)
          (seed_cfg E days seedValue (seed_scale E)) profile items (ws_db ws) = ((written, None), db1)))
    \<and> ServeHTTP (store_items P no_faults now) pingOk \<lparr>rq_method = ''GET'', rq_path = [''api'', ''v1'', ''seed-marker'']\<rparr> empty_db up
        = (WriteHeader 404, up)"
proof -
  obtain days seedValue profile items mig written db1 where r: "seed_ready E args ws days seedValue profile items mig"
      "SeederRun (IngestEventsBatch P) (sv_world E) (sv_rng E) (sv_newPCG E) (sv_cos E)
        (seed_cfg E days seedValue (seed_scale E)) profile items (ws_db ws) = ((written, None), db1)"
      "lookup sm_id (seed_marker (ws_db ws')) 1 = Some (marker_row P (seed_record E days seedValue (seed_scale E) written))"
    using assms(1) by (rule seed_success)
  obtain path where "seed_flags E args = Some (days, seedValue, path)"
    using r(1) by (auto simp: seed_ready_def seed_flags_def)
  moreover have "ServeHTTP (store_items P no_faults now) pingOk \<lparr>rq_method = ''GET'', rq_path = [''api'', ''v1'', ''seed-marker'']\<rparr> (ws_db ws') up
        = (\<lparr>rs_status = 200, rs_body = MarkerBody \<lparr>sr_Scale = seed_scale E, sr_RefUnix = time_Unix (sv_refTime E), sr_Seed = seedValue,
             sr_Days = days, sr_SeededAt = pg_dec P (pg_enc P (sv_seededAt E)), sr_EventsWritten = written\<rparr>\<rparr>, up)"
    using r(3) assms(2) by (simp add: ServeHTTP_def get_only_def is_get_def handleSeedMarker_def GetSeedMarker_def marker_row_def seed_record_def writeJSON_def)
  moreover have "ServeHTTP (store_items P no_faults now) pingOk \<lparr>rq_method = ''GET'', rq_path = [''api'', ''v1'', ''seed-marker'']\<rparr> empty_db up
        = (WriteHeader 404, up)"
    by (simp add: ServeHTTP_def get_only_def is_get_def handleSeedMarker_def GetSeedMarker_def empty_db_def)
  ultimately show ?thesis using r(2) by blast
qed

theorem seed_marker_served_witness:
  "\<exists>ws' days seedValue written. seed pgx_us sample_env [] sample_ws = (0, ws')
     \<and> rs_body (fst (ServeHTTP (store_items pgx_us no_faults 0) True
         \<lparr>rq_method = ''GET'', rq_path = [''api'', ''v1'', ''seed-marker'']\<rparr> (ws_db ws') 1))
       = MarkerBody \<lparr>sr_Scale = 1, sr_RefUnix = 1750000000, sr_Seed = seedValue, sr_Days = days,
           sr_SeededAt = 1750000100 * Second, sr_EventsWritten = written\<rparr>"
proof -
  have "\<forall>i. sw_faults (sv_world sample_env) i = no_faults" "\<forall>h. \<not> sw_ctxHour (sv_world sample_env) h"
    "sv_markerFaults sample_env 0 = Done" "rng_ok (sv_rng sample_env)"
    by (simp_all add: sample_env_def calm_def rng_zero_ok)
  from seed_live[OF sample_ready _ _ this sample_names, of pgx_us] have "fst (seed pgx_us sample_env [] sample_ws) = 0" by simp
  then obtain ws' where run: "seed pgx_us sample_env [] sample_ws = (0, ws')" by (metis prod.collapse)
  have env: "seed_scale sample_env = 1" "time_Unix (sv_refTime sample_env) = 1750000000"
    "pg_dec pgx_us (pg_enc pgx_us (sv_seededAt sample_env)) = 1750000100 * Second"
    by (simp_all add: seed_scale_def envFloat_def sample_env_def time_Unix_def Second_def)
  have "json_time_ok (pg_dec pgx_us (pg_enc pgx_us (sv_seededAt sample_env)))"
    unfolding env by (simp add: json_time_ok_def Second_def)
  from seed_marker_served[OF run this, of 0 True 1, THEN conjunct1, unfolded env] obtain days seedValue written where
    "ServeHTTP (store_items pgx_us no_faults 0) True \<lparr>rq_method = ''GET'', rq_path = [''api'', ''v1'', ''seed-marker'']\<rparr> (ws_db ws') 1
       = (\<lparr>rs_status = 200, rs_body = MarkerBody \<lparr>sr_Scale = 1, sr_RefUnix = 1750000000, sr_Seed = seedValue, sr_Days = days,
           sr_SeededAt = 1750000100 * Second, sr_EventsWritten = written\<rparr>\<rparr>, 1)" by blast
  with run show ?thesis by (intro exI[of _ ws'] exI[of _ days] exI[of _ seedValue] exI[of _ written]) simp
qed

end
